(* ===== verification/Ctl_Prelude.thy ===== *)
theory Ctl_Prelude
  imports Main "HOL-Library.Word"
begin

text \<open>
  The prelude of the control-plane development. It holds what the components share:
  \<^item> the sentinel errors of the Go packages and the wrapping discipline
    (\<open>fmt.Errorf\<close> with \<open>%w\<close>, read back by \<open>errors.Is\<close>);
  \<^item> the \<open>int64\<close> arithmetic of the counters, with the wrap-around written out;
  \<^item> instants and durations in nanoseconds (Go's \<open>time.Time\<close> counted from its zero value);
  \<^item> decimal rendering, big-endian length prefixes and hexadecimal, the encodings that the
    keys and the hash chain are built from, with their injectivity lemmas;
  \<^item> the lemma collections the component proofs draw on.
\<close>

named_theorems frame_simps \<open>what an operation leaves untouched\<close>
named_theorems obs_simps \<open>how an operation changes what can be observed of a state\<close>

subsection \<open>Errors\<close>

text \<open>
  A Go error is modelled by the sentinels that \<open>errors.Is\<close> finds in its wrap tree, outermost
  first; the texts are not part of the model. \<open>Named\<close> carries the sentinels of the outer packages by
  their name; \<open>Dynamic\<close> stands for an error that wraps no sentinel and is told apart by the place
  that makes it.
\<close>

datatype sentinel =
    ErrStoreUnavailable | ErrKillSwitchEngaged | ErrSessionDenied | ErrReservationExists
  | ErrReservationNotFound | ErrReservationConflict | ErrBindingExists | ErrQuotaExceeded
  | ErrCreateRateDimension | ErrConcurrentDimension
  | ErrNotOwned | ErrEnumerationUnsupported
  | ErrAdmissionRejected
  | ErrScopeInvalid | ErrSOARUnverified
  | ErrAuditWriteFailed
  | ErrNoSuchContainer | ErrNetworkActive | ErrUnsupportedSpec | ErrMaterialize | ErrTeardown
  | ErrNotImplemented
  | ErrUnattested | ErrInvalidArgument | ErrIntentOutsideCeiling
  | ErrBadPublicKey | ErrStageFailed
  | ErrMintScope | ErrNoActiveKey
  | ErrChainInvalid | ErrNoLeaves | ErrMixedSource | ErrTipDecoupled | ErrNothingToRotate
  | ErrSegmentExists | ErrFileSinkClosed
  | ErrSignatureInvalid | ErrHeadIncomplete | ErrFieldTooLong
  | ErrBelowFloor | ErrHotWindowTooLong | ErrHotWindowInvalid | ErrWithinFloor
  | ErrUnknownWriteTime | ErrWriteTimeInFuture | ErrSealTimeInFuture
  | Named string
  | CtxErr
  | Dynamic string

type_synonym err = "sentinel list"

definition errors_is :: "err \<Rightarrow> sentinel \<Rightarrow> bool" where
  "errors_is e s \<longleftrightarrow> s \<in> set e"

text \<open>\<open>fmt.Errorf("text: %w", err)\<close> keeps the wrap tree; \<open>"%w: %w"\<close> puts a sentinel in front.\<close>

definition wrap_with :: "sentinel \<Rightarrow> err \<Rightarrow> err" where
  "wrap_with s e = s # e"

lemma errors_is_simps [simp]:
  "errors_is [] s \<longleftrightarrow> False"
  "errors_is (x # e) s \<longleftrightarrow> x = s \<or> errors_is e s"
  "errors_is (wrap_with x e) s \<longleftrightarrow> x = s \<or> errors_is e s"
  by (auto simp: errors_is_def wrap_with_def)

type_synonym 'a result = "err + 'a"

subsection \<open>Contexts, instants, machine integers\<close>

text \<open>
  A \<open>context.Context\<close> is read by the components only through \<open>ctx.Err()\<close>, so at each call it
  is a flag: is it done?
\<close>

type_synonym ctx = bool

text \<open>
  \<open>time.Time\<close> is the number of nanoseconds since the zero \<open>Time\<close> (so \<open>IsZero\<close> is \<open>t = 0\<close>),
  \<open>time.Duration\<close> a number of nanoseconds.
\<close>

type_synonym time = int
type_synonym duration = int

text \<open>\<open>float64\<close> values are only carried, never computed with: their IEEE-754 bit pattern.\<close>

type_synonym float64 = "64 word"

definition int64_min :: int where "int64_min = - (2 ^ 63)"
definition int64_max :: int where "int64_max = 2 ^ 63 - 1"

definition wrap64 :: "int \<Rightarrow> int" where
  "wrap64 x = (x + 2 ^ 63) mod 2 ^ 64 - 2 ^ 63"

abbreviation is_int64 :: "int \<Rightarrow> bool" where
  "is_int64 x \<equiv> int64_min \<le> x \<and> x \<le> int64_max"

text \<open>\<open>Time.Sub\<close> saturates at the ends of the duration range.\<close>

definition time_Sub :: "time \<Rightarrow> time \<Rightarrow> duration" where
  "time_Sub t u = max int64_min (min int64_max (t - u))"

lemma wrap64_id [simp]: "is_int64 x \<Longrightarrow> wrap64 x = x"
  by (simp add: wrap64_def int64_min_def int64_max_def)

lemma wrap64_range: "is_int64 (wrap64 x)"
proof -
  have "0 \<le> (x + 2 ^ 63) mod 2 ^ 64" and "(x + 2 ^ 63) mod 2 ^ 64 < 2 ^ 64"
    by simp_all
  then show ?thesis by (simp add: wrap64_def int64_min_def int64_max_def)
qed

lemma wrap64_overflow:
  assumes "int64_max < x" and "x \<le> 2 * int64_max"
  shows "wrap64 x = x - 2 ^ 64"
proof -
  have "(x + 2 ^ 63) mod 2 ^ 64 = (x + 2 ^ 63 - 2 ^ 64) mod 2 ^ 64"
    by (rule minus_mod_self2 [symmetric])
  also have "\<dots> = x + 2 ^ 63 - 2 ^ 64"
    using assms by (intro mod_pos_pos_trivial) (simp_all add: int64_max_def)
  finally show ?thesis by (simp add: wrap64_def)
qed

subsection \<open>Bytes and their renderings\<close>

text \<open>
  A Go string is a sequence of bytes; Isabelle's \<^typ>\<open>char\<close> is a byte, so \<^typ>\<open>string\<close> is
  used for strings and byte slices alike.
\<close>

text \<open>The decimal rendering \<open>%d\<close> of a non-negative number.\<close>

fun dec :: "nat \<Rightarrow> string" where
  "dec n = (if n < 10 then [char_of (48 + n)] else dec (n div 10) @ [char_of (48 + n mod 10)])"

declare dec.simps [simp del]

definition is_digit :: "char \<Rightarrow> bool" where
  "is_digit c \<longleftrightarrow> (48::nat) \<le> of_char c \<and> of_char c \<le> (57::nat)"

definition undec :: "string \<Rightarrow> nat" where
  "undec cs = foldl (\<lambda>n c. 10 * n + (of_char c - 48)) 0 cs"

lemma of_char_of_byte [simp]: "n < 256 \<Longrightarrow> of_char (char_of n) = (n :: nat)"
  by (simp add: of_char_of)

lemma undec_snoc: "undec (cs @ [c]) = 10 * undec cs + (of_char c - 48)"
  by (simp add: undec_def)

lemma undec_dec [simp]: "undec (dec n) = n"
proof (induction n rule: dec.induct)
  case (1 n)
  show ?case
  proof (cases "n < 10")
    case True
    then show ?thesis by (simp add: dec.simps [of n] undec_def)
  next
    case False
    with "1.IH" show ?thesis by (simp add: dec.simps [of n] undec_snoc)
  qed
qed

lemma dec_inject [simp]: "dec m = dec n \<longleftrightarrow> m = n"
  by (metis undec_dec)

lemma dec_digits: "c \<in> set (dec n) \<Longrightarrow> is_digit c"
proof (induction n rule: dec.induct)
  case (1 n)
  then show ?case
    by (cases "n < 10") (auto simp: dec.simps [of n] is_digit_def)
qed

lemma dec_not_Nil [simp]: "dec n \<noteq> []"
  by (subst dec.simps) simp

text \<open>A decimal number is told from what follows it by the first byte that is no digit.\<close>

lemma digits_append_inject:
  assumes "\<And>c. c \<in> set ds \<Longrightarrow> is_digit c" and "\<And>c. c \<in> set es \<Longrightarrow> is_digit c"
    and "\<not> is_digit x" and "ds @ x # r = es @ x # r'"
  shows "ds = es \<and> r = r'"
  using assms
proof (induction ds arbitrary: es)
  case Nil
  then show ?case by (cases es) auto
next
  case (Cons d ds)
  then obtain e es' where "es = e # es'" by (cases es) auto
  with Cons show ?case by auto
qed

lemma dec_append_inject:
  assumes "\<not> is_digit x" and "dec m @ x # r = dec n @ x # r'"
  shows "m = n \<and> r = r'"
  using digits_append_inject [OF dec_digits dec_digits assms] by simp

text \<open>\<open>binary.BigEndian.PutUint64\<close>: the eight bytes of a \<open>uint64\<close>, most significant first.\<close>

fun be_bytes :: "nat \<Rightarrow> nat \<Rightarrow> string" where
  "be_bytes 0 n = []"
| "be_bytes (Suc k) n = be_bytes k (n div 256) @ [char_of (n mod 256)]"

definition be64 :: "nat \<Rightarrow> string" where
  "be64 n = be_bytes 8 n"

lemma length_be_bytes [simp]: "length (be_bytes k n) = k"
  by (induction k arbitrary: n) auto

lemma length_be64 [simp]: "length (be64 n) = 8"
  by (simp add: be64_def)

lemma be_bytes_inject:
  "m < 256 ^ k \<Longrightarrow> n < 256 ^ k \<Longrightarrow> be_bytes k m = be_bytes k n \<Longrightarrow> m = n"
proof (induction k arbitrary: m n)
  case 0
  then show ?case by simp
next
  case (Suc k)
  from Suc.prems(3) have "be_bytes k (m div 256) = be_bytes k (n div 256)"
    and "(char_of (m mod 256) :: char) = char_of (n mod 256)" by simp_all
  moreover have "m div 256 < 256 ^ k" and "n div 256 < 256 ^ k"
    using Suc.prems(1,2) by (auto simp: less_mult_imp_div_less mult.commute)
  ultimately have "m div 256 = n div 256" and "m mod 256 = n mod 256"
    using Suc.IH by (blast, metis mod_less_divisor of_char_of_byte zero_less_numeral)
  then show ?case by (metis div_mult_mod_eq)
qed

lemma be64_inject: "m < 2 ^ 64 \<Longrightarrow> n < 2 ^ 64 \<Longrightarrow> be64 m = be64 n \<Longrightarrow> m = n"
  using be_bytes_inject [of m 8 n] by (simp add: be64_def)

text \<open>
  A length-prefixed field, as the key derivation and the handle derivation write it. Go bounds
  the length of a string by the address space, hence the hypothesis \<open>length s < 2 ^ 64\<close>.
\<close>

definition lp_field :: "string \<Rightarrow> string" where
  "lp_field s = be64 (length s) @ s"

lemma lp_field_append_inject:
  assumes "length s < 2 ^ 64" and "length s' < 2 ^ 64"
    and "lp_field s @ r = lp_field s' @ r'"
  shows "s = s' \<and> r = r'"
proof -
  from assms(3) have "be64 (length s) = be64 (length s')" and "s @ r = s' @ r'"
    by (simp_all add: lp_field_def)
  moreover from this(1) have "length s = length s'"
    using assms(1,2) by (rule be64_inject [rotated 2])
  ultimately show ?thesis by simp
qed

text \<open>\<open>hex.EncodeToString\<close>.\<close>

definition hex_digit :: "nat \<Rightarrow> char" where
  "hex_digit n = (if n < 10 then char_of (48 + n) else char_of (87 + n))"

definition hex_byte :: "char \<Rightarrow> string" where
  "hex_byte c = [hex_digit (of_char c div 16), hex_digit (of_char c mod 16)]"

definition hex_encode :: "string \<Rightarrow> string" where
  "hex_encode bs = concat (map hex_byte bs)"

lemma hex_digit_inject: "m < 16 \<Longrightarrow> n < 16 \<Longrightarrow> hex_digit m = hex_digit n \<longleftrightarrow> m = n"
  by (auto simp: hex_digit_def dest: arg_cong [where f = "of_char :: char \<Rightarrow> nat"]
      split: if_splits)

lemma hex_byte_inject: "hex_byte c = hex_byte d \<longleftrightarrow> c = d"
proof
  assume eq: "hex_byte c = hex_byte d"
  have lt: "of_char c div 16 < (16::nat)" "of_char d div 16 < (16::nat)" for c d :: char
    using nat_of_char_less_256 [of c] nat_of_char_less_256 [of d]
    by (simp_all add: less_mult_imp_div_less)
  from eq lt have "of_char c div 16 = (of_char d div 16 :: nat)"
      and "of_char c mod 16 = (of_char d mod 16 :: nat)"
    by (auto simp: hex_byte_def hex_digit_inject)
  then have "of_char c = (of_char d :: nat)"
    by (metis div_mult_mod_eq)
  then show "c = d" by simp
qed simp

lemma length_hex_encode [simp]: "length (hex_encode bs) = 2 * length bs"
  by (induction bs) (auto simp: hex_encode_def hex_byte_def)

lemma hex_encode_inject [simp]: "hex_encode xs = hex_encode ys \<longleftrightarrow> xs = ys"
proof (induction xs arbitrary: ys)
  case Nil
  then show ?case by (cases ys) (auto simp: hex_encode_def hex_byte_def)
next
  case (Cons x xs)
  then show ?case
  proof (cases ys)
    case Nil
    then show ?thesis by (simp add: hex_encode_def hex_byte_def)
  next
    case (Cons y ys')
    have "hex_encode (x # xs) = hex_encode ys \<longleftrightarrow>
        hex_byte x = hex_byte y \<and> hex_encode xs = hex_encode ys'"
      by (simp add: Cons hex_encode_def hex_byte_def)
    then show ?thesis using Cons Cons.IH by (simp add: hex_byte_inject)
  qed
qed

end
