(* ===== verification/Admission.thy ===== *)
theory Admission
  imports Ctl_Prelude
begin

text \<open>
  The admission matrix of \<open>internal/admission/admission.go\<close>: which declared workload profile may run
  on which runtime tier (\<open>internal/runtime/provider.go\<close>). Both enums are Go \<open>uint8\<close> types, so every
  byte is a possible value and the decision is a function on all of them.
\<close>

subsection \<open>Tiers, profiles, reasons\<close>

type_synonym RuntimeTier = "8 word"

definition TierRunc :: RuntimeTier where "TierRunc = 0"
definition TierGvisor :: RuntimeTier where "TierGvisor = 1"
definition TierFirecracker :: RuntimeTier where "TierFirecracker = 2"

type_synonym WorkloadProfile = "8 word"

definition ProfileTrustedOperator :: WorkloadProfile where "ProfileTrustedOperator = 0"
definition ProfileInternalWorkforce :: WorkloadProfile where "ProfileInternalWorkforce = 1"
definition ProfileUntrusted :: WorkloadProfile where "ProfileUntrusted = 2"

lemmas tier_profile_defs = TierRunc_def TierGvisor_def TierFirecracker_def
  ProfileTrustedOperator_def ProfileInternalWorkforce_def ProfileUntrusted_def

definition WorkloadProfile_String :: "WorkloadProfile \<Rightarrow> string" where
  "WorkloadProfile_String p =
     (if p = ProfileTrustedOperator then ''trusted_operator''
      else if p = ProfileInternalWorkforce then ''internal_workforce''
      else if p = ProfileUntrusted then ''untrusted''
      else ''workload_profile_unknown'')"

datatype RejectReason =
  ReasonNone | ReasonPairingRejected | ReasonMicroVMNotShipped | ReasonUnknownCell

fun RejectReason_String :: "RejectReason \<Rightarrow> string" where
  "RejectReason_String ReasonNone = ''admitted''"
| "RejectReason_String ReasonPairingRejected = ''profile may not run on this tier''"
| "RejectReason_String ReasonMicroVMNotShipped = ''microVM tier not in v1 GA''"
| "RejectReason_String ReasonUnknownCell = ''unknown profile or tier (fail-closed)''"

record Decision =
  Admitted :: bool
  RejReason :: RejectReason

subsection \<open>The matrix and the decision\<close>

definition numProfiles :: "8 word" where "numProfiles = 3"
definition numTiers :: "8 word" where "numTiers = 3"

record cell =
  admitted :: bool
  reason :: RejectReason

definition matrix :: "cell list list" where
  "matrix =
    [[\<lparr>admitted = True, reason = ReasonNone\<rparr>,
      \<lparr>admitted = True, reason = ReasonNone\<rparr>,
      \<lparr>admitted = False, reason = ReasonMicroVMNotShipped\<rparr>],
     [\<lparr>admitted = False, reason = ReasonPairingRejected\<rparr>,
      \<lparr>admitted = True, reason = ReasonNone\<rparr>,
      \<lparr>admitted = False, reason = ReasonMicroVMNotShipped\<rparr>],
     [\<lparr>admitted = False, reason = ReasonPairingRejected\<rparr>,
      \<lparr>admitted = False, reason = ReasonPairingRejected\<rparr>,
      \<lparr>admitted = False, reason = ReasonMicroVMNotShipped\<rparr>]]"

definition Decide :: "WorkloadProfile \<Rightarrow> RuntimeTier \<Rightarrow> Decision" where
  "Decide profile tier =
     (if numProfiles \<le> profile \<or> numTiers \<le> tier
      then \<lparr>Admitted = False, RejReason = ReasonUnknownCell\<rparr>
      else let c = matrix ! unat profile ! unat tier
           in \<lparr>Admitted = admitted c, RejReason = reason c\<rparr>)"

text \<open>The value of the typed \<open>RejectedError\<close>: its reason, and the sentinel it unwraps to.\<close>

definition RejectedError :: "RejectReason \<Rightarrow> err" where
  "RejectedError r = [Dynamic (RejectReason_String r), ErrAdmissionRejected]"

subsection \<open>What the matrix decides\<close>

lemma word8_below_3:
  fixes x :: "8 word"
  shows "x < 3 \<longleftrightarrow> x = 0 \<or> x = 1 \<or> x = 2"
proof
  assume "x < 3"
  then have "unat x < 3" by (simp add: word_less_nat_alt)
  then have "unat x = 0 \<or> unat x = 1 \<or> unat x = 2" by auto
  then show "x = 0 \<or> x = 1 \<or> x = 2" by (simp add: word_unat_eq_iff)
qed (elim disjE; simp)

text \<open>The indices of the table are in range whenever it is read.\<close>

lemma matrix_in_range:
  assumes "\<not> (numProfiles \<le> p \<or> numTiers \<le> t)"
  shows "unat p < length matrix \<and> unat t < length (matrix ! unat p)"
  using assms
  by (simp add: not_le word8_below_3 numProfiles_def numTiers_def matrix_def) (elim conjE disjE; simp)

lemma word8_above_2:
  fixes x :: "8 word"
  shows "2 < x \<longleftrightarrow> \<not> x < 3"
  by (auto simp: word_less_nat_alt)

lemma Decide_out_of_grid:
  "\<not> (p < 3 \<and> t < 3) \<Longrightarrow> Decide p t = \<lparr>Admitted = False, RejReason = ReasonUnknownCell\<rparr>"
  by (auto simp: Decide_def numProfiles_def numTiers_def)

lemma Decide_in_grid:
  "Decide 0 0 = \<lparr>Admitted = True, RejReason = ReasonNone\<rparr>"
  "Decide 0 1 = \<lparr>Admitted = True, RejReason = ReasonNone\<rparr>"
  "Decide 1 0 = \<lparr>Admitted = False, RejReason = ReasonPairingRejected\<rparr>"
  "Decide 1 1 = \<lparr>Admitted = True, RejReason = ReasonNone\<rparr>"
  "Decide 2 0 = \<lparr>Admitted = False, RejReason = ReasonPairingRejected\<rparr>"
  "Decide 2 1 = \<lparr>Admitted = False, RejReason = ReasonPairingRejected\<rparr>"
  "Decide 0 2 = \<lparr>Admitted = False, RejReason = ReasonMicroVMNotShipped\<rparr>"
  "Decide 1 2 = \<lparr>Admitted = False, RejReason = ReasonMicroVMNotShipped\<rparr>"
  "Decide 2 2 = \<lparr>Admitted = False, RejReason = ReasonMicroVMNotShipped\<rparr>"
  by (simp_all add: Decide_def numProfiles_def numTiers_def matrix_def word_le_nat_alt)

lemma grid_cases:
  fixes p t :: "8 word"
  obtains "p = 0 \<and> t = 0" | "p = 0 \<and> t = 1" | "p = 0 \<and> t = 2"
    | "p = 1 \<and> t = 0" | "p = 1 \<and> t = 1" | "p = 1 \<and> t = 2"
    | "p = 2 \<and> t = 0" | "p = 2 \<and> t = 1" | "p = 2 \<and> t = 2"
    | "\<not> (p < 3 \<and> t < 3)" "2 < p \<or> 2 < t"
proof (cases "p < 3 \<and> t < 3")
  case True
  then have "(p = 0 \<or> p = 1 \<or> p = 2) \<and> (t = 0 \<or> t = 1 \<or> t = 2)" by (simp add: word8_below_3)
  then show ?thesis using that by blast
next
  case False
  then have "2 < p \<or> 2 < t" unfolding word8_above_2 by blast
  with False show ?thesis using that by blast
qed

text \<open>
  C34: The table is the rule it is meant to encode, for every byte value of both enums: a pairing is
  admitted exactly when the tier is shipped and at least as strong as the profile's rank demands;
  outside the grid it is refused as unknown, on the microVM tier as not shipped, and otherwise as a
  pairing violation. So three pairings out of 65536 are admitted.
\<close>

theorem decide_rule:
  "Decide p t =
     (if ProfileUntrusted < p \<or> TierFirecracker < t then \<lparr>Admitted = False, RejReason = ReasonUnknownCell\<rparr>
      else if t = TierFirecracker then \<lparr>Admitted = False, RejReason = ReasonMicroVMNotShipped\<rparr>
      else if p \<le> t then \<lparr>Admitted = True, RejReason = ReasonNone\<rparr>
      else \<lparr>Admitted = False, RejReason = ReasonPairingRejected\<rparr>)
   \<and> (Admitted (Decide p t) \<longleftrightarrow>
       (p, t) \<in> {(ProfileTrustedOperator, TierRunc), (ProfileTrustedOperator, TierGvisor),
         (ProfileInternalWorkforce, TierGvisor)})"
proof (cases rule: grid_cases [of p t])
  case 10
  have "(p, t) \<notin> {(0, 0), (0, 1), (1, 1)}"
  proof
    assume "(p, t) \<in> {(0, 0), (0, 1), (1, 1)}"
    then have "p < 3 \<and> t < 3" unfolding word8_below_3 by blast
    with 10 show False by blast
  qed
  moreover have "Decide p t = \<lparr>Admitted = False, RejReason = ReasonUnknownCell\<rparr>"
    by (rule Decide_out_of_grid) (rule 10)
  ultimately show ?thesis using 10(2) by (simp only: tier_profile_defs if_True Decision.simps simp_thms)
qed (simp_all add: Decide_in_grid tier_profile_defs word_le_nat_alt)

end
