(* ===== verification/Store.thy ===== *)
theory Store
  imports Ctl_Prelude
begin

text \<open>
  The persistence seam of \<open>internal/state/store.go\<close>: its data types, the \<open>Store\<close> interface as a
  record of operations over an arbitrary representation \<open>'s\<close>, and the contract the documentation
  of the interface states, as two locales. \<open>store_contract\<close> says what an operation that succeeds
  has checked and changed, and that one that fails has changed nothing; \<open>responsive_store\<close> adds
  when the operations of the rollback paths succeed. The layers above are written against the
  record and proved inside the locales; \<open>MemStore\<close> is the in-memory implementation.
\<close>

subsection \<open>Rows, identities, deny entries, quota cells\<close>

datatype SessionState = StateReserved | StateActive | StateReleased

record Identity =
  Tenant :: string
  Caller :: string

datatype DenyScope = ScopeGlobal | ScopeSession

record DenyEntry =
  Scope :: DenyScope
  DenyKey :: string
  Reason :: string
  Since :: time

record SessionRow =
  Key :: string
  Owner :: Identity
  State :: SessionState
  ContainerName :: string
  SockDirRoot :: string

record Caps =
  CPUCores :: float64
  MemoryBytes :: int
  PidsLimit :: "int option"

record EnrichedSessionRow =
  Row :: SessionRow
  ReservedAt :: time
  ActiveAt :: "time option"
  RowCaps :: "Caps option"
  LastActivity :: "time option"

datatype QuotaDim =
    DimConcurrentSessions | DimMCPCallsPerMin | DimStorageGB | DimEgressBytesPerDay
  | DimCallerCreateRate

record QuotaKey =
  Dim :: QuotaDim
  Billed :: Identity
  Window :: string

text \<open>A row is live until it is the RELEASED tombstone.\<close>

definition is_live :: "SessionRow \<Rightarrow> bool" where
  "is_live r \<longleftrightarrow> State r = StateReserved \<or> State r = StateActive"

lemma is_live_iff: "is_live r \<longleftrightarrow> State r \<noteq> StateReleased"
  by (cases "State r") (simp_all add: is_live_def)

abbreviation reserved_row :: "string \<Rightarrow> Identity \<Rightarrow> SessionRow" where
  "reserved_row k ow \<equiv>
     \<lparr>Key = k, Owner = ow, State = StateReserved, ContainerName = '''', SockDirRoot = ''''\<rparr>"

subsection \<open>The interface\<close>

text \<open>
  One field per method. Every method takes the context first; a method that stamps a row takes the
  reading of the injected clock. A method that enumerates a Go map takes the order in which the
  runtime happens to visit the keys. The optional capabilities a caller reaches by a type
  assertion are \<^typ>\<open>'a option\<close> fields.
\<close>

record 's Store =
  Reserve :: "time \<Rightarrow> ctx \<Rightarrow> string \<Rightarrow> Identity \<Rightarrow> 's \<Rightarrow> SessionRow result \<times> 's"
  Commit :: "ctx \<Rightarrow> string \<Rightarrow> Identity \<Rightarrow> 's \<Rightarrow> SessionRow result \<times> 's"
  BindContainerName ::
    "ctx \<Rightarrow> string \<Rightarrow> Identity \<Rightarrow> string \<Rightarrow> string \<Rightarrow> 's \<Rightarrow> SessionRow result \<times> 's"
  Release :: "ctx \<Rightarrow> string \<Rightarrow> Identity \<Rightarrow> 's \<Rightarrow> SessionRow result \<times> 's"
  LookupSession :: "ctx \<Rightarrow> string \<Rightarrow> 's \<Rightarrow> SessionRow result"
  SetDeny :: "ctx \<Rightarrow> DenyEntry \<Rightarrow> 's \<Rightarrow> err option \<times> 's"
  ClearDeny :: "ctx \<Rightarrow> DenyScope \<Rightarrow> string \<Rightarrow> 's \<Rightarrow> err option \<times> 's"
  LoadDeny :: "string list \<Rightarrow> ctx \<Rightarrow> 's \<Rightarrow> DenyEntry list result"
  Charge :: "ctx \<Rightarrow> QuotaKey \<Rightarrow> int \<Rightarrow> int \<Rightarrow> 's \<Rightarrow> int result \<times> 's"
  ReadQuota :: "ctx \<Rightarrow> QuotaKey \<Rightarrow> 's \<Rightarrow> int result"
  LiveLister :: "(string list \<Rightarrow> ctx \<Rightarrow> 's \<Rightarrow> SessionRow list result) option"
  EnrichedLister :: "(string list \<Rightarrow> ctx \<Rightarrow> 's \<Rightarrow> EnrichedSessionRow list result) option"
  ActivationRecorder :: "(ctx \<Rightarrow> string \<Rightarrow> Caps \<Rightarrow> time \<Rightarrow> 's \<Rightarrow> err option \<times> 's) option"
  ActivityToucher :: "(ctx \<Rightarrow> string \<Rightarrow> time \<Rightarrow> 's \<Rightarrow> err option \<times> 's) option"

subsection \<open>The contract\<close>

text \<open>
  The observations of a store: the row at a key, the value of a counter cell, the deny posture.
  Two quota keys address the same counter exactly when \<open>cell_id\<close> agrees on them. The laws are
  those the interface documents.
\<close>

definition cell_upd :: "(QuotaKey \<Rightarrow> 'c) \<Rightarrow> QuotaKey \<Rightarrow> int \<Rightarrow> (QuotaKey \<Rightarrow> int) \<Rightarrow> QuotaKey \<Rightarrow> int" where
  "cell_upd cid q v f = (\<lambda>p. if cid p = cid q then v else f p)"

lemma cell_upd_simps [simp]:
  "cell_upd cid q v f q = v"
  "cid p = cid q \<Longrightarrow> cell_upd cid q v f p = v"
  "cid p \<noteq> cid q \<Longrightarrow> cell_upd cid q v f p = f p"
  "cell_upd cid q v (cell_upd cid q u f) = cell_upd cid q v f"
  by (auto simp: cell_upd_def)

lemma cell_upd_id:
  assumes "\<And>p. cid p = cid q \<Longrightarrow> f p = f q"
  shows "cell_upd cid q (f q) f = f"
proof
  fix p
  show "cell_upd cid q (f q) f p = f p" by (cases "cid p = cid q") (simp_all add: assms [of p])
qed

lemma cell_upd_swap:
  "cid p \<noteq> cid q \<Longrightarrow> cell_upd cid p u (cell_upd cid q v f) = cell_upd cid q v (cell_upd cid p u f)"
  by (auto simp: cell_upd_def)

locale store_contract =
  fixes S :: "'s Store"
    and inv :: "'s \<Rightarrow> bool"
    and row :: "'s \<Rightarrow> string \<Rightarrow> SessionRow option"
    and cell :: "'s \<Rightarrow> QuotaKey \<Rightarrow> int"
    and cell_id :: "QuotaKey \<Rightarrow> 'c"
    and killed :: "'s \<Rightarrow> bool"
    and denied :: "'s \<Rightarrow> string \<Rightarrow> bool"
  assumes row_key: "inv s \<Longrightarrow> row s k = Some r \<Longrightarrow> Key r = k"
    and row_finite: "inv s \<Longrightarrow> finite (dom (row s))"
    and name_unique: "inv s \<Longrightarrow> row s k = Some r \<Longrightarrow> row s k' = Some r' \<Longrightarrow>
          ContainerName r = ContainerName r' \<Longrightarrow> ContainerName r \<noteq> '''' \<Longrightarrow> k = k'"
    and cell_int64: "inv s \<Longrightarrow> is_int64 (cell s q)"
    and cell_cong: "cell_id q = cell_id q' \<Longrightarrow> cell s q = cell s q'"
    and reserve_err: "inv s \<Longrightarrow> Reserve S t c k ow s = (Inl e, s') \<Longrightarrow> s' = s"
    and reserve_ok: "inv s \<Longrightarrow> Reserve S t c k ow s = (Inr r, s') \<Longrightarrow>
          inv s' \<and> \<not> killed s \<and> \<not> denied s k \<and> (\<forall>r0. row s k = Some r0 \<longrightarrow> \<not> is_live r0) \<and>
          r = reserved_row k ow \<and> row s' = (row s)(k \<mapsto> r) \<and> cell s' = cell s \<and>
          killed s' = killed s \<and> denied s' = denied s"
    and commit_err: "inv s \<Longrightarrow> Commit S c k ow s = (Inl e, s') \<Longrightarrow> s' = s"
    and commit_ok: "inv s \<Longrightarrow> Commit S c k ow s = (Inr r, s') \<Longrightarrow>
          inv s' \<and> (\<exists>r0. row s k = Some r0 \<and> Owner r0 = ow \<and> State r0 = StateReserved \<and>
            r = r0\<lparr>State := StateActive\<rparr>) \<and>
          row s' = (row s)(k \<mapsto> r) \<and> cell s' = cell s \<and> killed s' = killed s \<and> denied s' = denied s"
    and bind_err: "inv s \<Longrightarrow> BindContainerName S c k ow n sd s = (Inl e, s') \<Longrightarrow> s' = s"
    and bind_ok: "inv s \<Longrightarrow> BindContainerName S c k ow n sd s = (Inr r, s') \<Longrightarrow>
          inv s' \<and> (\<exists>r0. row s k = Some r0 \<and> Owner r0 = ow \<and> is_live r0 \<and> ContainerName r0 = '''' \<and>
            r = r0\<lparr>ContainerName := n, SockDirRoot := sd\<rparr>) \<and>
          row s' = (row s)(k \<mapsto> r) \<and> cell s' = cell s \<and> killed s' = killed s \<and> denied s' = denied s"
    and release_err: "inv s \<Longrightarrow> Release S c k ow s = (Inl e, s') \<Longrightarrow> s' = s"
    and release_ok: "inv s \<Longrightarrow> Release S c k ow s = (Inr r, s') \<Longrightarrow>
          inv s' \<and> (\<exists>r0. row s k = Some r0 \<and> Owner r0 = ow \<and> r = r0\<lparr>State := StateReleased\<rparr>) \<and>
          row s' = (row s)(k \<mapsto> r) \<and> cell s' = cell s \<and> killed s' = killed s \<and> denied s' = denied s"
    and lookup_ok: "inv s \<Longrightarrow> LookupSession S c k s = Inr r \<Longrightarrow> row s k = Some r"
    and lookup_not_found: "inv s \<Longrightarrow> LookupSession S c k s = Inl e \<Longrightarrow>
          errors_is e ErrReservationNotFound \<Longrightarrow> row s k = None"
    and lookup_other: "inv s \<Longrightarrow> LookupSession S c k s = Inl e \<Longrightarrow>
          \<not> errors_is e ErrReservationNotFound \<Longrightarrow> errors_is e ErrStoreUnavailable"
    and charge_err: "inv s \<Longrightarrow> Charge S c q d l s = (Inl e, s') \<Longrightarrow> s' = s"
    and charge_ok: "inv s \<Longrightarrow> is_int64 d \<Longrightarrow> Charge S c q d l s = (Inr v, s') \<Longrightarrow>
          inv s' \<and> v = (if d < 0 then max 0 (wrap64 (cell s q + d)) else wrap64 (cell s q + d)) \<and>
          (0 \<le> d \<longrightarrow> v \<le> l) \<and>
          cell s' = cell_upd cell_id q v (cell s) \<and>
          row s' = row s \<and> killed s' = killed s \<and> denied s' = denied s"
    and read_ok: "inv s \<Longrightarrow> ReadQuota S c q s = Inr v \<Longrightarrow> v = cell s q"
    and set_deny_err: "inv s \<Longrightarrow> SetDeny S c en s = (Some e, s') \<Longrightarrow> s' = s"
    and set_deny_ok: "inv s \<Longrightarrow> SetDeny S c en s = (None, s') \<Longrightarrow>
          inv s' \<and> row s' = row s \<and> cell s' = cell s \<and>
          killed s' = (killed s \<or> Scope en = ScopeGlobal) \<and>
          denied s' = (\<lambda>k. denied s k \<or> Scope en = ScopeSession \<and> DenyKey en = k)"
    and clear_deny_err: "inv s \<Longrightarrow> ClearDeny S c sc k s = (Some e, s') \<Longrightarrow> s' = s"
    and clear_deny_ok: "inv s \<Longrightarrow> ClearDeny S c sc k s = (None, s') \<Longrightarrow>
          inv s' \<and> row s' = row s \<and> cell s' = cell s \<and>
          killed s' = (killed s \<and> sc \<noteq> ScopeGlobal) \<and>
          denied s' = (\<lambda>k'. denied s k' \<and> \<not> (sc = ScopeSession \<and> k' = k))"
    and live_sound: "inv s \<Longrightarrow> LiveLister S = Some ls \<Longrightarrow> ls ord c s = Inr rs \<Longrightarrow>
          r \<in> set rs \<Longrightarrow> row s (Key r) = Some r \<and> is_live r"
    and live_complete: "inv s \<Longrightarrow> LiveLister S = Some ls \<Longrightarrow> ls ord c s = Inr rs \<Longrightarrow>
          dom (row s) \<subseteq> set ord \<Longrightarrow> row s k = Some r \<Longrightarrow> is_live r \<Longrightarrow> r \<in> set rs"
    and live_distinct: "inv s \<Longrightarrow> LiveLister S = Some ls \<Longrightarrow> ls ord c s = Inr rs \<Longrightarrow>
          distinct ord \<Longrightarrow> distinct (map Key rs)"
    and enriched_sound: "inv s \<Longrightarrow> EnrichedLister S = Some es \<Longrightarrow> es ord c s = Inr ers \<Longrightarrow>
          er \<in> set ers \<Longrightarrow> row s (Key (Row er)) = Some (Row er) \<and> is_live (Row er)"
    and enriched_complete: "inv s \<Longrightarrow> EnrichedLister S = Some es \<Longrightarrow> es ord c s = Inr ers \<Longrightarrow>
          dom (row s) \<subseteq> set ord \<Longrightarrow> row s k = Some r \<Longrightarrow> is_live r \<Longrightarrow> r \<in> Row ` set ers"
    and enriched_distinct: "inv s \<Longrightarrow> EnrichedLister S = Some es \<Longrightarrow> es ord c s = Inr ers \<Longrightarrow>
          distinct ord \<Longrightarrow> distinct (map (\<lambda>er. Key (Row er)) ers)"
    and record_ok: "inv s \<Longrightarrow> ActivationRecorder S = Some ar \<Longrightarrow> ar c k cp t s = (x, s') \<Longrightarrow>
          inv s' \<and> row s' = row s \<and> cell s' = cell s \<and> killed s' = killed s \<and> denied s' = denied s"
    and touch_ok: "inv s \<Longrightarrow> ActivityToucher S = Some at \<Longrightarrow> at c k t s = (x, s') \<Longrightarrow>
          inv s' \<and> row s' = row s \<and> cell s' = cell s \<and> killed s' = killed s \<and> denied s' = denied s"
    and cell_scope: "cell_id q = cell_id q' \<Longrightarrow> Dim q = Dim q' \<and> Window q = Window q'"

text \<open>
  A store that answers: with a context that is not done, the operations of the unwind and of the
  teardown succeed, a negative charge is never refused, and the live rows can be listed.
\<close>

locale responsive_store = store_contract +
  assumes release_succeeds: "inv s \<Longrightarrow> \<not> c \<Longrightarrow> row s k = Some r \<Longrightarrow> Owner r = ow \<Longrightarrow>
        \<exists>r' s'. Release S c k ow s = (Inr r', s')"
    and refund_succeeds: "inv s \<Longrightarrow> \<not> c \<Longrightarrow> d < 0 \<Longrightarrow> \<exists>v s'. Charge S c q d l s = (Inr v, s')"
    and charge_succeeds: "inv s \<Longrightarrow> \<not> c \<Longrightarrow> 0 \<le> d \<Longrightarrow> is_int64 (cell s q + d) \<Longrightarrow>
        cell s q + d \<le> l \<Longrightarrow> \<exists>v s'. Charge S c q d l s = (Inr v, s')"
    and charge_refuses: "inv s \<Longrightarrow> 0 \<le> d \<Longrightarrow> is_int64 (cell s q + d) \<Longrightarrow> l < cell s q + d \<Longrightarrow>
        \<exists>e. Charge S c q d l s = (Inl e, s)"
    and reserve_succeeds: "inv s \<Longrightarrow> \<not> c \<Longrightarrow> \<not> killed s \<Longrightarrow> \<not> denied s k \<Longrightarrow>
        (\<forall>r. row s k = Some r \<longrightarrow> \<not> is_live r) \<Longrightarrow> \<exists>r s'. Reserve S t c k ow s = (Inr r, s')"
    and read_succeeds: "\<not> c \<Longrightarrow> \<exists>v. ReadQuota S c q s = Inr v"
    and lookup_succeeds: "inv s \<Longrightarrow> \<not> c \<Longrightarrow> row s k = Some r \<Longrightarrow> LookupSession S c k s = Inr r"
    and lookup_missing: "inv s \<Longrightarrow> \<not> c \<Longrightarrow> row s k = None \<Longrightarrow>
        \<exists>e. LookupSession S c k s = Inl e \<and> errors_is e ErrReservationNotFound"
    and set_deny_succeeds: "\<not> c \<Longrightarrow> \<exists>s'. SetDeny S c en s = (None, s')"
    and lists_live: "\<exists>ls. LiveLister S = Some ls \<and> (\<forall>ord s. \<exists>rs. ls ord False s = Inr rs)"

end
