(* ===== verification/Ctl_World.thy ===== *)
theory Ctl_World
  imports Store
begin

text \<open>
  The world the services of the daemon act on, for the layers above the store. A run is a sequence
  of calls: every call of the store reads a context at the number of the step it is, and every
  call of an outside component takes the answer the environment gives at that step and is
  recorded, with its answer, in the log. The environment is a function of the step number and
  otherwise arbitrary, so a statement for all environments holds for every behaviour of the
  contexts, of the clock and of the components that are not part of the model.
\<close>

record ('s, 'e) world =
  store :: 's
  step :: nat
  log :: "'e list"

text \<open>
  \<open>e_ctx\<close> is the request context, \<open>e_bg\<close> the context detached from its cancellation and bounded by
  a timeout (\<open>context.WithoutCancel\<close> with \<open>context.WithTimeout\<close>), \<open>e_now\<close> the injected clock.
\<close>

record clockctx =
  e_ctx :: "nat \<Rightarrow> ctx"
  e_bg :: "nat \<Rightarrow> ctx"
  e_now :: "nat \<Rightarrow> time"

definition st_call :: "(nat \<Rightarrow> ctx) \<Rightarrow> (ctx \<Rightarrow> 's \<Rightarrow> 'a \<times> 's) \<Rightarrow> ('s, 'e) world \<Rightarrow> 'a \<times> ('s, 'e) world" where
  "st_call cx f w =
     (case f (cx (step w)) (store w) of (x, s') \<Rightarrow> (x, w\<lparr>store := s', step := Suc (step w)\<rparr>))"

definition st_read :: "(nat \<Rightarrow> ctx) \<Rightarrow> (ctx \<Rightarrow> 's \<Rightarrow> 'a) \<Rightarrow> ('s, 'e) world \<Rightarrow> 'a \<times> ('s, 'e) world" where
  "st_read cx f w = (f (cx (step w)) (store w), w\<lparr>step := Suc (step w)\<rparr>)"

definition ext_call :: "(nat \<Rightarrow> 'a) \<Rightarrow> ('a \<Rightarrow> 'e) \<Rightarrow> ('s, 'e) world \<Rightarrow> 'a \<times> ('s, 'e) world" where
  "ext_call answer event w =
     (answer (step w), w\<lparr>step := Suc (step w), log := log w @ [event (answer (step w))]\<rparr>)"

lemma st_call_eq:
  "st_call cx f w = (x, w') \<longleftrightarrow>
     (\<exists>s'. f (cx (step w)) (store w) = (x, s') \<and> w' = w\<lparr>store := s', step := Suc (step w)\<rparr>)"
  by (auto simp: st_call_def split: prod.splits)

lemma st_read_eq:
  "st_read cx f w = (x, w') \<longleftrightarrow> x = f (cx (step w)) (store w) \<and> w' = w\<lparr>step := Suc (step w)\<rparr>"
  by (auto simp: st_read_def)

lemma ext_call_eq:
  "ext_call answer event w = (x, w') \<longleftrightarrow>
     x = answer (step w) \<and> w' = w\<lparr>step := Suc (step w), log := log w @ [event x]\<rparr>"
  by (auto simp: ext_call_def)

lemmas world_eqs = st_call_eq st_read_eq ext_call_eq

end
