(* ===== verification/Control_Types.thy ===== *)
theory Control_Types
  imports Admission Ctl_World "HOL-Library.Sublist"
begin

text \<open>
  The types the kill-switch and the lifecycle share: audit records (\<open>internal/audit/audit.go\<close>),
  the sealed scopes and the callers of the ingress (\<open>internal/ingress/scope.go\<close>), the neutral types
  of the runtime seam (\<open>internal/runtime/provider.go\<close>), and the handoff, warm-pool and credential
  values the create pipeline carries. The last section is the environment: the answers of the
  outside components, and the events their calls leave in the log.
\<close>

subsection \<open>Audit records\<close>

datatype Action =
    ActionCreateCommit | ActionDestroy | ActionRevokeOne | ActionRevokeAll | ActionEditDenylist
  | ActionOverrideQuota | ActionRetentionPolicy | ActionResumeGlobal | ActionMCPKeyCreate
  | ActionMCPKeyRevoke | ActionExec | ActionCreateResume | ActionReconcileReclaim
  | ActionCreateRejected

fun Action_String :: "Action \<Rightarrow> string" where
  "Action_String ActionCreateCommit = ''create_commit''"
| "Action_String ActionDestroy = ''destroy''"
| "Action_String ActionRevokeOne = ''revoke_one''"
| "Action_String ActionRevokeAll = ''revoke_all''"
| "Action_String ActionEditDenylist = ''edit_denylist''"
| "Action_String ActionOverrideQuota = ''override_quota''"
| "Action_String ActionRetentionPolicy = ''retention_policy''"
| "Action_String ActionResumeGlobal = ''resume_global''"
| "Action_String ActionMCPKeyCreate = ''mcp_key_create''"
| "Action_String ActionMCPKeyRevoke = ''mcp_key_revoke''"
| "Action_String ActionExec = ''exec''"
| "Action_String ActionCreateResume = ''create_resume''"
| "Action_String ActionReconcileReclaim = ''reconcile_reclaim''"
| "Action_String ActionCreateRejected = ''create_rejected''"

record Record =
  RcAction :: Action
  RcChannel :: string
  RcKey :: string
  RcCaller :: string
  RcTenant :: string
  RcReason :: string
  RcRevokeOutcome :: string
  RcWarmHit :: bool

subsection \<open>Channels, callers, scopes\<close>

datatype Channel = ChannelOperator | ChannelGateway

fun Channel_String :: "Channel \<Rightarrow> string" where
  "Channel_String ChannelOperator = ''operator''"
| "Channel_String ChannelGateway = ''gateway''"

record AuthenticatedCaller =
  AcIdentity :: Identity
  AcChannel :: Channel

text \<open>
  A witness is an unexported pointer; \<open>None\<close> is nil and the package holds one genuine address. A
  scope is valid when it carries that address.
\<close>

type_synonym witness_ptr = "nat option"

definition genuineOperatorWitness :: witness_ptr where "genuineOperatorWitness = Some 0"
definition genuineServiceWitness :: witness_ptr where "genuineServiceWitness = Some 1"

record OperatorScope =
  OpWitness :: witness_ptr
  OpIdentity :: Identity

definition OperatorScope_Valid :: "OperatorScope \<Rightarrow> bool" where
  "OperatorScope_Valid s \<longleftrightarrow> OpWitness s = genuineOperatorWitness"

record ServiceScope =
  SvWitness :: witness_ptr

definition ServiceScope_Valid :: "ServiceScope \<Rightarrow> bool" where
  "ServiceScope_Valid s \<longleftrightarrow> SvWitness s = genuineServiceWitness"

record OperatorSeam =
  SeamMint :: witness_ptr

definition NewOperatorSeam :: OperatorSeam where
  "NewOperatorSeam = \<lparr>SeamMint = genuineOperatorWitness\<rparr>"

definition OperatorSeam_Mint :: "OperatorSeam \<Rightarrow> Identity \<Rightarrow> OperatorScope" where
  "OperatorSeam_Mint s ident = \<lparr>OpWitness = SeamMint s, OpIdentity = ident\<rparr>"

definition ServiceScopeFor :: ServiceScope where
  "ServiceScopeFor = \<lparr>SvWitness = genuineServiceWitness\<rparr>"

text \<open>The record every operator action emits: the actor is the identity stamped on the scope.\<close>

definition operator_record :: "Action \<Rightarrow> OperatorScope \<Rightarrow> string \<Rightarrow> string \<Rightarrow> Record" where
  "operator_record a scope key why =
     \<lparr>RcAction = a, RcChannel = Channel_String ChannelOperator, RcKey = key,
      RcCaller = Caller (OpIdentity scope), RcTenant = Tenant (OpIdentity scope), RcReason = why,
      RcRevokeOutcome = '''', RcWarmHit = False\<rparr>"

subsection \<open>The runtime seam\<close>

record HandoffMaterial =
  ContainerInfoJSON :: string
  ContainerInfoHostPath :: string
  ContainerInfoGuestPath :: string
  PublicKeyEd25519 :: string
  PublicKeyHostPath :: string
  PublicKeyGuestPath :: string
  HostSockDir :: string
  MountConfigGuestPath :: string

record MountIntent =
  Destination :: string
  MtFilesystemID :: string
  MemoryStoreID :: string
  ReadOnly :: bool
  AuthToken :: string
  CacheSeconds :: int

record EgressPolicy =
  DefaultDeny :: bool
  AllowedUpstream :: string
  EgFilesystemID :: string

record SessionSpec =
  SchemaVersion :: string
  SpName :: string
  SpOwner :: Identity
  SpImage :: string
  SpMounts :: "MountIntent list"
  SpEgress :: EgressPolicy
  SpResources :: Caps
  SpHandoff :: HandoffMaterial

record EgressBinding =
  EbName :: string
  EbFilesystemID :: string

record Sandbox =
  SbName :: string
  RuntimeID :: string
  SbEgress :: EgressBinding
  SbTier :: RuntimeTier
  SbAlive :: bool
  SbSockDirRoot :: string

subsection \<open>Handoff, warm pool, credentials\<close>

record Staged =
  Material :: HandoffMaterial
  StRoot :: string

record Pushed =
  PuPath :: string
  PuGuestPath :: string

record Profile =
  PrImageRef :: string
  PrCPUCores :: float64
  PrMemoryBytes :: int
  PrPidsLimit :: int
  PrFUSE :: bool

text \<open>The opaque \<open>Handoff\<close> of a unit: \<open>None\<close> when it does not hold a \<open>handoff.Staged\<close>.\<close>

record Unit =
  PlaceholderID :: string
  UnProfile :: Profile
  UnHandoff :: "Staged option"

type_synonym Intent = string

definition IntentRead :: Intent where "IntentRead = ''read''"
definition IntentWrite :: Intent where "IntentWrite = ''write''"
definition IntentPreview :: Intent where "IntentPreview = ''preview''"

definition Intent_valid :: "Intent \<Rightarrow> bool" where
  "Intent_valid i \<longleftrightarrow> i = IntentRead \<or> i = IntentWrite \<or> i = IntentPreview"

record StorageMintReq =
  MqSessionKey :: string
  MqFilesystemID :: string
  MqWorkspace :: string
  MqOrg :: string
  MqScope :: string
  MqIntent :: Intent
  MqDownloadable :: bool

record ExecRequest =
  Argv :: "string list"
  ExEnv :: "(string \<times> string) list"
  Cwd :: string
  Stdin :: string
  TimeoutS :: "32 word"

record ExecResult =
  ExitCode :: "8 word"
  Stdout :: string
  Stderr :: string
  StdoutTruncated :: bool
  StderrTruncated :: bool

record LifecycleEvent =
  LeKey :: string
  LeState :: SessionState
  LeAt :: time

subsection \<open>The environment\<close>

datatype metric = IncCreate | IncDestroy | IncQuotaRefundFailed | ObserveStart duration

text \<open>One event per call of an outside component, with its answer where it has one.\<close>

datatype event =
    EvEmit Record "err option"
  | EvForceKill Sandbox "err option"
  | EvGracefulStop Sandbox int "err option"
  | EvMaterialize SessionSpec "Sandbox result"
  | EvSubstrate "Sandbox list result"
  | EvStage string "string option" "MountIntent list" "Staged result"
  | EvUnstage Staged "err option"
  | EvPoolGet Profile "Unit option"
  | EvPoolPut Unit
  | EvClaim Unit string "string option" EgressPolicy "(Sandbox \<times> HandoffMaterial) result"
  | EvDispose Unit "err option"
  | EvMint StorageMintReq "string result"
  | EvTicket string "err option"
  | EvRender "MountIntent list" "string list" "string result"
  | EvPush Staged string "Pushed result"
  | EvScrub Pushed "err option"
  | EvShutdown string string "err option"
  | EvExec string string ExecRequest "ExecResult result"
  | EvMetric metric
  | EvPublish LifecycleEvent

text \<open>
  The answers, by step number: audit sink, runtime provider, handoff stager, warm pool and claimer,
  signer, ticket recorder, mount-config renderer, pusher, control dialer, exec driver. \<open>e_order\<close> and
  \<open>e_owners\<close> are the orders in which the runtime visits a Go map of rows and of owners; \<open>e_errtext\<close>
  is the text of an error, \<open>e_sockdir\<close> and \<open>e_sockdir_under\<close> the two path functions of the stager.
\<close>

record env = clockctx +
  e_emit :: "nat \<Rightarrow> err option"
  e_forcekill :: "nat \<Rightarrow> err option"
  e_graceful :: "nat \<Rightarrow> err option"
  e_materialize :: "nat \<Rightarrow> Sandbox result"
  e_substrate :: "nat \<Rightarrow> Sandbox list result"
  e_stage :: "nat \<Rightarrow> Staged result"
  e_unstage :: "nat \<Rightarrow> err option"
  e_poolget :: "nat \<Rightarrow> Unit option"
  e_claim :: "nat \<Rightarrow> (Sandbox \<times> HandoffMaterial) result"
  e_dispose :: "nat \<Rightarrow> err option"
  e_mint :: "nat \<Rightarrow> string result"
  e_ticket :: "nat \<Rightarrow> err option"
  e_render :: "nat \<Rightarrow> string result"
  e_push :: "nat \<Rightarrow> Pushed result"
  e_scrub :: "nat \<Rightarrow> err option"
  e_shutdown :: "nat \<Rightarrow> err option"
  e_exec :: "nat \<Rightarrow> ExecResult result"
  e_order :: "nat \<Rightarrow> string list"
  e_owners :: "nat \<Rightarrow> Identity list"
  e_errtext :: "err \<Rightarrow> string"
  e_sockdir :: "string \<Rightarrow> string"
  e_sockdir_under :: "string \<Rightarrow> string"

type_synonym 's cworld = "('s, event) world"

definition emit :: "env \<Rightarrow> Record \<Rightarrow> 's cworld \<Rightarrow> err option \<times> 's cworld" where
  "emit E rec = ext_call (e_emit E) (EvEmit rec)"

definition force_kill :: "env \<Rightarrow> Sandbox \<Rightarrow> 's cworld \<Rightarrow> err option \<times> 's cworld" where
  "force_kill E sb = ext_call (e_forcekill E) (EvForceKill sb)"

text \<open>A kill that found no container is a satisfied kill.\<close>

fun kill_failed :: "err option \<Rightarrow> bool" where
  "kill_failed None \<longleftrightarrow> False"
| "kill_failed (Some e) \<longleftrightarrow> \<not> errors_is e ErrNoSuchContainer"

definition note_event :: "event \<Rightarrow> 's cworld \<Rightarrow> 's cworld" where
  "note_event ev w = snd (ext_call (\<lambda>_. ()) (\<lambda>_. ev) w)"

lemma ext_fields [frame_simps]:
  "store (snd (ext_call a f w)) = store w"
  "log (snd (ext_call a f w)) = log w @ [f (a (step w))]"
  "step (snd (ext_call a f w)) = Suc (step w)"
  "fst (ext_call a f w) = a (step w)"
  by (simp_all add: ext_call_def)

lemma note_fields [frame_simps]:
  "store (note_event ev w) = store w"
  "log (note_event ev w) = log w @ [ev]"
  "step (note_event ev w) = Suc (step w)"
  by (simp_all add: note_event_def frame_simps)

text \<open>The log only grows; store calls leave it alone.\<close>

lemma st_call_log [frame_simps]: "log (snd (st_call cx f w)) = log w"
  by (simp add: st_call_def split: prod.split)

lemma st_read_log [frame_simps]: "log (snd (st_read cx f w)) = log w" "store (snd (st_read cx f w)) = store w"
  by (simp_all add: st_read_def)

lemma log_ext:
  "prefix (log w) (log (snd (ext_call a f w)))" "prefix (log w) (log (note_event ev w))"
  "prefix (log w) (log (snd (st_call cx g w)))" "prefix (log w) (log (snd (st_read cx h w)))"
  by (simp_all add: frame_simps)

text \<open>An environment that answers every call with success, for the examples.\<close>

abbreviation demo_sandbox :: Sandbox where
  "demo_sandbox \<equiv> \<lparr>SbName = ''n'', RuntimeID = ''c1'', SbEgress = \<lparr>EbName = '''', EbFilesystemID = ''''\<rparr>,
     SbTier = TierRunc, SbAlive = True, SbSockDirRoot = ''''\<rparr>"

abbreviation demo_material :: HandoffMaterial where
  "demo_material \<equiv> \<lparr>ContainerInfoJSON = '''', ContainerInfoHostPath = '''', ContainerInfoGuestPath = '''',
     PublicKeyEd25519 = '''', PublicKeyHostPath = '''', PublicKeyGuestPath = '''', HostSockDir = '''',
     MountConfigGuestPath = ''''\<rparr>"

definition demo_env :: env where
  "demo_env = \<lparr>e_ctx = \<lambda>_. False, e_bg = \<lambda>_. False, e_now = \<lambda>_. 0, e_emit = \<lambda>_. None,
     e_forcekill = \<lambda>_. None, e_graceful = \<lambda>_. None, e_materialize = \<lambda>_. Inr demo_sandbox,
     e_substrate = \<lambda>_. Inr [], e_stage = \<lambda>_. Inr \<lparr>Material = demo_material, StRoot = ''r''\<rparr>,
     e_unstage = \<lambda>_. None, e_poolget = \<lambda>_. None,
     e_claim = \<lambda>_. Inr (demo_sandbox, demo_material), e_dispose = \<lambda>_. None, e_mint = \<lambda>_. Inr ''tok'',
     e_ticket = \<lambda>_. None, e_render = \<lambda>_. Inr ''cfg'',
     e_push = \<lambda>_. Inr \<lparr>PuPath = ''p'', PuGuestPath = ''g''\<rparr>, e_scrub = \<lambda>_. None, e_shutdown = \<lambda>_. None,
     e_exec = \<lambda>_. Inr \<lparr>ExitCode = 0, Stdout = '''', Stderr = '''', StdoutTruncated = False, StderrTruncated = False\<rparr>,
     e_order = \<lambda>_. [], e_owners = \<lambda>_. [], e_errtext = \<lambda>_. '''', e_sockdir = \<lambda>s. s,
     e_sockdir_under = \<lambda>s. s\<rparr>"

end
