(* ===== verification/MemStore.thy ===== *)
theory MemStore
  imports Store
begin

text \<open>
  The in-memory store of \<open>internal/state/inmem.go\<close>. The maps of the struct are HOL maps; a method
  is one function from the store to a result and the next store, since it runs under the stripe of
  its key and under \<open>rowMu\<close>. \<open>Reserve\<close> is the exception: it reads the deny posture under \<open>denyMu\<close>,
  releases that lock and only then inserts the row, so its two halves are definitions of their own
  and \<open>memStore_Reserve\<close> composes them. The theory proves the invariant that ties the rows to the
  reverse index of container names, that every reachable store satisfies it, and that the store
  meets the contract of \<open>Store\<close>.
\<close>

unbundle bit_operations_syntax

subsection \<open>State\<close>

record rowEnrichment =
  reservedAt :: time
  activeAt :: time
  caps :: "Caps option"
  lastActivity :: time

record memStore =
  rows :: "string \<rightharpoonup> SessionRow"
  boundNames :: "string \<rightharpoonup> string"
  enrichment :: "string \<rightharpoonup> rowEnrichment"
  deny :: "string \<rightharpoonup> DenyEntry"
  quota :: "QuotaKey \<rightharpoonup> int"

definition NewInMemory :: memStore where
  "NewInMemory = \<lparr>rows = Map.empty, boundNames = Map.empty, enrichment = Map.empty,
                  deny = Map.empty, quota = Map.empty\<rparr>"

abbreviation noEnrichment :: rowEnrichment where
  "noEnrichment \<equiv> \<lparr>reservedAt = 0, activeAt = 0, caps = None, lastActivity = 0\<rparr>"

text \<open>Reading a Go map at an absent key yields the zero value.\<close>

definition enrichment_at :: "memStore \<Rightarrow> string \<Rightarrow> rowEnrichment" where
  "enrichment_at m key = (case enrichment m key of None \<Rightarrow> noEnrichment | Some en \<Rightarrow> en)"

definition quota_at :: "memStore \<Rightarrow> QuotaKey \<Rightarrow> int" where
  "quota_at m key = (case quota m key of None \<Rightarrow> 0 | Some v \<Rightarrow> v)"

subsection \<open>Stripes and map keys\<close>

definition stripeCount :: nat where "stripeCount = 64"

text \<open>FNV-1a, 64 bits.\<close>

definition hash64 :: "string \<Rightarrow> 64 word" where
  "hash64 s = foldl (\<lambda>h c. (h XOR of_char c) * 1099511628211) 14695981039346656037 s"

definition keyStripe :: "string \<Rightarrow> nat" where
  "keyStripe key = unat (hash64 key AND of_nat (stripeCount - 1))"

fun dim_code :: "QuotaDim \<Rightarrow> nat" where
  "dim_code DimConcurrentSessions = 0"
| "dim_code DimMCPCallsPerMin = 1"
| "dim_code DimStorageGB = 2"
| "dim_code DimEgressBytesPerDay = 3"
| "dim_code DimCallerCreateRate = 4"

definition billed_id :: "QuotaKey \<Rightarrow> string" where
  "billed_id key =
     (if Dim key = DimCallerCreateRate then Caller (Billed key) else Tenant (Billed key))"

definition quotaScopeID :: "QuotaKey \<Rightarrow> string" where
  "quotaScopeID key =
     dec (dim_code (Dim key)) @ ''|'' @ dec (length (billed_id key)) @ '':''
       @ billed_id key @ ''|'' @ Window key"

definition quotaStripe :: "QuotaKey \<Rightarrow> nat" where
  "quotaStripe key = unat (hash64 (quotaScopeID key) AND of_nat (stripeCount - 1))"

fun scope_code :: "DenyScope \<Rightarrow> nat" where
  "scope_code ScopeGlobal = 0"
| "scope_code ScopeSession = 1"

definition denyKey :: "DenyScope \<Rightarrow> string \<Rightarrow> string" where
  "denyKey sc key = dec (scope_code sc) @ CHR 0x00 # key"

definition ctxErr :: "ctx \<Rightarrow> err option" where
  "ctxErr c = (if c then Some [ErrStoreUnavailable, CtxErr] else None)"

subsection \<open>The reservation mutators\<close>

text \<open>The first half of \<open>Reserve\<close>: the deny posture, global kill-switch first.\<close>

definition reserve_deny_check :: "string \<Rightarrow> memStore \<Rightarrow> err option" where
  "reserve_deny_check key m =
     (if deny m (denyKey ScopeGlobal '''') \<noteq> None then Some [ErrKillSwitchEngaged]
      else if deny m (denyKey ScopeSession key) \<noteq> None then Some [ErrSessionDenied]
      else None)"

text \<open>The second half: the double-book check and the insert, under \<open>rowMu\<close>.\<close>

definition reserve_insert ::
  "time \<Rightarrow> string \<Rightarrow> Identity \<Rightarrow> memStore \<Rightarrow> SessionRow result \<times> memStore" where
  "reserve_insert now key owner m =
     (case rows m key of
        Some existing \<Rightarrow>
          if State existing \<noteq> StateReleased then (Inl [ErrReservationExists], m)
          else
            let m' = (if ContainerName existing \<noteq> ''''
                      then m\<lparr>boundNames := (boundNames m)(ContainerName existing := None)\<rparr> else m);
                row = reserved_row key owner
            in (Inr row, m'\<lparr>rows := (rows m)(key \<mapsto> row),
                             enrichment := (enrichment m)(key \<mapsto> noEnrichment\<lparr>reservedAt := now\<rparr>)\<rparr>)
      | None \<Rightarrow>
          let row = reserved_row key owner
          in (Inr row, m\<lparr>rows := (rows m)(key \<mapsto> row),
                          enrichment := (enrichment m)(key \<mapsto> noEnrichment\<lparr>reservedAt := now\<rparr>)\<rparr>))"

definition memStore_Reserve ::
  "time \<Rightarrow> ctx \<Rightarrow> string \<Rightarrow> Identity \<Rightarrow> memStore \<Rightarrow> SessionRow result \<times> memStore" where
  "memStore_Reserve now c key owner m =
     (case ctxErr c of Some e \<Rightarrow> (Inl e, m) | None \<Rightarrow>
      case reserve_deny_check key m of Some e \<Rightarrow> (Inl e, m) | None \<Rightarrow>
      reserve_insert now key owner m)"

definition memStore_Commit ::
  "ctx \<Rightarrow> string \<Rightarrow> Identity \<Rightarrow> memStore \<Rightarrow> SessionRow result \<times> memStore" where
  "memStore_Commit c key owner m =
     (case ctxErr c of Some e \<Rightarrow> (Inl e, m) | None \<Rightarrow>
      case rows m key of
        None \<Rightarrow> (Inl [ErrReservationNotFound], m)
      | Some row \<Rightarrow>
          if Owner row \<noteq> owner then (Inl [ErrReservationConflict], m)
          else if State row \<noteq> StateReserved then (Inl [ErrReservationConflict], m)
          else let row' = row\<lparr>State := StateActive\<rparr>
               in (Inr row', m\<lparr>rows := (rows m)(key \<mapsto> row')\<rparr>))"

definition memStore_BindContainerName ::
  "ctx \<Rightarrow> string \<Rightarrow> Identity \<Rightarrow> string \<Rightarrow> string \<Rightarrow> memStore \<Rightarrow> SessionRow result \<times> memStore" where
  "memStore_BindContainerName c key owner containerName sockDirRoot m =
     (case ctxErr c of Some e \<Rightarrow> (Inl e, m) | None \<Rightarrow>
      case rows m key of
        None \<Rightarrow> (Inl [ErrReservationNotFound], m)
      | Some row \<Rightarrow>
          if Owner row \<noteq> owner then (Inl [ErrReservationConflict], m)
          else if State row = StateReleased then (Inl [ErrReservationConflict], m)
          else if ContainerName row \<noteq> '''' then (Inl [ErrBindingExists], m)
          else if boundNames m containerName \<noteq> None \<and> boundNames m containerName \<noteq> Some key
            then (Inl [ErrBindingExists], m)
          else let row' = row\<lparr>ContainerName := containerName, SockDirRoot := sockDirRoot\<rparr>
               in (Inr row', m\<lparr>rows := (rows m)(key \<mapsto> row'),
                                boundNames := (boundNames m)(containerName \<mapsto> key)\<rparr>))"

definition memStore_Release ::
  "ctx \<Rightarrow> string \<Rightarrow> Identity \<Rightarrow> memStore \<Rightarrow> SessionRow result \<times> memStore" where
  "memStore_Release c key owner m =
     (case ctxErr c of Some e \<Rightarrow> (Inl e, m) | None \<Rightarrow>
      case rows m key of
        None \<Rightarrow> (Inl [ErrReservationNotFound], m)
      | Some row \<Rightarrow>
          if Owner row \<noteq> owner then (Inl [ErrReservationConflict], m)
          else if State row = StateReleased then (Inr row, m)
          else let row' = row\<lparr>State := StateReleased\<rparr>
               in (Inr row', m\<lparr>rows := (rows m)(key \<mapsto> row')\<rparr>))"

subsection \<open>Reads and the read-surface enrichment\<close>

text \<open>\<open>ord\<close> is the order in which the runtime visits the keys of the map.\<close>

definition memStore_LiveSessions ::
  "string list \<Rightarrow> ctx \<Rightarrow> memStore \<Rightarrow> SessionRow list result" where
  "memStore_LiveSessions ord c m =
     (case ctxErr c of Some e \<Rightarrow> Inl e | None \<Rightarrow>
      Inr (filter (\<lambda>r. State r = StateReserved \<or> State r = StateActive)
            (List.map_filter (rows m) ord)))"

definition enrich_row :: "memStore \<Rightarrow> string \<Rightarrow> SessionRow \<Rightarrow> EnrichedSessionRow" where
  "enrich_row m key r =
     (let en = enrichment_at m key
      in \<lparr>Row = r, ReservedAt = reservedAt en,
          ActiveAt = (if activeAt en \<noteq> 0 then Some (activeAt en) else None),
          RowCaps = caps en,
          LastActivity = (if lastActivity en \<noteq> 0 then Some (lastActivity en) else None)\<rparr>)"

definition memStore_LiveSessionsEnriched ::
  "string list \<Rightarrow> ctx \<Rightarrow> memStore \<Rightarrow> EnrichedSessionRow list result" where
  "memStore_LiveSessionsEnriched ord c m =
     (case ctxErr c of Some e \<Rightarrow> Inl e | None \<Rightarrow>
      Inr (List.map_filter
            (\<lambda>key. case rows m key of None \<Rightarrow> None
              | Some r \<Rightarrow> if State r \<noteq> StateReserved \<and> State r \<noteq> StateActive then None
                          else Some (enrich_row m key r)) ord))"

definition memStore_RecordActivation ::
  "ctx \<Rightarrow> string \<Rightarrow> Caps \<Rightarrow> time \<Rightarrow> memStore \<Rightarrow> err option \<times> memStore" where
  "memStore_RecordActivation c key cp at m =
     (case ctxErr c of Some e \<Rightarrow> (Some e, m) | None \<Rightarrow>
      let en = (enrichment_at m key)\<lparr>activeAt := at, lastActivity := at, caps := Some cp\<rparr>
      in (None, m\<lparr>enrichment := (enrichment m)(key \<mapsto> en)\<rparr>))"

definition memStore_TouchActivity ::
  "ctx \<Rightarrow> string \<Rightarrow> time \<Rightarrow> memStore \<Rightarrow> err option \<times> memStore" where
  "memStore_TouchActivity c key now m =
     (case ctxErr c of Some e \<Rightarrow> (Some e, m) | None \<Rightarrow>
      let en = (enrichment_at m key)\<lparr>lastActivity := now\<rparr>
      in (None, m\<lparr>enrichment := (enrichment m)(key \<mapsto> en)\<rparr>))"

definition memStore_LookupSession :: "ctx \<Rightarrow> string \<Rightarrow> memStore \<Rightarrow> SessionRow result" where
  "memStore_LookupSession c key m =
     (case ctxErr c of Some e \<Rightarrow> Inl e | None \<Rightarrow>
      case rows m key of None \<Rightarrow> Inl [ErrReservationNotFound] | Some row \<Rightarrow> Inr row)"

subsection \<open>The deny posture\<close>

definition memStore_SetDeny :: "ctx \<Rightarrow> DenyEntry \<Rightarrow> memStore \<Rightarrow> err option \<times> memStore" where
  "memStore_SetDeny c entry m =
     (case ctxErr c of Some e \<Rightarrow> (Some e, m) | None \<Rightarrow>
      let entry' = (if Scope entry = ScopeGlobal then entry\<lparr>DenyKey := ''''\<rparr> else entry)
      in (None, m\<lparr>deny := (deny m)(denyKey (Scope entry') (DenyKey entry') \<mapsto> entry')\<rparr>))"

definition memStore_ClearDeny ::
  "ctx \<Rightarrow> DenyScope \<Rightarrow> string \<Rightarrow> memStore \<Rightarrow> err option \<times> memStore" where
  "memStore_ClearDeny c sc key m =
     (case ctxErr c of Some e \<Rightarrow> (Some e, m) | None \<Rightarrow>
      let key' = (if sc = ScopeGlobal then '''' else key)
      in (None, m\<lparr>deny := (deny m)(denyKey sc key' := None)\<rparr>))"

definition memStore_LoadDeny :: "string list \<Rightarrow> ctx \<Rightarrow> memStore \<Rightarrow> DenyEntry list result" where
  "memStore_LoadDeny ord c m =
     (case ctxErr c of Some e \<Rightarrow> Inl e | None \<Rightarrow> Inr (List.map_filter (deny m) ord))"

subsection \<open>The quota counters\<close>

definition memStore_Charge ::
  "ctx \<Rightarrow> QuotaKey \<Rightarrow> int \<Rightarrow> int \<Rightarrow> memStore \<Rightarrow> int result \<times> memStore" where
  "memStore_Charge c key delta limit m =
     (case ctxErr c of Some e \<Rightarrow> (Inl e, m) | None \<Rightarrow>
      let current = quota_at m key
      in if delta < 0 then
           let next = wrap64 (current + delta);
               next' = (if next < 0 then 0 else next)
           in (Inr next', m\<lparr>quota := (quota m)(key \<mapsto> next')\<rparr>)
         else if wrap64 (current + delta) > limit then (Inl [ErrQuotaExceeded], m)
         else let next = wrap64 (current + delta)
              in (Inr next, m\<lparr>quota := (quota m)(key \<mapsto> next)\<rparr>))"

definition memStore_ReadQuota :: "ctx \<Rightarrow> QuotaKey \<Rightarrow> memStore \<Rightarrow> int result" where
  "memStore_ReadQuota c key m =
     (case ctxErr c of Some e \<Rightarrow> Inl e | None \<Rightarrow> Inr (quota_at m key))"

text \<open>The methods and the optional capabilities the in-memory store provides.\<close>

definition memStore_ops :: "memStore Store" where
  "memStore_ops =
     \<lparr>Reserve = memStore_Reserve, Commit = memStore_Commit,
      BindContainerName = memStore_BindContainerName, Release = memStore_Release,
      LookupSession = memStore_LookupSession, SetDeny = memStore_SetDeny,
      ClearDeny = memStore_ClearDeny, LoadDeny = memStore_LoadDeny,
      Charge = memStore_Charge, ReadQuota = memStore_ReadQuota,
      LiveLister = Some memStore_LiveSessions,
      EnrichedLister = Some memStore_LiveSessionsEnriched,
      ActivationRecorder = Some memStore_RecordActivation,
      ActivityToucher = Some memStore_TouchActivity\<rparr>"

lemmas memStore_mutator_defs =
  memStore_Reserve_def reserve_deny_check_def reserve_insert_def memStore_Commit_def
  memStore_BindContainerName_def memStore_Release_def memStore_SetDeny_def memStore_ClearDeny_def
  memStore_Charge_def memStore_RecordActivation_def memStore_TouchActivity_def

subsection \<open>Encodings are unambiguous\<close>

lemma scope_code_inject [simp]: "scope_code a = scope_code b \<longleftrightarrow> a = b"
  by (cases a; cases b) simp_all

lemma dim_code_inject [simp]: "dim_code a = dim_code b \<longleftrightarrow> a = b"
  by (cases a; cases b) simp_all

lemma denyKey_inject [simp]: "denyKey sc k = denyKey sc' k' \<longleftrightarrow> sc = sc' \<and> k = k'"
  using dec_append_inject [of "CHR 0x00" "scope_code sc" k "scope_code sc'" k']
  by (auto simp: denyKey_def is_digit_def)

lemma quotaScopeID_iff:
  "quotaScopeID p = quotaScopeID q \<longleftrightarrow>
     Dim p = Dim q \<and> billed_id p = billed_id q \<and> Window p = Window q"
proof
  assume eq: "quotaScopeID p = quotaScopeID q"
  have nd: "\<not> is_digit (CHR ''|'')" "\<not> is_digit (CHR '':'')"
    by (simp_all add: is_digit_def)
  from eq have "dec (dim_code (Dim p)) @ CHR ''|'' # dec (length (billed_id p)) @ CHR '':''
        # billed_id p @ ''|'' @ Window p =
      dec (dim_code (Dim q)) @ CHR ''|'' # dec (length (billed_id q)) @ CHR '':''
        # billed_id q @ ''|'' @ Window q"
    by (simp add: quotaScopeID_def)
  from dec_append_inject [OF nd(1) this] have dim: "Dim p = Dim q"
    and rest: "dec (length (billed_id p)) @ CHR '':'' # billed_id p @ ''|'' @ Window p =
      dec (length (billed_id q)) @ CHR '':'' # billed_id q @ ''|'' @ Window q"
    by simp_all
  from dec_append_inject [OF nd(2) rest] have "length (billed_id p) = length (billed_id q)"
    and "billed_id p @ ''|'' @ Window p = billed_id q @ ''|'' @ Window q"
    by simp_all
  with dim show "Dim p = Dim q \<and> billed_id p = billed_id q \<and> Window p = Window q"
    by simp
qed (simp add: quotaScopeID_def)

lemma keyStripe_bound: "keyStripe key < stripeCount"
proof -
  have "hash64 key AND 63 \<le> 63" by (rule word_and_le1)
  then have "unat (hash64 key AND 63) \<le> unat (63 :: 64 word)" by (simp only: word_le_nat_alt)
  then show ?thesis by (simp add: keyStripe_def stripeCount_def)
qed

subsection \<open>The invariant\<close>

text \<open>
  The rows sit under their own key; the reverse index holds exactly the non-empty container names
  of the rows, each under the key of its row; a deny entry sits under the key made from its scope
  and its session; the counters are \<open>int64\<close> values.
\<close>

definition mem_inv :: "memStore \<Rightarrow> bool" where
  "mem_inv m \<longleftrightarrow>
     finite (dom (rows m)) \<and>
     (\<forall>k r. rows m k = Some r \<longrightarrow> Key r = k) \<and>
     (\<forall>k r. rows m k = Some r \<longrightarrow> ContainerName r \<noteq> '''' \<longrightarrow>
        boundNames m (ContainerName r) = Some k) \<and>
     (\<forall>n k. boundNames m n = Some k \<longrightarrow> n \<noteq> '''' \<longrightarrow>
        (\<exists>r. rows m k = Some r \<and> ContainerName r = n)) \<and>
     (\<forall>d en. deny m d = Some en \<longrightarrow> d = denyKey (Scope en) (DenyKey en)) \<and>
     (\<forall>q. is_int64 (quota_at m q))"

lemma mem_invI:
  assumes "finite (dom (rows m))" and "\<And>k r. rows m k = Some r \<Longrightarrow> Key r = k"
    and "\<And>k r. rows m k = Some r \<Longrightarrow> ContainerName r \<noteq> '''' \<Longrightarrow>
          boundNames m (ContainerName r) = Some k"
    and "\<And>n k. boundNames m n = Some k \<Longrightarrow> n \<noteq> '''' \<Longrightarrow> \<exists>r. rows m k = Some r \<and> ContainerName r = n"
    and "\<And>d en. deny m d = Some en \<Longrightarrow> d = denyKey (Scope en) (DenyKey en)"
    and "\<And>q. is_int64 (quota_at m q)"
  shows "mem_inv m"
  using assms by (simp add: mem_inv_def)

lemma mem_invD:
  assumes "mem_inv m"
  shows "finite (dom (rows m))" and "rows m k = Some r \<Longrightarrow> Key r = k"
    and "rows m k = Some r \<Longrightarrow> ContainerName r \<noteq> '''' \<Longrightarrow> boundNames m (ContainerName r) = Some k"
    and "boundNames m n = Some k \<Longrightarrow> n \<noteq> '''' \<Longrightarrow> \<exists>r. rows m k = Some r \<and> ContainerName r = n"
    and "deny m d = Some en \<Longrightarrow> d = denyKey (Scope en) (DenyKey en)"
    and "is_int64 (quota_at m q)"
  using assms unfolding mem_inv_def by blast+

lemma mem_inv_new: "mem_inv NewInMemory"
  by (simp add: mem_inv_def NewInMemory_def quota_at_def int64_min_def int64_max_def)

text \<open>The invariant reads four of the five maps.\<close>

lemma mem_inv_cong:
  assumes "mem_inv m" and "rows m' = rows m" and "boundNames m' = boundNames m"
    and "deny m' = deny m" and "quota m' = quota m"
  shows "mem_inv m'"
  using assms by (simp add: mem_inv_def quota_at_def)

text \<open>Updating a row in a way that keeps its key and its name keeps the invariant.\<close>

lemma mem_inv_update_row:
  assumes "mem_inv m" and "rows m k = Some r0" and "Key r = k" and "ContainerName r = ContainerName r0"
  shows "mem_inv (m\<lparr>rows := (rows m)(k \<mapsto> r)\<rparr>)"
proof (rule mem_invI)
  fix n k' assume "boundNames (m\<lparr>rows := (rows m)(k \<mapsto> r)\<rparr>) n = Some k'" and "n \<noteq> ''''"
  with mem_invD(4) [OF assms(1)] obtain r' where "rows m k' = Some r'" and "ContainerName r' = n"
    by fastforce
  with assms(2,4) show "\<exists>r'. rows (m\<lparr>rows := (rows m)(k \<mapsto> r)\<rparr>) k' = Some r' \<and> ContainerName r' = n"
    by (cases "k' = k") auto
qed (use assms mem_invD [OF assms(1)] in \<open>auto simp: quota_at_def split: if_splits\<close>)

lemma mem_inv_insert:
  assumes inv: "mem_inv m" and res: "reserve_insert now key owner m = (x, m')"
  shows "mem_inv m'"
proof (cases "rows m key")
  case None
  with res have m': "m' = m\<lparr>rows := (rows m)(key \<mapsto> reserved_row key owner),
      enrichment := (enrichment m)(key \<mapsto> noEnrichment\<lparr>reservedAt := now\<rparr>)\<rparr>"
    by (auto simp: reserve_insert_def Let_def)
  have nk: "boundNames m n = Some k \<Longrightarrow> n \<noteq> '''' \<Longrightarrow> k \<noteq> key" for n k
    using mem_invD(4) [OF inv, of n k] None by auto
  show ?thesis
    by (rule mem_invI)
      (use None nk mem_invD [OF inv] in \<open>auto simp: m' quota_at_def split: if_splits\<close>)
next
  case (Some r0)
  show ?thesis
  proof (cases "State r0 = StateReleased")
    case False
    with Some res inv show ?thesis by (auto simp: reserve_insert_def)
  next
    case True
    define b where "b = (if ContainerName r0 \<noteq> '''' then (boundNames m)(ContainerName r0 := None)
      else boundNames m)"
    from True Some res have m': "m' = m\<lparr>rows := (rows m)(key \<mapsto> reserved_row key owner),
        boundNames := b, enrichment := (enrichment m)(key \<mapsto> noEnrichment\<lparr>reservedAt := now\<rparr>)\<rparr>"
      by (auto simp: reserve_insert_def b_def Let_def split: if_splits)
    have b1: "b n = Some k \<Longrightarrow> boundNames m n = Some k" for n k
      by (auto simp: b_def split: if_splits)
    have b2: "b n = Some key \<Longrightarrow> n = ''''" for n
      using mem_invD(4) [OF inv, of n key] Some by (auto simp: b_def split: if_splits)
    show ?thesis
    proof (rule mem_invI)
      fix k r assume "rows m' k = Some r" and "ContainerName r \<noteq> ''''"
      then have k: "k \<noteq> key" "rows m k = Some r" by (auto simp: m' split: if_splits)
      then have "boundNames m (ContainerName r) = Some k"
        using mem_invD(3) [OF inv] \<open>ContainerName r \<noteq> ''''\<close> by blast
      moreover have "ContainerName r \<noteq> ContainerName r0"
        using mem_invD(3) [OF inv Some] calculation k(1) \<open>ContainerName r \<noteq> ''''\<close> by auto
      ultimately show "boundNames m' (ContainerName r) = Some k"
        by (simp add: m' b_def)
    next
      fix n k assume "boundNames m' n = Some k" and n: "n \<noteq> ''''"
      then have "b n = Some k" by (simp add: m')
      with b2 n have "k \<noteq> key" by blast
      moreover have "\<exists>r. rows m k = Some r \<and> ContainerName r = n"
        using mem_invD(4) [OF inv b1 [OF \<open>b n = Some k\<close>] n] .
      ultimately show "\<exists>r. rows m' k = Some r \<and> ContainerName r = n"
        by (simp add: m')
    qed (use mem_invD [OF inv] in \<open>auto simp: m' quota_at_def split: if_splits\<close>)
  qed
qed

lemma mem_inv_bind:
  assumes inv: "mem_inv m" and res: "memStore_BindContainerName c k ow n sd m = (x, m')"
  shows "mem_inv m'"
proof (cases "m' = m")
  case False
  with res obtain r0 where r0: "rows m k = Some r0" "ContainerName r0 = ''''"
    and free: "boundNames m n = None \<or> boundNames m n = Some k"
    and m': "m' = m\<lparr>rows := (rows m)(k \<mapsto> r0\<lparr>ContainerName := n, SockDirRoot := sd\<rparr>),
               boundNames := (boundNames m)(n \<mapsto> k)\<rparr>"
    by (auto simp: memStore_BindContainerName_def Let_def split: option.splits if_splits)
  show ?thesis
  proof (rule mem_invI)
    fix k' r assume k': "rows m' k' = Some r" "ContainerName r \<noteq> ''''"
    show "boundNames m' (ContainerName r) = Some k'"
    proof (cases "k' = k")
      case True
      with k' show ?thesis by (auto simp: m')
    next
      case False
      with k' have "boundNames m (ContainerName r) = Some k'"
        using mem_invD(3) [OF inv] by (auto simp: m')
      with False free show ?thesis by (auto simp: m')
    qed
  next
    fix n' k' assume n': "boundNames m' n' = Some k'" "n' \<noteq> ''''"
    show "\<exists>r. rows m' k' = Some r \<and> ContainerName r = n'"
    proof (cases "n' = n")
      case True
      with n' show ?thesis by (auto simp: m')
    next
      case False
      with n' obtain r where "rows m k' = Some r" "ContainerName r = n'"
        using mem_invD(4) [OF inv, of n' k'] by (auto simp: m')
      with r0 n'(2) show ?thesis by (auto simp: m')
    qed
  qed (use r0 mem_invD [OF inv] in \<open>auto simp: m' quota_at_def split: if_splits\<close>)
qed (use inv in simp)

lemma mem_inv_set_cell:
  "mem_inv m \<Longrightarrow> is_int64 v \<Longrightarrow> mem_inv (m\<lparr>quota := (quota m)(q \<mapsto> v)\<rparr>)"
  by (auto simp: mem_inv_def quota_at_def)

lemma is_int64_0: "is_int64 0"
  by (simp add: int64_min_def int64_max_def)

lemma mem_inv_charge:
  assumes inv: "mem_inv m" and res: "memStore_Charge c q d l m = (x, m')"
  shows "mem_inv m'"
  using inv res
  by (auto simp: memStore_Charge_def Let_def split: option.splits if_splits
      intro!: mem_inv_set_cell wrap64_range is_int64_0)

lemma mem_inv_deny:
  assumes "mem_inv m" and "Scope en = sc" and "DenyKey en = k"
  shows "mem_inv (m\<lparr>deny := (deny m)(denyKey sc k \<mapsto> en)\<rparr>)"
    and "mem_inv (m\<lparr>deny := (deny m)(d := None)\<rparr>)"
  using assms by (auto simp: mem_inv_def quota_at_def split: if_splits)

subsection \<open>Reachable stores\<close>

text \<open>One rule per method that writes; the contexts, keys and instants are the callers' choice.\<close>

inductive mem_step :: "memStore \<Rightarrow> memStore \<Rightarrow> bool" where
  st_reserve: "memStore_Reserve now c k ow m = (x, m') \<Longrightarrow> mem_step m m'"
| st_insert: "reserve_insert now k ow m = (x, m') \<Longrightarrow> mem_step m m'"
| st_commit: "memStore_Commit c k ow m = (x, m') \<Longrightarrow> mem_step m m'"
| st_bind: "memStore_BindContainerName c k ow n sd m = (x, m') \<Longrightarrow> mem_step m m'"
| st_release: "memStore_Release c k ow m = (x, m') \<Longrightarrow> mem_step m m'"
| st_record: "memStore_RecordActivation c k cp t m = (y, m') \<Longrightarrow> mem_step m m'"
| st_touch: "memStore_TouchActivity c k t m = (y, m') \<Longrightarrow> mem_step m m'"
| st_set_deny: "memStore_SetDeny c en m = (y, m') \<Longrightarrow> mem_step m m'"
| st_clear_deny: "memStore_ClearDeny c sc k m = (y, m') \<Longrightarrow> mem_step m m'"
| st_charge: "memStore_Charge c q d l m = (z, m') \<Longrightarrow> mem_step m m'"

inductive mem_reachable :: "memStore \<Rightarrow> bool" where
  mr_init: "mem_reachable NewInMemory"
| mr_step: "mem_reachable m \<Longrightarrow> mem_step m m' \<Longrightarrow> mem_reachable m'"

lemma mem_step_inv: "mem_step m m' \<Longrightarrow> mem_inv m \<Longrightarrow> mem_inv m'"
proof (induction rule: mem_step.induct)
  case (st_reserve now c k ow m x m')
  then show ?case
    by (auto simp: memStore_Reserve_def mem_inv_insert split: option.splits)
next
  case (st_commit c k ow m x m')
  then show ?case
    by (auto simp: memStore_Commit_def Let_def mem_invD(2)
        intro!: mem_inv_update_row split: option.splits if_splits)
next
  case (st_release c k ow m x m')
  then show ?case
    by (auto simp: memStore_Release_def Let_def mem_invD(2)
        intro!: mem_inv_update_row split: option.splits if_splits)
next
  case (st_record c k cp t m y m')
  then show ?case
    by (auto simp: memStore_RecordActivation_def Let_def
        intro: mem_inv_cong split: option.splits)
next
  case (st_touch c k t m y m')
  then show ?case
    by (auto simp: memStore_TouchActivity_def Let_def intro: mem_inv_cong split: option.splits)
next
  case (st_set_deny c en m y m')
  then show ?case
    by (auto simp: memStore_SetDeny_def Let_def intro: mem_inv_deny split: option.splits if_splits)
next
  case (st_clear_deny c sc k m y m')
  then show ?case
    by (auto simp: memStore_ClearDeny_def Let_def intro: mem_inv_deny split: option.splits)
qed (blast intro: mem_inv_insert mem_inv_bind mem_inv_charge)+

lemma mem_reachable_inv: "mem_reachable m \<Longrightarrow> mem_inv m"
  by (induction rule: mem_reachable.induct) (blast intro: mem_inv_new mem_step_inv)+

subsection \<open>The store meets its contract\<close>

abbreviation mem_killed :: "memStore \<Rightarrow> bool" where
  "mem_killed m \<equiv> deny m (denyKey ScopeGlobal '''') \<noteq> None"

abbreviation mem_denied :: "memStore \<Rightarrow> string \<Rightarrow> bool" where
  "mem_denied m k \<equiv> deny m (denyKey ScopeSession k) \<noteq> None"

lemma reserve_insert_ok:
  assumes "reserve_insert now k ow m = (Inr r, m')"
  shows "\<forall>r0. rows m k = Some r0 \<longrightarrow> \<not> is_live r0" and "r = reserved_row k ow"
    and "rows m' = (rows m)(k \<mapsto> r)" and "quota m' = quota m" and "deny m' = deny m"
  using assms
  by (auto simp: reserve_insert_def Let_def is_live_iff split: option.splits if_splits)

lemma reserve_insert_err: "reserve_insert now k ow m = (Inl e, m') \<Longrightarrow> m' = m"
  by (auto simp: reserve_insert_def Let_def split: option.splits if_splits)

lemma in_map_filter: "y \<in> set (List.map_filter f xs) \<longleftrightarrow> (\<exists>x \<in> set xs. f x = Some y)"
  by (induction xs) (auto simp: List.map_filter_def)

lemma distinct_map_filter_keys:
  assumes "distinct xs" and "\<And>x y. f x = Some y \<Longrightarrow> g y = x"
  shows "distinct (map g (List.map_filter f xs))"
  using assms
  by (induction xs) (auto simp: List.map_filter_def dest!: assms(2))

lemma live_sessions_spec:
  assumes "memStore_LiveSessions ord c m = Inr rs" and inv: "mem_inv m"
  shows "r \<in> set rs \<longleftrightarrow> Key r \<in> set ord \<and> rows m (Key r) = Some r \<and> is_live r"
    and "distinct ord \<Longrightarrow> distinct (map Key rs)"
proof -
  let ?live = "\<lambda>r. State r = StateReserved \<or> State r = StateActive"
  from assms(1) have rs: "rs = filter ?live (List.map_filter (rows m) ord)"
    by (auto simp: memStore_LiveSessions_def split: option.splits)
  show "r \<in> set rs \<longleftrightarrow> Key r \<in> set ord \<and> rows m (Key r) = Some r \<and> is_live r"
    using mem_invD(2) [OF inv] by (auto simp: rs in_map_filter is_live_def)
  show "distinct (map Key rs)" if "distinct ord"
    unfolding rs using that mem_invD(2) [OF inv]
    by (intro distinct_map_filter distinct_map_filter_keys) auto
qed

lemma live_enriched_spec:
  assumes "memStore_LiveSessionsEnriched ord c m = Inr ers" and inv: "mem_inv m"
  shows "er \<in> set ers \<longleftrightarrow> (\<exists>r. er = enrich_row m (Key r) r \<and> Key r \<in> set ord \<and>
           rows m (Key r) = Some r \<and> is_live r)"
    and "distinct ord \<Longrightarrow> distinct (map (\<lambda>er. Key (Row er)) ers)"
proof -
  let ?f = "\<lambda>key. case rows m key of None \<Rightarrow> None
    | Some r \<Rightarrow> if State r \<noteq> StateReserved \<and> State r \<noteq> StateActive then None
               else Some (enrich_row m key r)"
  from assms(1) have ers: "ers = List.map_filter ?f ord"
    by (auto simp: memStore_LiveSessionsEnriched_def split: option.splits)
  have f: "?f k = Some e \<longleftrightarrow> (\<exists>r. rows m k = Some r \<and> is_live r \<and> e = enrich_row m k r)" for k e
    by (auto simp: is_live_def split: option.splits if_splits)
  show "er \<in> set ers \<longleftrightarrow> (\<exists>r. er = enrich_row m (Key r) r \<and> Key r \<in> set ord \<and>
           rows m (Key r) = Some r \<and> is_live r)"
    using mem_invD(2) [OF inv] unfolding ers in_map_filter f by blast
  show "distinct (map (\<lambda>er. Key (Row er)) ers)" if "distinct ord"
    unfolding ers
    by (rule distinct_map_filter_keys [OF that])
      (use mem_invD(2) [OF inv] in \<open>auto simp: f enrich_row_def Let_def\<close>)
qed

lemmas memStore_op_simps = memStore_ops_def Store.simps

lemma ctxErr_simps [simp]:
  "ctxErr False = None" "ctxErr c = None \<longleftrightarrow> \<not> c" "ctxErr c = Some e \<longleftrightarrow> c \<and> e = [ErrStoreUnavailable, CtxErr]"
  by (auto simp: ctxErr_def)

interpretation mem: store_contract memStore_ops mem_inv rows quota_at "\<lambda>q. q" mem_killed mem_denied
proof (unfold_locales, goal_cases)
  case (3 s k r k' r')
  then show ?case using mem_invD(3) [of s k r] mem_invD(3) [of s k' r'] by simp
next
  case (7 s t c k ow r s')
  then have "reserve_insert t k ow s = (Inr r, s')" and "\<not> mem_killed s" and "\<not> mem_denied s k"
    by (auto simp: memStore_ops_def memStore_Reserve_def reserve_deny_check_def
        split: option.splits if_splits)
  with reserve_insert_ok [OF this(1)] mem_inv_insert [OF 7(1) this(1)] show ?case
    by (simp add: quota_at_def fun_eq_iff)
next
  case (9 s c k ow r s')
  then have "mem_inv s'" by (auto simp: memStore_ops_def intro: mem_step_inv st_commit)
  with 9 show ?case
    by (auto simp: memStore_ops_def memStore_Commit_def Let_def quota_at_def fun_eq_iff
        split: option.splits if_splits)
next
  case (11 s c k ow n sd r s')
  then have "mem_inv s'" by (auto simp: memStore_ops_def intro: mem_inv_bind)
  with 11 show ?case
    by (auto simp: memStore_ops_def memStore_BindContainerName_def Let_def quota_at_def fun_eq_iff
        is_live_iff split: option.splits if_splits)
next
  case (13 s c k ow r s')
  then have "mem_inv s'" by (auto simp: memStore_ops_def intro: mem_step_inv st_release)
  with 13 show ?case
    by (auto simp: memStore_ops_def memStore_Release_def Let_def quota_at_def fun_eq_iff
        split: option.splits if_splits)
next
  case (18 s d c q l v s')
  then have "mem_inv s'" by (auto simp: memStore_ops_def intro: mem_inv_charge)
  with 18 show ?case
    by (auto simp: memStore_ops_def memStore_Charge_def Let_def quota_at_def fun_eq_iff cell_upd_def
        split: option.splits if_splits)
next
  case (21 s c en s')
  then have "mem_inv s'" by (auto simp: memStore_ops_def intro: mem_step_inv st_set_deny)
  with 21 show ?case
    by (cases "Scope en")
      (auto simp: memStore_ops_def memStore_SetDeny_def Let_def quota_at_def fun_eq_iff
        split: option.splits if_splits)
next
  case (23 s c sc k s')
  then have "mem_inv s'" by (auto simp: memStore_ops_def intro: mem_step_inv st_clear_deny)
  with 23 show ?case
    by (cases sc)
      (auto simp: memStore_ops_def memStore_ClearDeny_def Let_def quota_at_def fun_eq_iff
        split: option.splits if_splits)
next
  case (30 s ar c k cp t x s')
  then have "mem_inv s'" by (auto simp: memStore_ops_def intro: mem_step_inv st_record)
  with 30 show ?case
    by (auto simp: memStore_ops_def memStore_RecordActivation_def Let_def quota_at_def
        split: option.splits)
next
  case (31 s at c k t x s')
  then have "mem_inv s'" by (auto simp: memStore_ops_def intro: mem_step_inv st_touch)
  with 31 show ?case
    by (auto simp: memStore_ops_def memStore_TouchActivity_def Let_def quota_at_def
        split: option.splits)
next
  case 6
  then show ?case
    by (auto simp: memStore_ops_def memStore_Reserve_def split: option.splits dest: reserve_insert_err)
next
  case 8
  then show ?case
    by (auto simp: memStore_ops_def memStore_Commit_def Let_def split: option.splits if_splits)
next
  case 10
  then show ?case
    by (auto simp: memStore_ops_def memStore_BindContainerName_def Let_def
        split: option.splits if_splits)
next
  case 12
  then show ?case
    by (auto simp: memStore_ops_def memStore_Release_def Let_def split: option.splits if_splits)
next
  case 17
  then show ?case
    by (auto simp: memStore_ops_def memStore_Charge_def Let_def split: option.splits if_splits)
next
  case 20
  then show ?case
    by (auto simp: memStore_ops_def memStore_SetDeny_def Let_def split: option.splits)
next
  case 22
  then show ?case
    by (auto simp: memStore_ops_def memStore_ClearDeny_def Let_def split: option.splits)
next
  case 19
  then show ?case
    by (auto simp: memStore_ops_def memStore_ReadQuota_def split: option.splits)
next
  case (24 s ls ord c rs r)
  then show ?case by (auto simp: memStore_ops_def live_sessions_spec)
next
  case (25 s ls ord c rs k r)
  then have "Key r = k" by (simp add: mem_invD(2))
  with 25 show ?case by (auto simp: memStore_ops_def live_sessions_spec)
next
  case (26 s ls ord c rs)
  then show ?case by (auto simp: memStore_ops_def live_sessions_spec)
next
  case (27 s es ord c ers er)
  then show ?case by (auto simp: memStore_ops_def live_enriched_spec enrich_row_def Let_def)
next
  case (28 s es ord c ers k r)
  then have "Key r = k" and "memStore_LiveSessionsEnriched ord c s = Inr ers"
    by (simp_all add: memStore_ops_def mem_invD(2))
  with 28 have "enrich_row s (Key r) r \<in> set ers"
    by (auto simp: live_enriched_spec)
  then show ?case by (force simp: enrich_row_def Let_def)
next
  case (29 s es ord c ers)
  then show ?case by (auto simp: memStore_ops_def live_enriched_spec)
qed (auto simp: memStore_ops_def memStore_LookupSession_def mem_invD split: option.splits)

interpretation mem: responsive_store memStore_ops mem_inv rows quota_at "\<lambda>q. q" mem_killed mem_denied
proof (unfold_locales, goal_cases)
  case 1
  then show ?case by (auto simp: memStore_ops_def memStore_Release_def Let_def)
next
  case 2
  then show ?case by (auto simp: memStore_ops_def memStore_Charge_def Let_def)
next
  case 3
  then show ?case by (auto simp: memStore_ops_def memStore_Charge_def Let_def)
next
  case (4 s d q l c)
  then show ?case by (cases c) (auto simp: memStore_ops_def memStore_Charge_def ctxErr_def Let_def)
next
  case (5 s c k t ow)
  then show ?case
    by (auto simp: memStore_ops_def memStore_Reserve_def reserve_deny_check_def reserve_insert_def
        is_live_iff Let_def split: option.splits)
next
  case 6
  then show ?case by (auto simp: memStore_ops_def memStore_ReadQuota_def)
next
  case 9
  then show ?case by (auto simp: memStore_ops_def memStore_SetDeny_def Let_def)
qed (auto simp: memStore_ops_def memStore_LookupSession_def memStore_LiveSessions_def)

subsection \<open>What the store guarantees\<close>

text \<open>
  C22: In every store the daemon can reach, no two rows carry the same container name: the bind is
  global and unique, however reservations, binds, releases and re-reservations were interleaved.
\<close>

theorem reachable_names_unique:
  assumes "mem_reachable m" and "rows m k = Some r" and "rows m k' = Some r'"
    and "ContainerName r = ContainerName r'" and "ContainerName r \<noteq> ''''"
  shows "k = k'"
  by (rule mem.name_unique [OF mem_reachable_inv [OF assms(1)] assms(2-5)])

text \<open>The store after one session of the caller \<open>a\<close> of the tenant \<open>t\<close> is reserved and bound.\<close>

abbreviation owner_ta :: Identity where "owner_ta \<equiv> \<lparr>Tenant = ''t'', Caller = ''a''\<rparr>"

definition demo_bound :: memStore where
  "demo_bound = snd (memStore_BindContainerName False ''k1'' owner_ta ''c1'' ''''
     (snd (memStore_Reserve 5 False ''k1'' owner_ta NewInMemory)))"

lemma demo_bound_reachable: "mem_reachable demo_bound"
  unfolding demo_bound_def
  by (rule mr_step [OF mr_step [OF mr_init st_reserve] st_bind]) (rule prod.collapse [symmetric])+

lemma demo_bound_rows:
  "rows demo_bound =
     [''k1'' \<mapsto> \<lparr>Key = ''k1'', Owner = owner_ta, State = StateReserved, ContainerName = ''c1'', SockDirRoot = ''''\<rparr>]"
  by (simp add: demo_bound_def memStore_mutator_defs NewInMemory_def Let_def)

lemma demo_bound_row:
  "rows demo_bound ''k1'' =
     Some \<lparr>Key = ''k1'', Owner = owner_ta, State = StateReserved, ContainerName = ''c1'', SockDirRoot = ''''\<rparr>"
  by (simp add: demo_bound_rows)

theorem reachable_names_unique_witness:
  "mem_reachable demo_bound \<and> ContainerName (the (rows demo_bound ''k1'')) = ''c1'' \<and> ''k1'' = ''k1''"
  using reachable_names_unique [OF demo_bound_reachable demo_bound_row demo_bound_row]
    demo_bound_reachable demo_bound_row by simp

text \<open>
  The life of one row, as the documentation of \<open>SessionState\<close> tells it: RESERVED, then ACTIVE, then
  the RELEASED tombstone; a container name taken once; a tombstone reserved afresh.
\<close>

inductive row_next :: "string \<Rightarrow> SessionRow \<Rightarrow> SessionRow \<Rightarrow> bool" for k where
  rn_stay: "row_next k r r"
| rn_commit: "State r = StateReserved \<Longrightarrow> row_next k r (r\<lparr>State := StateActive\<rparr>)"
| rn_bind: "State r \<noteq> StateReleased \<Longrightarrow> ContainerName r = '''' \<Longrightarrow>
     row_next k r (r\<lparr>ContainerName := n, SockDirRoot := d\<rparr>)"
| rn_release: "State r \<noteq> StateReleased \<Longrightarrow> row_next k r (r\<lparr>State := StateReleased\<rparr>)"
| rn_reserve: "State r = StateReleased \<Longrightarrow> row_next k r (reserved_row k ow)"

inductive_cases row_nextE: "row_next k r r'"

lemma row_next_name: "row_next k r r' \<Longrightarrow> is_live r \<Longrightarrow> ContainerName r \<noteq> '''' \<Longrightarrow>
    ContainerName r' = ContainerName r"
  by (auto elim: row_nextE simp: is_live_iff)

text \<open>
  C23: A row is never deleted and moves only forwards: every step of the store takes every row along
  the life \<open>row_next\<close> describes, and a live row that has a container name keeps it.
\<close>

theorem row_transitions:
  assumes "mem_step m m'" and "rows m k = Some r"
  shows "\<exists>r'. rows m' k = Some r' \<and> row_next k r r' \<and>
    (is_live r \<and> ContainerName r \<noteq> '''' \<longrightarrow> ContainerName r' = ContainerName r)"
proof -
  from assms have "\<exists>r'. rows m' k = Some r' \<and> row_next k r r'"
  proof (induction rule: mem_step.induct)
    case (st_reserve now c k' ow m x m')
    then show ?case
      by (auto simp: memStore_Reserve_def reserve_insert_def Let_def row_next.intros
          split: option.splits if_splits)
  next
    case (st_insert now k' ow m x m')
    then show ?case
      by (auto simp: reserve_insert_def Let_def row_next.intros
          split: option.splits if_splits)
  next
    case (st_commit c k' ow m x m')
    then show ?case
      by (auto simp: memStore_Commit_def Let_def row_next.intros
          split: option.splits if_splits)
  next
    case (st_bind c k' ow n sd m x m')
    then show ?case
      by (auto simp: memStore_BindContainerName_def Let_def row_next.intros
          split: option.splits if_splits)
  next
    case (st_release c k' ow m x m')
    then show ?case
      by (auto simp: memStore_Release_def Let_def row_next.intros
          split: option.splits if_splits)
  qed (auto simp: memStore_RecordActivation_def memStore_TouchActivity_def memStore_SetDeny_def
        memStore_ClearDeny_def memStore_Charge_def Let_def rn_stay
        split: option.splits if_splits)
  then show ?thesis using row_next_name by blast
qed

theorem row_transitions_witness:
  "\<exists>m'. mem_step demo_bound m' \<and> State (the (rows m' ''k1'')) = StateReleased \<and>
        ContainerName (the (rows m' ''k1'')) = ''c1''"
proof -
  define m' where "m' = snd (memStore_Release False ''k1'' owner_ta demo_bound)"
  have step: "mem_step demo_bound m'"
    unfolding m'_def by (rule st_release, rule prod.collapse [symmetric])
  have "rows m' ''k1'' = Some \<lparr>Key = ''k1'', Owner = owner_ta, State = StateReleased,
      ContainerName = ''c1'', SockDirRoot = ''''\<rparr>"
    by (simp add: m'_def memStore_Release_def demo_bound_row Let_def)
  with row_transitions [OF step demo_bound_row] step show ?thesis by auto
qed

text \<open>
  \<open>Reserve\<close> refuses in the fail-closed order (context, kill-switch, denylist, live row), a
  refusal leaves the whole store as it was, and a success writes exactly one RESERVED row, touching
  no counter, no deny entry and no other row.
\<close>

theorem reserve_outcome:
  "case memStore_Reserve now c k ow m of (x, m') \<Rightarrow>
     x = (if c then Inl [ErrStoreUnavailable, CtxErr]
          else if mem_killed m then Inl [ErrKillSwitchEngaged]
          else if mem_denied m k then Inl [ErrSessionDenied]
          else if \<exists>r. rows m k = Some r \<and> is_live r then Inl [ErrReservationExists]
          else Inr (reserved_row k ow)) \<and>
     (if isl x then m' = m
      else rows m' = (rows m)(k \<mapsto> reserved_row k ow) \<and> deny m' = deny m \<and> quota m' = quota m)"
  by (cases "rows m k")
    (auto simp: memStore_Reserve_def reserve_deny_check_def reserve_insert_def ctxErr_def is_live_iff
      Let_def)

subsection \<open>Counters and the deny posture\<close>

text \<open>A sequence of charges and refunds of one cell under one limit.\<close>

fun charge_run :: "QuotaKey \<Rightarrow> int \<Rightarrow> (ctx \<times> int) list \<Rightarrow> memStore \<Rightarrow> memStore" where
  "charge_run q l [] m = m"
| "charge_run q l ((c, d) # ds) m = charge_run q l ds (snd (memStore_Charge c q d l m))"

lemma charge_within:
  assumes "0 \<le> quota_at m q" and "quota_at m q \<le> l" and "l \<le> int64_max"
    and "int64_min \<le> d" and "d \<le> int64_max - l"
  shows "0 \<le> quota_at (snd (memStore_Charge c q d l m)) q \<and>
         quota_at (snd (memStore_Charge c q d l m)) q \<le> l"
proof -
  have "is_int64 (quota_at m q + d)" using assms by (simp add: int64_min_def int64_max_def)
  then show ?thesis
    using assms by (auto simp: memStore_Charge_def Let_def quota_at_def split: option.splits)
qed

text \<open>
  C32: A counter never leaves the range its limit allows: whatever sequence of charges and refunds
  is applied to a cell under one limit, by contexts that may or may not be done, a cell that starts
  between zero and the limit stays there, as long as no delta is large enough to overflow
  \<open>int64\<close>.
\<close>

theorem charge_run_bounded:
  assumes "0 \<le> quota_at m q" and "quota_at m q \<le> l" and "l \<le> int64_max"
    and "\<forall>x \<in> set ds. int64_min \<le> snd x \<and> snd x \<le> int64_max - l"
  shows "0 \<le> quota_at (charge_run q l ds m) q \<and> quota_at (charge_run q l ds m) q \<le> l"
  using assms
proof (induction q l ds m rule: charge_run.induct)
  case (2 q l c d ds m)
  from "2.prems" charge_within [of m q l d c]
  have "0 \<le> quota_at (snd (memStore_Charge c q d l m)) q \<and> quota_at (snd (memStore_Charge c q d l m)) q \<le> l"
    by simp
  with "2.IH" "2.prems"(3,4) show ?case by simp
qed simp
abbreviation conc_ta :: QuotaKey where
  "conc_ta \<equiv> \<lparr>Dim = DimConcurrentSessions, Billed = owner_ta, Window = ''''\<rparr>"

theorem charge_run_bounded_witness:
  "quota_at (charge_run conc_ta 2 [(False, 1), (False, 1), (False, 1), (True, -1)] NewInMemory) conc_ta = 2
   \<and> 0 \<le> quota_at (charge_run conc_ta 2 [(False, 1), (False, 1), (False, 1), (True, -1)] NewInMemory) conc_ta"
proof -
  have "quota_at (charge_run conc_ta 2 [(False, 1), (False, 1), (False, 1), (True, -1)] NewInMemory) conc_ta = 2"
    by (simp add: memStore_Charge_def NewInMemory_def quota_at_def Let_def ctxErr_def
        int64_min_def int64_max_def)
  moreover have "quota_at NewInMemory conc_ta = 0" by (simp add: NewInMemory_def quota_at_def)
  ultimately show ?thesis
    using charge_run_bounded [of NewInMemory conc_ta 2 "[(False, 1), (False, 1), (False, 1), (True, -1)]"]
    by (simp add: int64_min_def int64_max_def)
qed

text \<open>
  The guard of \<open>Charge\<close> is computed in wrapping \<open>int64\<close> arithmetic: a positive delta that carries
  the sum past the largest \<open>int64\<close> is admitted under every limit and leaves the counter negative,
  although the interface promises that the counter never goes past the limit nor below zero.
\<close>

theorem charge_overflow_admitted:
  assumes "\<not> c" and "0 < quota_at m q" and "quota_at m q \<le> int64_max" and "0 \<le> l"
    and "int64_max - quota_at m q < d" and "d \<le> int64_max"
  shows "\<exists>v m'. memStore_Charge c q d l m = (Inr v, m') \<and> v < 0 \<and> quota_at m' q = v"
proof -
  have "wrap64 (quota_at m q + d) = quota_at m q + d - 2 ^ 64"
    by (rule wrap64_overflow) (use assms in auto)
  moreover have "quota_at m q + d - 2 ^ 64 < 0"
    using assms by (simp add: int64_max_def)
  ultimately show ?thesis
    using assms by (simp add: memStore_Charge_def Let_def quota_at_def int64_max_def)
qed

theorem charge_overflow_admitted_witness:
  "\<exists>v m'. memStore_Charge False conc_ta int64_max 10
      (NewInMemory\<lparr>quota := [conc_ta \<mapsto> 1]\<rparr>) = (Inr v, m') \<and> v < 0 \<and> quota_at m' conc_ta = v"
  by (rule charge_overflow_admitted) (simp_all add: quota_at_def NewInMemory_def int64_max_def)

text \<open>
  The counter cells of the in-memory store are finer than the scope the counters are billed to.
  Two sessions of one tenant, created by different callers, have one scope id
  (\<open>quotaScopeID\<close>, which the durable store keys its rows by) but two cells here, so a limit of
  \<open>L\<close> concurrent sessions per tenant admits \<open>L\<close> for each caller.
\<close>

theorem tenant_cap_is_per_caller:
  assumes "a \<noteq> b" and "0 < l" and "l \<le> int64_max"
    and "\<And>x. quota_at m \<lparr>Dim = DimConcurrentSessions, Billed = \<lparr>Tenant = t, Caller = x\<rparr>, Window = ''''\<rparr> < l"
    and "\<And>x. 0 \<le> quota_at m \<lparr>Dim = DimConcurrentSessions, Billed = \<lparr>Tenant = t, Caller = x\<rparr>, Window = ''''\<rparr>"
  shows "\<exists>p q v1 v2 m1 m2. p = \<lparr>Dim = DimConcurrentSessions, Billed = \<lparr>Tenant = t, Caller = a\<rparr>, Window = ''''\<rparr>
     \<and> q = \<lparr>Dim = DimConcurrentSessions, Billed = \<lparr>Tenant = t, Caller = b\<rparr>, Window = ''''\<rparr>
     \<and> quotaScopeID p = quotaScopeID q
     \<and> memStore_Charge False p (l - quota_at m p) l m = (Inr v1, m1)
     \<and> memStore_Charge False q (l - quota_at m q) l m1 = (Inr v2, m2)
     \<and> quota_at m2 p + quota_at m2 q = 2 * l"
proof -
  define p where "p = \<lparr>Dim = DimConcurrentSessions, Billed = \<lparr>Tenant = t, Caller = a\<rparr>, Window = ''''\<rparr>"
  define q where "q = \<lparr>Dim = DimConcurrentSessions, Billed = \<lparr>Tenant = t, Caller = b\<rparr>, Window = ''''\<rparr>"
  have pq: "p \<noteq> q" using assms(1) by (simp add: p_def q_def)
  have l: "wrap64 l = l" using assms(2,3) by (simp add: int64_min_def)
  have "quota_at m p < l" "quota_at m q < l" using assms(4) by (simp_all add: p_def q_def)
  then have "memStore_Charge False p (l - quota_at m p) l m = (Inr l, m\<lparr>quota := (quota m)(p \<mapsto> l)\<rparr>)"
    and "memStore_Charge False q (l - quota_at m q) l (m\<lparr>quota := (quota m)(p \<mapsto> l)\<rparr>) =
      (Inr l, m\<lparr>quota := (quota m)(p \<mapsto> l, q \<mapsto> l)\<rparr>)"
    using pq l by (simp_all add: memStore_Charge_def Let_def quota_at_def)
  moreover have "quotaScopeID p = quotaScopeID q"
    by (simp add: quotaScopeID_iff billed_id_def p_def q_def)
  moreover have "quota_at (m\<lparr>quota := (quota m)(p \<mapsto> l, q \<mapsto> l)\<rparr>) p
      + quota_at (m\<lparr>quota := (quota m)(p \<mapsto> l, q \<mapsto> l)\<rparr>) q = 2 * l"
    using pq by (simp add: quota_at_def)
  ultimately show ?thesis using p_def q_def by blast
qed

theorem tenant_cap_is_per_caller_witness:
  "\<exists>p q v1 v2 m1 m2. quotaScopeID p = quotaScopeID q
     \<and> memStore_Charge False p 1 1 NewInMemory = (Inr v1, m1)
     \<and> memStore_Charge False q 1 1 m1 = (Inr v2, m2) \<and> quota_at m2 p + quota_at m2 q = 2"
  using tenant_cap_is_per_caller [of "''a''" "''b''" 1 NewInMemory "''t''"]
  by (fastforce simp: NewInMemory_def quota_at_def int64_max_def)

lemma deny_frame [frame_simps]:
  "deny (snd (memStore_Reserve now c k ow m)) = deny m"
  "deny (snd (reserve_insert now k ow m)) = deny m"
  "deny (snd (memStore_Commit c k ow m)) = deny m"
  "deny (snd (memStore_BindContainerName c k ow n sd m)) = deny m"
  "deny (snd (memStore_Release c k ow m)) = deny m"
  "deny (snd (memStore_RecordActivation c k cp t m)) = deny m"
  "deny (snd (memStore_TouchActivity c k t m)) = deny m"
  "deny (snd (memStore_Charge c q d l m)) = deny m"
  by (simp_all add: memStore_mutator_defs memStore_Reserve_def reserve_insert_def Let_def
      split: option.split)

lemma mem_step_deny:
  "mem_step m m' \<Longrightarrow> deny m' d = Some en \<Longrightarrow> deny m d = Some en \<or> (Scope en = ScopeGlobal \<longrightarrow> DenyKey en = '''')"
proof (induction rule: mem_step.induct)
  case (st_set_deny c e m y m')
  then show ?case
    by (auto simp: memStore_SetDeny_def Let_def split: option.splits if_splits)
next
  case (st_clear_deny c sc k m y m')
  then show ?case
    by (auto simp: memStore_ClearDeny_def Let_def split: option.splits if_splits)
qed (metis deny_frame snd_conv)+

lemma global_key_empty:
  "mem_reachable m \<Longrightarrow> deny m d = Some en \<Longrightarrow> Scope en = ScopeGlobal \<Longrightarrow> DenyKey en = ''''"
proof (induction arbitrary: d en rule: mem_reachable.induct)
  case (mr_step m m')
  then show ?case using mem_step_deny by blast
qed (simp add: NewInMemory_def)

text \<open>
  What \<open>LoadDeny\<close> reads back is exactly the posture \<open>Reserve\<close> enforces: the list holds a global
  entry if and only if the kill-switch is engaged, and a session entry for a key if and only if the
  key is denylisted. This is what lets a boot re-engage the posture from the stored entries.
\<close>

theorem load_deny_is_posture:
  assumes "mem_reachable m" and "dom (deny m) \<subseteq> set ord" and "memStore_LoadDeny ord c m = Inr es"
  shows "((\<exists>en \<in> set es. Scope en = ScopeGlobal) = mem_killed m) \<and>
    ((\<exists>en \<in> set es. Scope en = ScopeSession \<and> DenyKey en = k) = mem_denied m k)"
proof -
  have key: "d = denyKey (Scope en) (DenyKey en)" if "deny m d = Some en" for d en
    using mem_invD(5) [OF mem_reachable_inv [OF assms(1)]] that .
  have "en \<in> set es \<longleftrightarrow> (\<exists>d. deny m d = Some en)" for en
    using assms(2,3) by (fastforce simp: memStore_LoadDeny_def in_map_filter split: option.splits)
  then have listed: "en \<in> set es \<longleftrightarrow> deny m (denyKey (Scope en) (DenyKey en)) = Some en" for en
    using key by blast
  have found: "Scope en = sc \<and> DenyKey en = k'" if "deny m (denyKey sc k') = Some en" for en sc k'
    using key [OF that] by simp
  have "(\<exists>en \<in> set es. Scope en = ScopeSession \<and> DenyKey en = k) \<longleftrightarrow> mem_denied m k"
    using listed found [of ScopeSession k] by (metis not_None_eq)
  moreover have "(\<exists>en \<in> set es. Scope en = ScopeGlobal) \<longleftrightarrow> mem_killed m"
    using listed found [of ScopeGlobal "''''"] global_key_empty [OF assms(1)] by (metis not_None_eq)
  ultimately show ?thesis by simp
qed

theorem load_deny_is_posture_witness:
  "\<exists>en m. memStore_SetDeny False en NewInMemory = (None, m) \<and> \<not> mem_killed m \<and> mem_denied m ''k''"
proof -
  define en where "en = \<lparr>Scope = ScopeSession, DenyKey = ''k'', Reason = '''', Since = 0\<rparr>"
  define m where "m = NewInMemory\<lparr>deny := [denyKey ScopeSession ''k'' \<mapsto> en]\<rparr>"
  have set: "memStore_SetDeny False en NewInMemory = (None, m)"
    by (simp add: memStore_SetDeny_def en_def m_def NewInMemory_def)
  have "mem_reachable m"
    by (rule mr_step [OF mr_init st_set_deny [OF set]])
  moreover have "dom (deny m) \<subseteq> set [denyKey ScopeSession ''k'']" by (simp add: m_def)
  moreover have "memStore_LoadDeny [denyKey ScopeSession ''k''] False m = Inr [en]"
    by (simp add: memStore_LoadDeny_def m_def List.map_filter_def)
  ultimately have "((\<exists>e \<in> set [en]. Scope e = ScopeGlobal) = mem_killed m) \<and>
    ((\<exists>e \<in> set [en]. Scope e = ScopeSession \<and> DenyKey e = ''k'') = mem_denied m ''k'')"
    by (rule load_deny_is_posture)
  then have "\<not> mem_killed m \<and> mem_denied m ''k''" by (simp add: en_def)
  with set show ?thesis by blast
qed

end
