(* ===== verification/Quota.thy ===== *)
theory Quota
  imports MemStore Ctl_World
begin

text \<open>
  The create-time quota gate of \<open>internal/quota/quota.go\<close>, written against the store interface:
  the window labels, the two charges of a create with the refund of the first when the second is
  refused, the receipt that reverses them, and the single decrement and the boot-time heal of the
  concurrency counter.
\<close>

subsection \<open>Window labels\<close>

text \<open>
  \<open>Time.UTC().Format\<close> on the two layouts the package uses. The date is the proleptic Gregorian date
  of a day counted from 0001-01-01, as the standard library computes it: cut off the 400-year,
  100-year, 4-year and single-year cycles, then walk the months.
\<close>

definition year_yday :: "nat \<Rightarrow> nat \<times> nat" where
  "year_yday d =
     (let n400 = d div 146097; d1 = d mod 146097;
          n100 = min 3 (d1 div 36524); d2 = d1 - 36524 * n100;
          n4 = d2 div 1461; d3 = d2 mod 1461;
          n1 = min 3 (d3 div 365); yday = d3 - 365 * n1
      in (400 * n400 + 100 * n100 + 4 * n4 + n1 + 1, yday))"

definition is_leap :: "nat \<Rightarrow> bool" where
  "is_leap y \<longleftrightarrow> 4 dvd y \<and> (\<not> 100 dvd y \<or> 400 dvd y)"

definition month_lengths :: "nat \<Rightarrow> nat list" where
  "month_lengths y = [31, if is_leap y then 29 else 28, 31, 30, 31, 30, 31, 31, 30, 31, 30]"

fun month_mday :: "nat list \<Rightarrow> nat \<Rightarrow> nat \<times> nat" where
  "month_mday [] d = (1, d + 1)"
| "month_mday (l # ls) d =
     (if d < l then (1, d + 1) else case month_mday ls (d - l) of (m, md) \<Rightarrow> (m + 1, md))"

definition pad :: "nat \<Rightarrow> nat \<Rightarrow> string" where
  "pad w n = replicate (w - length (dec n)) CHR ''0'' @ dec n"

definition format_date :: "nat \<Rightarrow> string" where
  "format_date d =
     (case year_yday d of (y, yday) \<Rightarrow>
      case month_mday (month_lengths y) yday of (m, md) \<Rightarrow>
        pad 4 y @ ''-'' @ pad 2 m @ ''-'' @ pad 2 md)"

definition nanosPerMinute :: int where "nanosPerMinute = 60 * 1000000000"
definition nanosPerDay :: int where "nanosPerDay = 86400 * 1000000000"

text \<open>Both truncations are exact on the instants after the zero time, which is where clocks are.\<close>

definition minuteWindow :: "time \<Rightarrow> string" where
  "minuteWindow now =
     (let n = nat (now div nanosPerMinute); mins = n mod 1440
      in format_date (n div 1440) @ ''T'' @ pad 2 (mins div 60) @ '':'' @ pad 2 (mins mod 60) @ ''Z'')"

definition dayWindow :: "time \<Rightarrow> string" where
  "dayWindow now = format_date (nat (now div nanosPerDay)) @ ''Z''"

subsection \<open>Limits, receipts, the gate\<close>

record Limits =
  ConcurrentSessionsPerTenant :: int
  MCPCallsPerMinPerTenant :: int
  StorageGBPerTenant :: int
  EgressBytesPerDayPerTenant :: int
  CreateRatePerCallerPerMin :: int

record Charged =
  ChKey :: QuotaKey
  Delta :: int

text \<open>A receipt is its recorded cells, in charge order; the nil receipt behaves as the empty one.\<close>

record Receipt =
  charged :: "Charged list"

abbreviation rate_key :: "Identity \<Rightarrow> time \<Rightarrow> QuotaKey" where
  "rate_key ident now \<equiv> \<lparr>Dim = DimCallerCreateRate, Billed = ident, Window = minuteWindow now\<rparr>"

abbreviation conc_key :: "Identity \<Rightarrow> QuotaKey" where
  "conc_key ident \<equiv> \<lparr>Dim = DimConcurrentSessions, Billed = ident, Window = ''''\<rparr>"

fun refund_cells ::
  "'s Store \<Rightarrow> 'x clockctx_scheme \<Rightarrow> Charged list \<Rightarrow> err option \<Rightarrow> ('s, 'e) world \<Rightarrow> err option \<times> ('s, 'e) world" where
  "refund_cells S E [] firstErr w = (firstErr, w)"
| "refund_cells S E (c # cs) firstErr w =
     (case st_call (e_bg E) (\<lambda>cx. Charge S cx (ChKey c) (- Delta c) 0) w of
        (Inl e, w') \<Rightarrow> refund_cells S E cs (if firstErr = None then Some e else firstErr) w'
      | (Inr _, w') \<Rightarrow> refund_cells S E cs firstErr w')"

definition Receipt_Apply ::
  "'s Store \<Rightarrow> 'x clockctx_scheme \<Rightarrow> Receipt \<Rightarrow> ('s, 'e) world \<Rightarrow> err option \<times> Receipt \<times> ('s, 'e) world" where
  "Receipt_Apply S E r w =
     (if charged r = [] then (None, r, w)
      else case refund_cells S E (rev (charged r)) None w of (e, w') \<Rightarrow> (e, r\<lparr>charged := []\<rparr>, w'))"

definition refundOne :: "'s Store \<Rightarrow> 'x clockctx_scheme \<Rightarrow> QuotaKey \<Rightarrow> ('s, 'e) world \<Rightarrow> ('s, 'e) world" where
  "refundOne S E key w = snd (st_call (e_bg E) (\<lambda>cx. Charge S cx key (- 1) 0) w)"

definition Gate_ChargeCreate ::
  "'s Store \<Rightarrow> 'x clockctx_scheme \<Rightarrow> Limits \<Rightarrow> Identity \<Rightarrow> ('s, 'e) world \<Rightarrow> Receipt result \<times> ('s, 'e) world" where
  "Gate_ChargeCreate S E limits ident w =
     (let rateKey = rate_key ident (e_now E (step w)) in
      case st_call (e_ctx E) (\<lambda>cx. Charge S cx rateKey 1 (CreateRatePerCallerPerMin limits)) w of
        (Inl e, w1) \<Rightarrow> (Inl (wrap_with ErrCreateRateDimension e), w1)
      | (Inr _, w1) \<Rightarrow>
          let concKey = conc_key ident in
          case st_call (e_ctx E) (\<lambda>cx. Charge S cx concKey 1 (ConcurrentSessionsPerTenant limits)) w1 of
            (Inl e, w2) \<Rightarrow> (Inl (wrap_with ErrConcurrentDimension e), refundOne S E rateKey w2)
          | (Inr _, w2) \<Rightarrow>
              (Inr \<lparr>charged = [\<lparr>ChKey = rateKey, Delta = 1\<rparr>, \<lparr>ChKey = concKey, Delta = 1\<rparr>]\<rparr>, w2))"

definition Gate_RefundConcurrent ::
  "'s Store \<Rightarrow> 'x clockctx_scheme \<Rightarrow> Identity \<Rightarrow> ('s, 'e) world \<Rightarrow> err option \<times> ('s, 'e) world" where
  "Gate_RefundConcurrent S E ident w =
     (case st_call (e_bg E) (\<lambda>cx. Charge S cx (conc_key ident) (- 1) 0) w of
        (Inl e, w') \<Rightarrow> (Some e, w') | (Inr _, w') \<Rightarrow> (None, w'))"

definition Gate_ReconcileConcurrent ::
  "'s Store \<Rightarrow> 'x clockctx_scheme \<Rightarrow> Identity \<Rightarrow> int \<Rightarrow> ('s, 'e) world \<Rightarrow> int result \<times> ('s, 'e) world" where
  "Gate_ReconcileConcurrent S E ident liveCount w =
     (case st_read (e_ctx E) (\<lambda>cx. ReadQuota S cx (conc_key ident)) w of
        (Inl e, w1) \<Rightarrow> (Inl e, w1)
      | (Inr current, w1) \<Rightarrow>
          let surplus = wrap64 (current - liveCount) in
          if surplus \<le> 0 then (Inr 0, w1)
          else case st_call (e_ctx E) (\<lambda>cx. Charge S cx (conc_key ident) (- surplus) 0) w1 of
                 (Inl e, w2) \<Rightarrow> (Inl e, w2) | (Inr _, w2) \<Rightarrow> (Inr surplus, w2))"

subsection \<open>Labels name minutes and days\<close>

lemma undec_zeros: "undec (replicate k CHR ''0'' @ cs) = undec cs"
  by (induction k) (simp_all add: undec_def)

lemma pad_inject [simp]: "pad w m = pad w n \<longleftrightarrow> m = n"
  using undec_zeros by (metis pad_def undec_dec)

lemma pad_digits: "c \<in> set (pad w n) \<Longrightarrow> is_digit c"
  by (auto simp: pad_def is_digit_def dest: dec_digits)

lemma pad_append_inject:
  assumes "\<not> is_digit x" and "pad w m @ x # r = pad w n @ x # r'"
  shows "m = n \<and> r = r'"
  using digits_append_inject [OF pad_digits pad_digits assms] by simp

lemma year_yday_inverse:
  assumes "year_yday d = (y, yday)"
  shows "d = (y - 1) div 400 * 146097 + (y - 1) div 100 mod 4 * 36524 + (y - 1) div 4 mod 25 * 1461
    + (y - 1) mod 4 * 365 + yday"
proof -
  define n400 d1 where "n400 = d div 146097" and "d1 = d mod 146097"
  define n100 where "n100 = min 3 (d1 div 36524)"
  define d2 where "d2 = d1 - 36524 * n100"
  define n4 d3 where "n4 = d2 div 1461" and "d3 = d2 mod 1461"
  define n1 where "n1 = min 3 (d3 div 365)"
  have d1: "d1 < 146097" by (simp add: d1_def)
  have n100: "n100 \<le> 3" "36524 * n100 \<le> d1"
    using div_times_less_eq_dividend [of d1 36524] by (auto simp: n100_def min_def)
  have "d1 < 36524 * Suc n100 \<or> n100 = 3"
    using dividend_less_div_times [of 36524 d1] by (simp add: n100_def min_def)
  then have d2: "d1 = 36524 * n100 + d2" "d2 \<le> 36524"
    using n100 d1 by (auto simp: d2_def)
  have "36524 div 1461 = (24::nat)" by simp
  then have n4: "n4 \<le> 24" using div_le_mono [OF d2(2), of 1461] by (simp add: n4_def)
  have n1: "n1 \<le> 3" "365 * n1 \<le> d3"
    using div_times_less_eq_dividend [of d3 365] by (auto simp: n1_def min_def)
  have "year_yday d = (400 * n400 + 100 * n100 + 4 * n4 + n1 + 1, d3 - 365 * n1)"
    by (simp only: year_yday_def Let_def n400_def d1_def n100_def d2_def n4_def d3_def n1_def)
  with assms have y: "y - 1 = 400 * n400 + 100 * n100 + 4 * n4 + n1" and yd: "yday = d3 - 365 * n1"
    by auto
  have "(y - 1) div 400 = n400" "(y - 1) div 100 = 4 * n400 + n100"
    "(y - 1) div 4 = 25 * (4 * n400 + n100) + n4"
    using n100(1) n4 n1(1) unfolding y by (auto intro!: div_nat_eqI)
  moreover obtain k where "y - 1 = 4 * k + n1" using y that [of "25 * (4 * n400 + n100) + n4"] by simp
  then have "(y - 1) mod 4 = n1" using n1(1) by simp
  moreover obtain j where "(y - 1) div 4 = 25 * j + n4" using calculation(3) by blast
  then have "(y - 1) div 4 mod 25 = n4" using n4 by simp
  moreover have "d = n400 * 146097 + d1" "d2 = n4 * 1461 + d3"
    by (simp_all add: n400_def d1_def n4_def d3_def)
  ultimately show ?thesis using d2 n100(1) n1 yd by simp
qed

lemma year_yday_inject: "year_yday a = year_yday b \<Longrightarrow> a = b"
  using year_yday_inverse by (cases "year_yday a") metis

lemma month_mday_inverse: "month_mday ls d = (m, md) \<Longrightarrow> 1 \<le> m \<and> d + 1 = sum_list (take (m - 1) ls) + md"
proof (induction ls d arbitrary: m md rule: month_mday.induct)
  case (2 l ls d)
  show ?case
  proof (cases "d < l")
    case False
    obtain m' md' where rest: "month_mday ls (d - l) = (m', md')" by fastforce
    with 2 False have "1 \<le> m'" and "d - l + 1 = sum_list (take (m' - 1) ls) + md'" by simp_all
    moreover have "m = m' + 1" "md = md'" using 2(2) False rest by simp_all
    ultimately show ?thesis using False by (cases m') simp_all
  qed (use 2 in simp)
qed simp

lemma format_date_inject:
  assumes "format_date a @ x # r = format_date b @ x # r'" and "\<not> is_digit x"
  shows "a = b \<and> r = r'"
proof -
  obtain y yday m md where a: "year_yday a = (y, yday)" "month_mday (month_lengths y) yday = (m, md)"
    by (metis surj_pair)
  obtain y' yday' m' md' where b: "year_yday b = (y', yday')" "month_mday (month_lengths y') yday' = (m', md')"
    by (metis surj_pair)
  have dash: "\<not> is_digit CHR ''-''" by (simp add: is_digit_def)
  have "pad 4 y @ CHR ''-'' # pad 2 m @ CHR ''-'' # pad 2 md @ x # r
      = pad 4 y' @ CHR ''-'' # pad 2 m' @ CHR ''-'' # pad 2 md' @ x # r'"
    using assms(1) a b by (simp add: format_date_def)
  note y = pad_append_inject [OF dash this]
  note m = pad_append_inject [OF dash conjunct2 [OF y]]
  note md = pad_append_inject [OF assms(2) conjunct2 [OF m]]
  from y m md have "y = y'" "m = m'" "md = md'" "r = r'" by simp_all
  moreover from this have "yday = yday'"
    using month_mday_inverse [OF a(2)] month_mday_inverse [OF b(2)] by simp
  ultimately show ?thesis
    using year_yday_inject [of a b] a(1) b(1) by simp
qed

text \<open>The layout on the reference time of the Go \<open>time\<close> package.\<close>

lemma digit_chars:
  "char_of (48::nat) = CHR ''0''" "char_of (49::nat) = CHR ''1''" "char_of (50::nat) = CHR ''2''"
  "char_of (51::nat) = CHR ''3''" "char_of (52::nat) = CHR ''4''" "char_of (53::nat) = CHR ''5''"
  "char_of (54::nat) = CHR ''6''" "char_of (55::nat) = CHR ''7''" "char_of (56::nat) = CHR ''8''"
  "char_of (57::nat) = CHR ''9''"
  by code_simp+

lemma minuteWindow_layout:
  "minuteWindow ((719162 * 86400 + 1136214240) * 1000000000 + 5) = ''2006-01-02T15:04Z''"
proof -
  have "year_yday 732312 = (2006, 1)" by (simp add: year_yday_def)
  moreover have "month_mday (month_lengths 2006) 1 = (1, 2)" by (simp add: month_lengths_def)
  moreover have "dec 1 = ''1''" "dec 2 = ''2''" "dec 4 = ''4''" "dec 15 = ''15''" "dec 2006 = ''2006''"
    by (simp_all add: dec.simps digit_chars)
  ultimately have "format_date 732312 = ''2006-01-02''" and "pad 2 15 = ''15''" and "pad 2 4 = ''04''"
    by (simp_all add: format_date_def pad_def)
  then show ?thesis by (simp add: minuteWindow_def nanosPerMinute_def)
qed

text \<open>
  A create-rate window is a minute and nothing else: two instants get the same label exactly
  when they fall in the same minute, over the whole calendar. So an allowance is never shared by
  two minutes, and never split within one.
\<close>

theorem minuteWindow_iff:
  assumes "0 \<le> t" and "0 \<le> t'"
  shows "minuteWindow t = minuteWindow t' \<longleftrightarrow> t div nanosPerMinute = t' div nanosPerMinute"
proof
  define n n' where "n = nat (t div nanosPerMinute)" and "n' = nat (t' div nanosPerMinute)"
  assume "minuteWindow t = minuteWindow t'"
  then have eq: "format_date (n div 1440) @ CHR ''T'' # pad 2 (n mod 1440 div 60) @ CHR '':'' # pad 2 (n mod 1440 mod 60) @ ''Z''
    = format_date (n' div 1440) @ CHR ''T'' # pad 2 (n' mod 1440 div 60) @ CHR '':'' # pad 2 (n' mod 1440 mod 60) @ ''Z''"
    by (simp add: minuteWindow_def Let_def n_def n'_def)
  have sep: "\<not> is_digit CHR ''T''" "\<not> is_digit CHR '':''" "\<not> is_digit CHR ''Z''"
    by (simp_all add: is_digit_def)
  have "n div 1440 = n' div 1440"
    and hm: "pad 2 (n mod 1440 div 60) @ CHR '':'' # pad 2 (n mod 1440 mod 60) @ ''Z''
      = pad 2 (n' mod 1440 div 60) @ CHR '':'' # pad 2 (n' mod 1440 mod 60) @ ''Z''"
    using format_date_inject [OF eq sep(1)] by simp_all
  moreover have "n mod 1440 div 60 = n' mod 1440 div 60" "n mod 1440 mod 60 = n' mod 1440 mod 60"
    using pad_append_inject [OF sep(2) hm] by simp_all
  ultimately have "n = n'" by (metis div_mult_mod_eq)
  then show "t div nanosPerMinute = t' div nanosPerMinute"
    using assms by (simp add: n_def n'_def nanosPerMinute_def pos_imp_zdiv_nonneg_iff eq_nat_nat_iff)
qed (simp add: minuteWindow_def)

theorem minuteWindow_iff_witness:
  "minuteWindow 59999999999 = minuteWindow 0 \<and> minuteWindow 60000000000 \<noteq> minuteWindow 0"
  using minuteWindow_iff [of 59999999999 0] minuteWindow_iff [of 60000000000 0]
  by (simp add: nanosPerMinute_def)

subsection \<open>The gate over any store that meets the contract\<close>

context store_contract
begin

lemma charge_up:
  assumes "inv s" and "0 \<le> cell s q" and "cell s q < int64_max" and "Charge S c q 1 l s = (Inr v, s')"
  shows "inv s' \<and> cell s q < l \<and> cell s' = cell_upd cell_id q (cell s q + 1) (cell s) \<and>
    row s' = row s \<and> killed s' = killed s \<and> denied s' = denied s"
proof -
  have "is_int64 (cell s q + 1)" using assms(2,3) by (simp add: int64_min_def)
  then show ?thesis
    using charge_ok [OF assms(1) _ assms(4)] by (auto simp: int64_min_def int64_max_def)
qed

lemma charge_down:
  assumes "inv s" and "d < 0" and "int64_min \<le> d" and "0 \<le> cell s q" and "Charge S c q d l s = (Inr v, s')"
  shows "inv s' \<and> cell s' = cell_upd cell_id q (max 0 (cell s q + d)) (cell s) \<and>
    row s' = row s \<and> killed s' = killed s \<and> denied s' = denied s"
proof -
  have range: "is_int64 d" "is_int64 (cell s q + d)"
    using cell_int64 [OF assms(1), of q] assms(2-4) by (simp_all add: int64_min_def int64_max_def)
  have "wrap64 (cell s q + d) = cell s q + d" using range(2) by simp
  then show ?thesis using charge_ok [OF assms(1) range(1) assms(5)] assms(2) by simp
qed

lemma cell_upd_same: "cell_upd cell_id q (cell s q) (cell s) = cell s"
  by (rule cell_upd_id) (rule cell_cong)

lemma rate_conc_distinct [simp]: "cell_id (rate_key a t) \<noteq> cell_id (conc_key b)"
  "cell_id (conc_key b) \<noteq> cell_id (rate_key a t)"
  using cell_scope [of "rate_key a t" "conc_key b"] cell_scope [of "conc_key b" "rate_key a t"] by auto

lemma charge_create_ok:
  assumes "inv (store w)" and "t = e_now E (step w)"
    and "\<forall>q \<in> {rate_key ow t, conc_key ow}. 0 \<le> cell (store w) q \<and> cell (store w) q < int64_max"
    and "Gate_ChargeCreate S E L ow w = (Inr rc, w')"
  shows "charged rc = [\<lparr>ChKey = rate_key ow t, Delta = 1\<rparr>, \<lparr>ChKey = conc_key ow, Delta = 1\<rparr>]
    \<and> inv (store w') \<and> log w' = log w \<and> step w' = step w + 2
    \<and> cell (store w') = cell_upd cell_id (conc_key ow) (cell (store w) (conc_key ow) + 1)
         (cell_upd cell_id (rate_key ow t) (cell (store w) (rate_key ow t) + 1) (cell (store w)))
    \<and> cell (store w) (rate_key ow t) < CreateRatePerCallerPerMin L
    \<and> cell (store w) (conc_key ow) < ConcurrentSessionsPerTenant L
    \<and> row (store w') = row (store w) \<and> killed (store w') = killed (store w)
    \<and> denied (store w') = denied (store w)"
proof -
  from assms(4) obtain v1 s1 v2 s2 where
    one: "Charge S (e_ctx E (step w)) (rate_key ow t) 1 (CreateRatePerCallerPerMin L) (store w) = (Inr v1, s1)"
    and two: "Charge S (e_ctx E (Suc (step w))) (conc_key ow) 1 (ConcurrentSessionsPerTenant L) s1 = (Inr v2, s2)"
    and rc: "charged rc = [\<lparr>ChKey = rate_key ow t, Delta = 1\<rparr>, \<lparr>ChKey = conc_key ow, Delta = 1\<rparr>]"
    and w': "w' = w\<lparr>store := s2, step := Suc (Suc (step w))\<rparr>"
    by (auto simp: Gate_ChargeCreate_def Let_def st_call_eq assms(2) split: prod.splits sum.splits)
  from charge_up [OF assms(1) _ _ one] assms(3) have s1: "inv s1"
    "cell s1 = cell_upd cell_id (rate_key ow t) (cell (store w) (rate_key ow t) + 1) (cell (store w))"
    "cell (store w) (rate_key ow t) < CreateRatePerCallerPerMin L"
    "row s1 = row (store w)" "killed s1 = killed (store w)" "denied s1 = denied (store w)"
    by simp_all
  with charge_up [OF s1(1) _ _ two] assms(3) rc w' show ?thesis by simp
qed

end

context responsive_store
begin

lemma charge_create_err:
  assumes "inv (store w)" and "t = e_now E (step w)"
    and "\<forall>q \<in> {rate_key ow t, conc_key ow}. 0 \<le> cell (store w) q \<and> cell (store w) q < int64_max"
    and "Gate_ChargeCreate S E L ow w = (Inl e, w')" and "\<not> e_bg E (step w + 2)"
  shows "inv (store w') \<and> log w' = log w \<and> cell (store w') = cell (store w)
    \<and> row (store w') = row (store w) \<and> killed (store w') = killed (store w)
    \<and> denied (store w') = denied (store w)"
proof (cases "Charge S (e_ctx E (step w)) (rate_key ow t) 1 (CreateRatePerCallerPerMin L) (store w)")
  case (Pair x s1)
  show ?thesis
  proof (cases x)
    case (Inl e1)
    have "s1 = store w" using charge_err [OF assms(1) Pair [unfolded Inl]] .
    then have "w' = w\<lparr>step := Suc (step w)\<rparr>"
      using assms(2,4) Pair Inl by (simp add: Gate_ChargeCreate_def Let_def st_call_def)
    then show ?thesis using assms(1) by simp
  next
    case (Inr v)
    with Pair assms(3) have c1: "inv s1"
      "cell s1 = cell_upd cell_id (rate_key ow t) (cell (store w) (rate_key ow t) + 1) (cell (store w))"
      "row s1 = row (store w)" "killed s1 = killed (store w)" "denied s1 = denied (store w)"
      using charge_up [OF assms(1) _ _ Pair [unfolded Inr]] by simp_all
    obtain e2 s2 where two: "Charge S (e_ctx E (Suc (step w))) (conc_key ow) 1 (ConcurrentSessionsPerTenant L) s1 = (Inl e2, s2)"
      and w': "w' = refundOne S E (rate_key ow t) (w\<lparr>store := s2, step := Suc (Suc (step w))\<rparr>)"
      using assms(2,4) Pair Inr
      by (auto simp: Gate_ChargeCreate_def Let_def st_call_def split: prod.splits sum.splits)
    have "s2 = s1" using charge_err [OF c1(1) two] .
    obtain v3 s3 where refund: "Charge S (e_bg E (step w + 2)) (rate_key ow t) (- 1) 0 s1 = (Inr v3, s3)"
      using refund_succeeds [OF c1(1) assms(5)] by fastforce
    have "inv s3 \<and> cell s3 = cell (store w) \<and> row s3 = row s1 \<and> killed s3 = killed s1 \<and> denied s3 = denied s1"
      using charge_down [OF c1(1) _ _ _ refund] assms(3)
      by (simp add: c1(2) int64_min_def cell_upd_same)
    then show ?thesis using w' refund c1 \<open>s2 = s1\<close> by (simp add: refundOne_def st_call_def)
  qed
qed

text \<open>A receipt that is applied puts both counters back, whatever the rows have become.\<close>

lemma receipt_apply:
  assumes "inv (store w)" and "charged rc = [\<lparr>ChKey = rate_key ow t, Delta = 1\<rparr>, \<lparr>ChKey = conc_key ow, Delta = 1\<rparr>]"
    and "0 \<le> cell (store w) (rate_key ow t)" and "0 \<le> cell (store w) (conc_key ow)"
    and "\<not> e_bg E (step w)" and "\<not> e_bg E (step w + 1)"
    and "Receipt_Apply S E rc w = (e, rc', w')"
  shows "e = None \<and> charged rc' = [] \<and> inv (store w') \<and> log w' = log w \<and> step w' = step w + 2
    \<and> cell (store w') = cell_upd cell_id (rate_key ow t) (max 0 (cell (store w) (rate_key ow t) - 1))
         (cell_upd cell_id (conc_key ow) (max 0 (cell (store w) (conc_key ow) - 1)) (cell (store w)))
    \<and> row (store w') = row (store w) \<and> killed (store w') = killed (store w)
    \<and> denied (store w') = denied (store w)"
proof -
  obtain v1 s1 where one: "Charge S (e_bg E (step w)) (conc_key ow) (- 1) 0 (store w) = (Inr v1, s1)"
    using refund_succeeds [OF assms(1,5)] by fastforce
  have s1: "inv s1" "cell s1 = cell_upd cell_id (conc_key ow) (max 0 (cell (store w) (conc_key ow) - 1)) (cell (store w))"
    "row s1 = row (store w)" "killed s1 = killed (store w)" "denied s1 = denied (store w)"
    using charge_down [OF assms(1) _ _ assms(4) one] by (simp_all add: int64_min_def)
  obtain v2 s2 where two: "Charge S (e_bg E (Suc (step w))) (rate_key ow t) (- 1) 0 s1 = (Inr v2, s2)"
    using refund_succeeds [OF s1(1)] assms(6) by fastforce
  have "w' = w\<lparr>store := s2, step := step w + 2\<rparr> \<and> e = None \<and> rc' = rc\<lparr>charged := []\<rparr>"
    using assms(2,7) one two by (auto simp: Receipt_Apply_def st_call_def)
  then show ?thesis
    using charge_down [OF s1(1) _ _ _ two] assms(3) s1 by (simp add: int64_min_def)
qed

end

context responsive_store
begin

lemma refund_concurrent:
  assumes "inv (store w)" and "0 \<le> cell (store w) (conc_key ow)" and "\<not> e_bg E (step w)"
  shows "\<exists>w'. Gate_RefundConcurrent S E ow w = (None, w') \<and> inv (store w') \<and> log w' = log w
    \<and> step w' = Suc (step w) \<and> row (store w') = row (store w)
    \<and> cell (store w') = cell_upd cell_id (conc_key ow) (max 0 (cell (store w) (conc_key ow) - 1)) (cell (store w))
    \<and> killed (store w') = killed (store w) \<and> denied (store w') = denied (store w)"
proof -
  obtain v s' where "Charge S (e_bg E (step w)) (conc_key ow) (- 1) 0 (store w) = (Inr v, s')"
    using refund_succeeds [OF assms(1,3)] by fastforce
  with charge_down [OF assms(1) _ _ assms(2) this] show ?thesis
    by (simp add: Gate_RefundConcurrent_def st_call_def int64_min_def)
qed

lemma reconcile_concurrent:
  assumes "inv (store w)" and "0 \<le> cell (store w) (conc_key ow)" and "0 \<le> n" and "n \<le> int64_max"
    and "\<not> e_ctx E (step w)" and "\<not> e_ctx E (Suc (step w))"
  shows "\<exists>w'. Gate_ReconcileConcurrent S E ow n w = (Inr (max 0 (cell (store w) (conc_key ow) - n)), w')
    \<and> inv (store w') \<and> log w' = log w \<and> row (store w') = row (store w)
    \<and> cell (store w') = cell_upd cell_id (conc_key ow) (min n (cell (store w) (conc_key ow))) (cell (store w))
    \<and> killed (store w') = killed (store w) \<and> denied (store w') = denied (store w)"
proof -
  let ?c = "cell (store w) (conc_key ow)"
  have range: "?c \<le> int64_max" "is_int64 (?c - n)"
    using cell_int64 [OF assms(1), of "conc_key ow"] assms(2-4) by (simp_all add: int64_min_def int64_max_def)
  have read: "ReadQuota S (e_ctx E (step w)) (conc_key ow) (store w) = Inr ?c"
    using read_succeeds [OF assms(5)] read_ok [OF assms(1)] by metis
  show ?thesis
  proof (cases "?c \<le> n")
    case True
    then show ?thesis
      using read range(2) assms(1) cell_upd_same [of "conc_key ow" "store w"]
      by (simp add: Gate_ReconcileConcurrent_def st_read_def min_def)
  next
    case False
    obtain v s' where charge: "Charge S (e_ctx E (Suc (step w))) (conc_key ow) (- (?c - n)) 0 (store w) = (Inr v, s')"
      using refund_succeeds [OF assms(1,6)] False by fastforce
    have "int64_min \<le> - (?c - n)" using range(1) assms(3) by (simp add: int64_min_def int64_max_def)
    from charge_down [OF assms(1) _ this assms(2) charge] False charge read range(2) assms(3) show ?thesis
      by (simp add: Gate_ReconcileConcurrent_def st_read_def st_call_def Let_def max_def min_def)
  qed
qed

end

subsection \<open>The gate over the in-memory store\<close>

lemma cell_upd_mem [simp]: "cell_upd (\<lambda>q. q) q v f = f(q := v)"
  by (auto simp: cell_upd_def)

text \<open>A clock that stands still and contexts that are never done.\<close>

abbreviation demo_ctx :: clockctx where
  "demo_ctx \<equiv> \<lparr>e_ctx = \<lambda>_. False, e_bg = \<lambda>_. False, e_now = \<lambda>_. 0\<rparr>"

abbreviation demo_world :: "(memStore, unit) world" where
  "demo_world \<equiv> \<lparr>store = NewInMemory, step = 0, log = []\<rparr>"

abbreviation demo_limits :: Limits where
  "demo_limits \<equiv> \<lparr>ConcurrentSessionsPerTenant = 0, MCPCallsPerMinPerTenant = 0, StorageGBPerTenant = 0,
     EgressBytesPerDayPerTenant = 0, CreateRatePerCallerPerMin = 5\<rparr>"

text \<open>
  The two charges of a create are all or nothing: on success both counters are up by one,
  each from below its limit, and the receipt records the two cells; on any refusal, by either
  dimension or by a store that does not answer the request context, no counter has moved, as
  long as the detached refund is answered. No row is touched either way.
\<close>

theorem charge_create_all_or_nothing:
  assumes "mem_inv (store w)" and "t = e_now E (step w)"
    and "\<forall>q \<in> {rate_key ow t, conc_key ow}. 0 \<le> quota_at (store w) q \<and> quota_at (store w) q < int64_max"
    and "\<not> e_bg E (step w + 2)"
    and "Gate_ChargeCreate memStore_ops E L ow w = (r, w')"
  shows "rows (store w') = rows (store w) \<and>
    (case r of
       Inl e \<Rightarrow> quota_at (store w') = quota_at (store w)
     | Inr rc \<Rightarrow> quota_at (store w') = (quota_at (store w))
           (rate_key ow t := quota_at (store w) (rate_key ow t) + 1,
            conc_key ow := quota_at (store w) (conc_key ow) + 1)
         \<and> quota_at (store w) (rate_key ow t) < CreateRatePerCallerPerMin L
         \<and> quota_at (store w) (conc_key ow) < ConcurrentSessionsPerTenant L
         \<and> map ChKey (charged rc) = [rate_key ow t, conc_key ow])"
proof (cases r)
  case (Inl e)
  then show ?thesis using mem.charge_create_err [OF assms(1-3) _ assms(4)] assms(5) by simp
next
  case (Inr rc)
  then show ?thesis using mem.charge_create_ok [OF assms(1-3)] assms(5) by simp
qed

theorem charge_create_all_or_nothing_witness:
  "\<exists>e w'. Gate_ChargeCreate memStore_ops demo_ctx demo_limits owner_ta demo_world = (Inl e, w')
     \<and> errors_is e ErrConcurrentDimension \<and> errors_is e ErrQuotaExceeded
     \<and> quota_at (store w') = quota_at NewInMemory"
proof -
  obtain r w' where run: "Gate_ChargeCreate memStore_ops demo_ctx demo_limits owner_ta demo_world = (r, w')"
    by fastforce
  moreover have "\<exists>e. r = Inl e \<and> errors_is e ErrConcurrentDimension \<and> errors_is e ErrQuotaExceeded"
    using run by (auto simp: Gate_ChargeCreate_def st_call_def memStore_ops_def memStore_Charge_def
        NewInMemory_def quota_at_def int64_min_def int64_max_def Let_def)
  moreover have "mem_inv (store demo_world)" by (simp add: mem_inv_new)
  ultimately show ?thesis
    using charge_create_all_or_nothing [of demo_world 0 demo_ctx owner_ta demo_limits r w']
    by (auto simp: NewInMemory_def quota_at_def int64_max_def)
qed

text \<open>
  C36: A receipt undoes its create exactly and once: applied at any later state whose counters
  are those the create left, whatever has happened to the rows, it puts every counter back to
  where it was before the create, and applying it again does nothing.
\<close>

theorem receipt_reverses_create:
  assumes "mem_inv (store w)" and "t = e_now E (step w)"
    and "\<forall>q \<in> {rate_key ow t, conc_key ow}. 0 \<le> quota_at (store w) q \<and> quota_at (store w) q < int64_max"
    and "Gate_ChargeCreate memStore_ops E L ow w = (Inr rc, w1)"
    and "mem_inv (store w2)" and "quota_at (store w2) = quota_at (store w1)"
    and "\<not> e_bg E (step w2)" and "\<not> e_bg E (step w2 + 1)"
    and "Receipt_Apply memStore_ops E rc w2 = (e, rc', w3)"
  shows "e = None \<and> quota_at (store w3) = quota_at (store w) \<and> rows (store w3) = rows (store w2)
    \<and> Receipt_Apply memStore_ops E rc' w3 = (None, rc', w3)"
proof -
  note ok = mem.charge_create_ok [OF assms(1-4)]
  have "mem_inv (store w2)" by fact
  from mem.receipt_apply [OF this conjunct1 [OF ok] _ _ assms(7,8,9)] ok assms(3,6)
  have "e = None" "charged rc' = []" "rows (store w3) = rows (store w2)"
    "quota_at (store w3) = (quota_at (store w2))
      (conc_key ow := max 0 (quota_at (store w2) (conc_key ow) - 1),
       rate_key ow t := max 0 (quota_at (store w2) (rate_key ow t) - 1))"
    by auto
  then show ?thesis using ok assms(3,6) by (auto simp: Receipt_Apply_def fun_eq_iff)
qed

theorem receipt_reverses_create_witness:
  "\<exists>rc w1 e rc' w3.
     Gate_ChargeCreate memStore_ops demo_ctx (demo_limits\<lparr>ConcurrentSessionsPerTenant := 1\<rparr>) owner_ta demo_world = (Inr rc, w1)
     \<and> quota_at (store w1) (conc_key owner_ta) = 1
     \<and> Receipt_Apply memStore_ops demo_ctx rc w1 = (e, rc', w3)
     \<and> quota_at (store w3) = quota_at NewInMemory"
proof -
  let ?L = "demo_limits\<lparr>ConcurrentSessionsPerTenant := 1\<rparr>"
  obtain r w1 where run: "Gate_ChargeCreate memStore_ops demo_ctx ?L owner_ta demo_world = (r, w1)"
    by fastforce
  obtain rc where r: "r = Inr rc" and one: "quota_at (store w1) (conc_key owner_ta) = 1"
    using run by (auto simp: Gate_ChargeCreate_def st_call_def memStore_ops_def memStore_Charge_def
        NewInMemory_def quota_at_def int64_min_def int64_max_def Let_def)
  have inv: "mem_inv (store demo_world)" by (simp add: mem_inv_new)
  have cells: "\<forall>q \<in> {rate_key owner_ta 0, conc_key owner_ta}.
      0 \<le> quota_at (store demo_world) q \<and> quota_at (store demo_world) q < int64_max"
    by (simp add: NewInMemory_def quota_at_def int64_max_def)
  have "mem_inv (store w1)"
    using mem.charge_create_ok [OF inv _ _ run [unfolded r]] cells by simp
  obtain e rc' w3 where app: "Receipt_Apply memStore_ops demo_ctx rc w1 = (e, rc', w3)"
    by (metis surj_pair)
  have "quota_at (store w3) = quota_at (store demo_world)"
    using receipt_reverses_create [OF inv _ _ run [unfolded r] \<open>mem_inv (store w1)\<close> refl _ _ app] cells
    by simp
  with run r one app show ?thesis by (auto simp del: split_paired_Ex)
qed

text \<open>
  The boot-time heal moves a drifted concurrency counter exactly down to the live count it is
  given, reports the surplus, never raises a counter, and touches no other cell.
\<close>

theorem reconcile_heals_down:
  assumes "mem_inv (store w)" and "0 \<le> quota_at (store w) (conc_key ow)" and "0 \<le> n" and "n \<le> int64_max"
    and "\<not> e_ctx E (step w)" and "\<not> e_ctx E (Suc (step w))"
  shows "\<exists>w'. Gate_ReconcileConcurrent memStore_ops E ow n w =
      (Inr (max 0 (quota_at (store w) (conc_key ow) - n)), w')
    \<and> quota_at (store w') = (quota_at (store w))(conc_key ow := min n (quota_at (store w) (conc_key ow)))
    \<and> rows (store w') = rows (store w)"
  using mem.reconcile_concurrent [OF assms] by auto

theorem reconcile_heals_down_witness:
  "\<exists>w'. Gate_ReconcileConcurrent memStore_ops demo_ctx owner_ta 2
       (demo_world\<lparr>store := NewInMemory\<lparr>quota := [conc_key owner_ta \<mapsto> 7]\<rparr>\<rparr>) = (Inr 5, w')
     \<and> quota_at (store w') (conc_key owner_ta) = 2"
proof -
  let ?w = "demo_world\<lparr>store := NewInMemory\<lparr>quota := [conc_key owner_ta \<mapsto> 7]\<rparr>\<rparr>"
  have "mem_inv (store ?w)"
    using mem_inv_set_cell [OF mem_inv_new, of 7 "conc_key owner_ta"]
    by (simp add: NewInMemory_def int64_min_def int64_max_def)
  moreover have "quota_at (store ?w) (conc_key owner_ta) = 7" by (simp add: quota_at_def)
  ultimately show ?thesis
    using reconcile_heals_down [of ?w owner_ta 2 demo_ctx] by (auto simp: int64_max_def)
qed

end
