(* ===== verification/Json.thy ===== *)
theory Json
  imports Ctl_Prelude
begin

text \<open>
  What the components use of Go's \<open>encoding/json\<close> and \<open>unicode/utf8\<close>: the compact printer with
  its HTML-safe string escapes, the recogniser and decoder, \<open>json.Compact\<close> as it is applied to a
  \<open>json.RawMessage\<close>, and the field matching of struct decoding. Texts are byte sequences. A number
  keeps its literal. The main lemmas are that the decoder never needs more fuel than the text has
  bytes, that it reads a printed tree back (a byte that starts no rune having become U+FFFD), and that
  compaction leaves a printed tree as it is. Go's limit of 10000 nested values is not modelled.
\<close>

abbreviation byte :: "char \<Rightarrow> nat" where "byte c \<equiv> of_char c"

lemma byte_less [simp]: "byte c < 256"
  by (rule nat_of_char_less_256)

subsection \<open>UTF-8\<close>

definition is_cont :: "char \<Rightarrow> bool" where
  "is_cont c \<longleftrightarrow> 128 \<le> byte c \<and> byte c < 192"

text \<open>\<open>utf8.DecodeRune\<close>: the size of the rune in front, 0 where Go reports \<open>RuneError\<close> of width 1.\<close>

fun utf8_len :: "string \<Rightarrow> nat" where
  "utf8_len [] = 0"
| "utf8_len (a # s) =
     (if byte a < 128 then 1
      else if 194 \<le> byte a \<and> byte a < 224 then
        (case s of b # _ \<Rightarrow> if is_cont b then 2 else 0 | _ \<Rightarrow> 0)
      else if 224 \<le> byte a \<and> byte a < 240 then
        (case s of b # c # _ \<Rightarrow>
           if is_cont b \<and> is_cont c \<and> (byte a = 224 \<longrightarrow> 160 \<le> byte b) \<and> (byte a = 237 \<longrightarrow> byte b < 160)
           then 3 else 0
         | _ \<Rightarrow> 0)
      else if 240 \<le> byte a \<and> byte a < 245 then
        (case s of b # c # d # _ \<Rightarrow>
           if is_cont b \<and> is_cont c \<and> is_cont d \<and> (byte a = 240 \<longrightarrow> 144 \<le> byte b) \<and>
              (byte a = 244 \<longrightarrow> byte b < 144)
           then 4 else 0
         | _ \<Rightarrow> 0)
      else 0)"

function valid_utf8 :: "string \<Rightarrow> bool" where
  "valid_utf8 s =
     (if s = [] then True else if utf8_len s = 0 then False else valid_utf8 (drop (utf8_len s) s))"
  by pat_completeness auto
termination
  by (relation "measure length") auto

declare valid_utf8.simps [simp del]

text \<open>\<open>utf8.EncodeRune\<close> of a code point that is no surrogate.\<close>

definition utf8_encode :: "nat \<Rightarrow> string" where
  "utf8_encode r =
     (if r < 128 then [char_of r]
      else if r < 2048 then [char_of (192 + r div 64), char_of (128 + r mod 64)]
      else if r < 65536 then
        [char_of (224 + r div 4096), char_of (128 + r div 64 mod 64), char_of (128 + r mod 64)]
      else [char_of (240 + r div 262144), char_of (128 + r div 4096 mod 64),
            char_of (128 + r div 64 mod 64), char_of (128 + r mod 64)])"

definition rune_error :: string where
  "rune_error = utf8_encode 65533"

text \<open>What a round trip through JSON makes of a string: every byte that starts no rune is replaced.\<close>

function utf8_fix :: "string \<Rightarrow> string" where
  "utf8_fix s =
     (if s = [] then [] else if utf8_len s = 0 then rune_error @ utf8_fix (tl s)
      else take (utf8_len s) s @ utf8_fix (drop (utf8_len s) s))"
  by pat_completeness auto
termination
  by (relation "measure length") auto

declare utf8_fix.simps [simp del]

lemma utf8_fix_valid: "valid_utf8 s \<Longrightarrow> utf8_fix s = s"
proof (induction s rule: valid_utf8.induct)
  case (1 s)
  then show ?case
    by (simp add: valid_utf8.simps [of s] utf8_fix.simps [of s] split: if_splits)
qed

lemma ascii_utf8: "list_all (\<lambda>c. byte c < 128) s \<Longrightarrow> valid_utf8 s"
proof (induction s)
  case (Cons c s)
  then show ?case by (subst valid_utf8.simps) simp
qed (simp add: valid_utf8.simps)

subsection \<open>Printing\<close>

datatype json = JNull | JBool bool | JNum string | JStr string
  | JArr "json list" | JObj "(string \<times> json) list"

definition dquote :: char where "dquote = char_of (34::nat)"
definition backslash :: char where "backslash = char_of (92::nat)"

text \<open>The escapes of \<open>appendString\<close> with \<open>escapeHTML\<close>.\<close>

definition escape_ascii :: "char \<Rightarrow> string" where
  "escape_ascii c =
     (if c = dquote \<or> c = backslash then [backslash, c]
      else if byte c = 8 then [backslash, CHR ''b'']
      else if byte c = 12 then [backslash, CHR ''f'']
      else if byte c = 10 then [backslash, CHR ''n'']
      else if byte c = 13 then [backslash, CHR ''r'']
      else if byte c = 9 then [backslash, CHR ''t'']
      else if byte c < 32 \<or> c = CHR ''<'' \<or> c = CHR ''>'' \<or> c = CHR ''&''
        then [backslash, CHR ''u'', CHR ''0'', CHR ''0''] @ hex_byte c
      else [c])"

definition line_sep :: "string \<Rightarrow> bool" where
  "line_sep s \<longleftrightarrow> 3 \<le> length s \<and> byte (s ! 0) = 226 \<and> byte (s ! 1) = 128 \<and>
     (byte (s ! 2) = 168 \<or> byte (s ! 2) = 169)"

text \<open>One rune of the source: what is written for it, and how many bytes it took.\<close>

definition escape_rune :: "string \<Rightarrow> string \<times> nat" where
  "escape_rune s =
     (let n = utf8_len s in
      if byte (hd s) < 128 then (escape_ascii (hd s), 1)
      else if n = 0 then (backslash # ''ufffd'', 1)
      else if line_sep s then (backslash # ''u202'' @ [hex_digit (byte (s ! 2) mod 16)], 3)
      else (take n s, n))"

lemma escape_rune_size: "s \<noteq> [] \<Longrightarrow> 0 < snd (escape_rune s)"
  by (cases s) (simp_all add: escape_rune_def Let_def)

function json_escape :: "string \<Rightarrow> string" where
  "json_escape s =
     (if s = [] then [] else fst (escape_rune s) @ json_escape (drop (snd (escape_rune s)) s))"
  by pat_completeness auto
termination
  by (relation "measure length") (auto simp: escape_rune_size)

declare json_escape.simps [simp del]

definition json_quote :: "string \<Rightarrow> string" where
  "json_quote s = dquote # json_escape s @ [dquote]"

fun commas :: "string list \<Rightarrow> string" where
  "commas [] = []"
| "commas [t] = t"
| "commas (t # ts) = t @ CHR '','' # commas ts"

text \<open>An object from its field names and the texts of its values.\<close>

definition print_obj :: "(string \<times> string) list \<Rightarrow> string" where
  "print_obj ms = CHR ''{'' # commas (map (\<lambda>(k, t). json_quote k @ CHR '':'' # t) ms) @ ''}''"

fun json_print :: "json \<Rightarrow> string" where
  "json_print JNull = ''null''"
| "json_print (JBool b) = (if b then ''true'' else ''false'')"
| "json_print (JNum l) = l"
| "json_print (JStr s) = json_quote s"
| "json_print (JArr vs) = CHR ''['' # commas (map json_print vs) @ '']''"
| "json_print (JObj kvs) = print_obj (map (\<lambda>(k, v). (k, json_print v)) kvs)"

subsection \<open>Reading\<close>

definition is_ws :: "char \<Rightarrow> bool" where
  "is_ws c \<longleftrightarrow> c = CHR '' '' \<or> byte c = 9 \<or> byte c = 10 \<or> byte c = 13"

abbreviation skip_ws :: "string \<Rightarrow> string" where
  "skip_ws s \<equiv> dropWhile is_ws s"

definition hex_val :: "char \<Rightarrow> nat option" where
  "hex_val c =
     (if 48 \<le> byte c \<and> byte c \<le> 57 then Some (byte c - 48)
      else if 97 \<le> byte c \<and> byte c \<le> 102 then Some (byte c - 87)
      else if 65 \<le> byte c \<and> byte c \<le> 70 then Some (byte c - 55)
      else None)"

text \<open>\<open>getu4\<close> after the introducing \<open>u\<close>: four hexadecimal digits.\<close>

definition hex4 :: "string \<Rightarrow> (nat \<times> string) option" where
  "hex4 s =
     (if length s < 4 then None
      else case (hex_val (s ! 0), hex_val (s ! 1), hex_val (s ! 2), hex_val (s ! 3)) of
        (Some a, Some b, Some c, Some d) \<Rightarrow> Some (4096 * a + 256 * b + 16 * c + d, drop 4 s)
      | _ \<Rightarrow> None)"

lemma hex4_shorter: "hex4 s = Some (r, s') \<Longrightarrow> length s' < length s"
  by (auto simp: hex4_def split: if_splits option.splits)

definition is_surrogate :: "nat \<Rightarrow> bool" where
  "is_surrogate r \<longleftrightarrow> 55296 \<le> r \<and> r < 57344"

text \<open>
  A low half announced by \<open>\u\<close> right behind a high half: the combined rune and the rest.
\<close>

definition low_half :: "nat \<Rightarrow> string \<Rightarrow> (string \<times> string) option" where
  "low_half r s =
     (case s of a # b # s' \<Rightarrow>
        if a = backslash \<and> b = CHR ''u'' then
          (case hex4 s' of
             Some (r2, s2) \<Rightarrow>
               if r < 56320 \<and> 56320 \<le> r2 \<and> r2 < 57344
               then Some (utf8_encode ((r - 55296) * 1024 + (r2 - 56320) + 65536), s2) else None
           | None \<Rightarrow> None)
        else None
      | _ \<Rightarrow> None)"

definition unescape_u :: "string \<Rightarrow> (string \<times> string) option" where
  "unescape_u s =
     (case hex4 s of None \<Rightarrow> None
      | Some (r, s') \<Rightarrow>
          if is_surrogate r
          then (case low_half r s' of Some (t, s2) \<Rightarrow> Some (t, s2) | None \<Rightarrow> Some (rune_error, s'))
          else Some (utf8_encode r, s'))"

lemma unescape_u_shorter: "unescape_u s = Some (t, s') \<Longrightarrow> length s' < length s"
  by (auto simp: unescape_u_def low_half_def dest!: hex4_shorter
      split: option.splits if_splits prod.splits list.splits)

definition unescape :: "string \<Rightarrow> (string \<times> string) option" where
  "unescape s =
     (case s of [] \<Rightarrow> None
      | e # r \<Rightarrow>
          if e = dquote \<or> e = backslash \<or> e = CHR ''/'' then Some ([e], r)
          else if e = CHR ''b'' then Some ([char_of (8::nat)], r)
          else if e = CHR ''f'' then Some ([char_of (12::nat)], r)
          else if e = CHR ''n'' then Some ([char_of (10::nat)], r)
          else if e = CHR ''r'' then Some ([char_of (13::nat)], r)
          else if e = CHR ''t'' then Some ([char_of (9::nat)], r)
          else if e = CHR ''u'' then unescape_u r
          else None)"

lemma unescape_shorter: "unescape s = Some (t, s') \<Longrightarrow> length s' < length s"
  by (auto simp: unescape_def dest!: unescape_u_shorter split: list.splits if_splits)

text \<open>One element of a string literal: the bytes it stands for and the rest.\<close>

definition string_item :: "string \<Rightarrow> (string \<times> string) option" where
  "string_item s =
     (case s of [] \<Rightarrow> None
      | c # r \<Rightarrow>
          if c = backslash then unescape r
          else if byte c < 32 then None
          else if utf8_len s = 0 then Some (rune_error, r)
          else Some (take (utf8_len s) s, drop (utf8_len s) s))"

lemma string_item_Nil [simp]: "string_item [] = None"
  by (simp add: string_item_def)

lemma string_item_shorter: "string_item s = Some (t, s') \<Longrightarrow> length s' < length s"
  by (auto simp: string_item_def dest!: unescape_shorter split: list.splits if_splits)

function json_unquote :: "string \<Rightarrow> (string \<times> string) option" where
  "json_unquote s =
     (if s \<noteq> [] \<and> hd s = dquote then Some ([], tl s)
      else case string_item s of None \<Rightarrow> None
        | Some (t, s') \<Rightarrow>
            (case json_unquote s' of None \<Rightarrow> None | Some (x, r) \<Rightarrow> Some (t @ x, r)))"
  by pat_completeness auto
termination
  by (relation "measure length") (auto simp: string_item_shorter)

declare json_unquote.simps [simp del]

text \<open>A number literal: an optional sign, the integer part, fraction and exponent.\<close>

definition digits_span :: "string \<Rightarrow> string \<times> string" where
  "digits_span s = (takeWhile is_digit s, dropWhile is_digit s)"

definition num_int :: "string \<Rightarrow> (string \<times> string) option" where
  "num_int s =
     (case s of [] \<Rightarrow> None
      | c # r \<Rightarrow> if c = CHR ''0'' then Some ([c], r)
                 else if is_digit c then Some (digits_span s) else None)"

definition num_frac :: "string \<Rightarrow> (string \<times> string) option" where
  "num_frac s =
     (if s \<noteq> [] \<and> hd s = CHR ''.'' then
        (case digits_span (tl s) of (ds, r) \<Rightarrow> if ds = [] then None else Some (CHR ''.'' # ds, r))
      else Some ([], s))"

definition num_exp :: "string \<Rightarrow> (string \<times> string) option" where
  "num_exp s =
     (if s \<noteq> [] \<and> (hd s = CHR ''e'' \<or> hd s = CHR ''E'') then
        (let sign = (if tl s \<noteq> [] \<and> (hd (tl s) = CHR ''+'' \<or> hd (tl s) = CHR ''-'') then [hd (tl s)] else [])
         in case digits_span (drop (length sign) (tl s)) of (ds, r) \<Rightarrow>
              if ds = [] then None else Some (hd s # sign @ ds, r))
      else Some ([], s))"

definition num_body :: "string \<Rightarrow> (string \<times> string) option" where
  "num_body s =
     (case num_int s of None \<Rightarrow> None
      | Some (a, s1) \<Rightarrow> (case num_frac s1 of None \<Rightarrow> None
        | Some (b, s2) \<Rightarrow> (case num_exp s2 of None \<Rightarrow> None
          | Some (c, s3) \<Rightarrow> Some (a @ b @ c, s3))))"

definition json_number :: "string \<Rightarrow> (string \<times> string) option" where
  "json_number s =
     (case s of [] \<Rightarrow> None
      | c # r \<Rightarrow>
          if c = CHR ''-'' then map_option (\<lambda>(l, x). (c # l, x)) (num_body r) else num_body s)"

definition strip_prefix :: "string \<Rightarrow> string \<Rightarrow> string option" where
  "strip_prefix p s = (if take (length p) s = p then Some (drop (length p) s) else None)"

definition json_literal :: "string \<Rightarrow> (json \<times> string) option" where
  "json_literal s =
     (case strip_prefix ''null'' s of Some r \<Rightarrow> Some (JNull, r) | None \<Rightarrow>
      case strip_prefix ''true'' s of Some r \<Rightarrow> Some (JBool True, r) | None \<Rightarrow>
      case strip_prefix ''false'' s of Some r \<Rightarrow> Some (JBool False, r) | None \<Rightarrow>
      case json_number s of Some (l, r) \<Rightarrow> Some (JNum l, r) | None \<Rightarrow> None)"

text \<open>
  The decoder. The fuel bounds the nesting and the number of elements; the length of the text is
  enough, since every call consumes a byte. A member of an object carries the bytes of its value
  beside the value, which is what a \<open>json.RawMessage\<close> field receives.
\<close>

definition expect :: "char \<Rightarrow> string \<Rightarrow> string option" where
  "expect c s = (case skip_ws s of [] \<Rightarrow> None | d # r \<Rightarrow> if d = c then Some r else None)"

fun read_value :: "nat \<Rightarrow> string \<Rightarrow> (json \<times> string) option"
and read_elems :: "nat \<Rightarrow> string \<Rightarrow> (json list \<times> string) option"
and read_members :: "nat \<Rightarrow> string \<Rightarrow> ((string \<times> string \<times> json) list \<times> string) option" where
  "read_value 0 s = None"
| "read_value (Suc n) s =
     (case expect dquote s of
        Some r \<Rightarrow> (case json_unquote r of None \<Rightarrow> None | Some (x, r') \<Rightarrow> Some (JStr x, r'))
      | None \<Rightarrow> (case expect (CHR ''{'') s of
          Some r \<Rightarrow> (case expect (CHR ''}'') r of
              Some r' \<Rightarrow> Some (JObj [], r')
            | None \<Rightarrow> (case read_members n r of None \<Rightarrow> None
                | Some (ms, r') \<Rightarrow> Some (JObj (map (\<lambda>(k, _, v). (k, v)) ms), r')))
        | None \<Rightarrow> (case expect (CHR ''['') s of
            Some r \<Rightarrow> (case expect (CHR '']'') r of
                Some r' \<Rightarrow> Some (JArr [], r')
              | None \<Rightarrow> (case read_elems n r of None \<Rightarrow> None | Some (vs, r') \<Rightarrow> Some (JArr vs, r')))
          | None \<Rightarrow> json_literal (skip_ws s))))"
| "read_elems 0 s = None"
| "read_elems (Suc n) s =
     (case read_value n s of None \<Rightarrow> None
      | Some (v, r) \<Rightarrow> (case expect (CHR '','') r of
          Some r' \<Rightarrow> (case read_elems n r' of None \<Rightarrow> None | Some (vs, r2) \<Rightarrow> Some (v # vs, r2))
        | None \<Rightarrow> (case expect (CHR '']'') r of Some r' \<Rightarrow> Some ([v], r') | None \<Rightarrow> None)))"
| "read_members 0 s = None"
| "read_members (Suc n) s =
     (case expect dquote s of None \<Rightarrow> None
      | Some r \<Rightarrow> (case json_unquote r of None \<Rightarrow> None
        | Some (k, r1) \<Rightarrow> (case expect (CHR '':'') r1 of None \<Rightarrow> None
          | Some r2 \<Rightarrow>
              let t = skip_ws r2 in
              (case read_value n t of None \<Rightarrow> None
               | Some (v, r3) \<Rightarrow>
                   let m = (k, take (length t - length r3) t, v) in
                   (case expect (CHR '','') r3 of
                      Some r4 \<Rightarrow> (case read_members n r4 of None \<Rightarrow> None
                          | Some (ms, r5) \<Rightarrow> Some (m # ms, r5))
                    | None \<Rightarrow> (case expect (CHR ''}'') r3 of Some r4 \<Rightarrow> Some ([m], r4) | None \<Rightarrow> None))))))"

text \<open>\<open>checkValid\<close> and the decoding of a whole text.\<close>

definition json_parse :: "string \<Rightarrow> json option" where
  "json_parse s =
     (case read_value (Suc (length s)) s of None \<Rightarrow> None
      | Some (v, r) \<Rightarrow> if skip_ws r = [] then Some v else None)"

text \<open>
  The members of a text that is decoded into a struct: an object gives its members, \<open>null\<close> none,
  and any other value is refused.
\<close>

definition struct_members :: "string \<Rightarrow> (string \<times> string \<times> json) list option" where
  "struct_members s =
     (case json_parse s of
        Some JNull \<Rightarrow> Some []
      | Some (JObj kvs) \<Rightarrow>
          if kvs = [] then Some []
          else (case expect (CHR ''{'') s of None \<Rightarrow> None
                | Some r \<Rightarrow> map_option fst (read_members (length s) r))
      | _ \<Rightarrow> None)"

subsection \<open>The decoder inverts the printer\<close>

lemma utf8_len_bound: "utf8_len s \<le> length s"
  by (cases s) (auto split: list.splits)

lemma utf8_len_front: "utf8_len s \<noteq> 0 \<Longrightarrow> utf8_len (take (utf8_len s) s @ x) = utf8_len s"
  by (cases s) (auto split: list.splits if_splits)

lemma char_byte_eq:
  assumes "n < 256"
  shows "c = char_of (n :: nat) \<longleftrightarrow> byte c = n" and "char_of n = c \<longleftrightarrow> byte c = n"
  using assms by (metis char_of_char of_char_of_byte)+

lemma quote_bytes:
  "c = dquote \<longleftrightarrow> byte c = 34" "dquote = c \<longleftrightarrow> byte c = 34"
  "c = backslash \<longleftrightarrow> byte c = 92" "backslash = c \<longleftrightarrow> byte c = 92"
  by (simp_all add: dquote_def backslash_def char_byte_eq)

lemma byte_quotes [simp]: "byte dquote = 34" "byte backslash = 92"
  by (simp_all add: dquote_def backslash_def)

lemma hex_val_digit [simp]: "n < 16 \<Longrightarrow> hex_val (hex_digit n) = Some n"
  by (simp add: hex_val_def hex_digit_def)

lemma byte_nibbles [simp]: "byte c div 16 < 16"
  using nat_of_char_less_256 [of c] by (simp add: less_mult_imp_div_less)

lemma hex_val_0 [simp]: "hex_val CHR ''0'' = Some 0" "hex_val CHR ''2'' = Some 2"
  by (simp_all add: hex_val_def)

lemma item_ascii:
  assumes "byte c < 128"
  shows "string_item (escape_ascii c @ x) = Some ([c], x)"
    and "escape_ascii c \<noteq> []" and "hd (escape_ascii c @ x) \<noteq> dquote"
proof -
  have u: "unescape_u (CHR ''0'' # CHR ''0'' # hex_byte c @ x) = Some ([c], x)"
    using assms by (simp add: unescape_u_def hex4_def hex_byte_def is_surrogate_def utf8_encode_def
        numeral_2_eq_2 numeral_3_eq_3)
  show "string_item (escape_ascii c @ x) = Some ([c], x)"
    using assms u
    by (auto simp: escape_ascii_def string_item_def unescape_def dquote_def backslash_def char_byte_eq)
  show "escape_ascii c \<noteq> []" "hd (escape_ascii c @ x) \<noteq> dquote"
    by (auto simp: escape_ascii_def dquote_def backslash_def)
qed

declare utf8_len.simps(2) [simp del]

lemma utf8_len_ascii [simp]: "byte c < 128 \<Longrightarrow> utf8_len (c # s) = 1"
  by (simp add: utf8_len.simps)

lemma line_sep_len: "line_sep s \<Longrightarrow> utf8_len s = 3"
  by (auto simp: utf8_len.simps line_sep_def is_cont_def numeral_2_eq_2 numeral_3_eq_3 Suc_le_length_iff)

lemma item_line_sep:
  assumes "line_sep s"
  shows "string_item (backslash # ''u202'' @ hex_digit (byte (s ! 2) mod 16) # x) = Some (take 3 s, x)"
proof -
  obtain a b c s' where s: "s = a # b # c # s'"
    using assms by (auto simp: line_sep_def numeral_3_eq_3 Suc_le_length_iff)
  have byte: "a = char_of (226::nat)" "b = char_of (128::nat)"
      and c: "byte c = 168 \<or> byte c = 169"
    using assms by (auto simp: line_sep_def s char_byte_eq)
  from c have "unescape_u (CHR ''2'' # CHR ''0'' # CHR ''2'' # hex_digit (byte c mod 16) # x) = Some ([a, b, c], x)"
    by (auto simp: unescape_u_def hex4_def numeral_2_eq_2 numeral_3_eq_3 is_surrogate_def
        utf8_encode_def byte char_byte_eq)
  then show ?thesis by (simp add: s string_item_def unescape_def dquote_def backslash_def char_byte_eq)
qed

lemma item_rune:
  assumes "s \<noteq> []" and "utf8_len s \<noteq> 0"
  shows "string_item (fst (escape_rune s) @ x) = Some (take (utf8_len s) s, x)"
    and "fst (escape_rune s) \<noteq> []" and "hd (fst (escape_rune s) @ x) \<noteq> dquote"
    and "snd (escape_rune s) = utf8_len s"
proof -
  obtain c s' where s: "s = c # s'" using assms(1) by (cases s) auto
  then have hd: "hd s = c" by simp
  consider (ascii) "byte c < 128" | (sep) "\<not> byte c < 128" "line_sep s"
    | (multi) "\<not> byte c < 128" "\<not> line_sep s" by blast
  then have "string_item (fst (escape_rune s) @ x) = Some (take (utf8_len s) s, x) \<and>
      fst (escape_rune s) \<noteq> [] \<and> hd (fst (escape_rune s) @ x) \<noteq> dquote \<and>
      snd (escape_rune s) = utf8_len s"
  proof cases
    case ascii
    then show ?thesis using item_ascii(1,3) [OF ascii, of x] item_ascii(2) [OF ascii]
      by (simp add: escape_rune_def s)
  next
    case sep
    then show ?thesis using item_line_sep [OF sep(2), of x] line_sep_len [OF sep(2)]
      by (simp add: escape_rune_def s dquote_def backslash_def)
  next
    case multi
    have t: "fst (escape_rune s) = take (utf8_len s) s" "snd (escape_rune s) = utf8_len s"
      using multi assms(2) by (simp_all add: escape_rune_def Let_def hd)
    obtain t' where f: "take (utf8_len s) s = c # t'"
      using assms(2) by (cases "utf8_len s") (simp_all add: s)
    have l: "utf8_len (c # t' @ x) = utf8_len s"
      using utf8_len_front [OF assms(2), of x] by (simp add: f)
    have n: "utf8_len s = length (c # t')" using utf8_len_bound [of s] f
      by (metis length_take min.absorb2)
    have c: "c \<noteq> backslash" "c \<noteq> dquote" using multi by (auto simp: backslash_def dquote_def)
    have "string_item (take (utf8_len s) s @ x) = Some (take (utf8_len s) s, x)"
      unfolding f using c multi(1) by (simp add: string_item_def l n)
    then show ?thesis using c by (simp add: t f)
  qed
  then show "string_item (fst (escape_rune s) @ x) = Some (take (utf8_len s) s, x)"
    and "fst (escape_rune s) \<noteq> []" and "hd (fst (escape_rune s) @ x) \<noteq> dquote"
    and "snd (escape_rune s) = utf8_len s" by blast+
qed

lemma item_bad: "string_item (backslash # ''ufffd'' @ x) = Some (rune_error, x)"
proof -
  have "hex4 (CHR ''f'' # CHR ''f'' # CHR ''f'' # CHR ''d'' # x) = Some (65533, x)"
    by (simp add: hex4_def hex_val_def numeral_2_eq_2 numeral_3_eq_3)
  then show ?thesis
    by (simp add: string_item_def unescape_def unescape_u_def is_surrogate_def rune_error_def quote_bytes)
qed

lemma unquote_escape: "json_unquote (json_escape s @ dquote # x) = Some (utf8_fix s, x)"
proof (induction s rule: json_escape.induct)
  case (1 s)
  consider (Nil) "s = []" | (bad) "s \<noteq> []" "utf8_len s = 0" | (rune) "s \<noteq> []" "utf8_len s \<noteq> 0" by blast
  then show ?case
  proof cases
    case Nil
    then show ?thesis by (simp add: json_escape.simps [of "[]"] json_unquote.simps utf8_fix.simps)
  next
    case bad
    have e: "escape_rune s = (backslash # ''ufffd'', 1)"
      using bad by (cases s) (auto simp: escape_rune_def utf8_len.simps split: if_splits)
    have "json_escape s @ dquote # x = backslash # ''ufffd'' @ json_escape (tl s) @ dquote # x"
      using bad by (simp add: json_escape.simps [of s] e drop_Suc)
    moreover have "json_unquote (json_escape (tl s) @ dquote # x) = Some (utf8_fix (tl s), x)"
      using "1.IH" [OF bad(1)] by (simp add: e drop_Suc)
    ultimately show ?thesis using bad item_bad [of "json_escape (tl s) @ dquote # x"]
      by (simp add: json_unquote.simps [of "backslash # _"] utf8_fix.simps [of s] quote_bytes)
  next
    case rune
    note it = item_rune [OF rune]
    have e: "json_escape s @ dquote # x =
        fst (escape_rune s) @ json_escape (drop (utf8_len s) s) @ dquote # x"
      using rune it(4) by (simp add: json_escape.simps [of s])
    have "json_unquote (json_escape (drop (utf8_len s) s) @ dquote # x) =
        Some (utf8_fix (drop (utf8_len s) s), x)"
      using "1.IH" [OF rune(1)] it(4) by simp
    then show ?thesis using it(2,3) rune
      by (simp add: e json_unquote.simps [of "fst (escape_rune s) @ _"] it(1) utf8_fix.simps [of s])
  qed
qed

subsection \<open>The fuel is enough\<close>

text \<open>Every call of the decoder consumes what it read, and needs no more fuel than bytes.\<close>

lemma expect_shorter: "expect c s = Some r \<Longrightarrow> length r < length s"
proof -
  assume "expect c s = Some r"
  then have "skip_ws s = c # r" by (auto simp: expect_def split: list.splits if_splits)
  then have "Suc (length r) = length (skip_ws s)" by simp
  then show ?thesis using length_dropWhile_le [of is_ws s] by linarith
qed

lemma unquote_shorter: "json_unquote s = Some (x, r) \<Longrightarrow> length r < length s"
proof (induction s arbitrary: x r rule: json_unquote.induct)
  case (1 s)
  show ?case
  proof (cases "s \<noteq> [] \<and> hd s = dquote")
    case True
    then show ?thesis using "1.prems" by (subst (asm) json_unquote.simps) (cases s, auto)
  next
    case False
    with "1.prems" obtain t s' y where t: "string_item s = Some (t, s')" and y: "json_unquote s' = Some (y, r)"
      by (auto simp: json_unquote.simps [of s] split: option.splits)
    then show ?thesis using "1.IH" [OF False t refl y] string_item_shorter [OF t] by linarith
  qed
qed

lemma digits_span_le: "digits_span s = (a, r) \<Longrightarrow> length r \<le> length s"
  by (auto simp: digits_span_def length_dropWhile_le)

lemma num_int_shorter: "num_int s = Some (a, r) \<Longrightarrow> length r < length s"
  by (auto simp: num_int_def digits_span_def le_imp_less_Suc length_dropWhile_le
      split: list.splits if_splits)

lemma num_frac_le: "num_frac s = Some (a, r) \<Longrightarrow> length r \<le> length s"
  using length_dropWhile_le [of is_digit "tl s"]
  by (auto simp: num_frac_def digits_span_def split: if_splits)

lemma num_exp_le: "num_exp s = Some (a, r) \<Longrightarrow> length r \<le> length s"
  using length_dropWhile_le [of is_digit "tl s"] length_dropWhile_le [of is_digit "tl (tl s)"]
  by (auto simp: num_exp_def digits_span_def Let_def drop_Suc split: if_splits)

lemma num_body_shorter: "num_body s = Some (a, r) \<Longrightarrow> length r < length s"
  by (auto simp: num_body_def split: option.splits dest!: num_int_shorter num_frac_le num_exp_le)

lemma number_shorter: "json_number s = Some (a, r) \<Longrightarrow> length r < length s"
  by (fastforce simp: json_number_def split: list.splits if_splits dest: num_body_shorter)

lemma strip_prefix_shorter: "strip_prefix p s = Some r \<Longrightarrow> p \<noteq> [] \<Longrightarrow> length r < length s"
  by (cases s) (auto simp: strip_prefix_def split: if_splits)

lemma literal_shorter: "json_literal s = Some (v, r) \<Longrightarrow> length r < length s"
  by (auto simp: json_literal_def split: option.splits dest: strip_prefix_shorter number_shorter)

lemma read_fuel:
  "read_value n s = Some (v, r) \<Longrightarrow>
     length r < length s \<and> (\<forall>k. length s - length r \<le> k \<longrightarrow> read_value k s = Some (v, r))"
  "read_elems n s = Some (vs, r) \<Longrightarrow>
     length r < length s \<and> (\<forall>k. length s - length r \<le> k \<longrightarrow> read_elems k s = Some (vs, r))"
  "read_members n s = Some (ms, r) \<Longrightarrow>
     length r < length s \<and> (\<forall>k. length s - length r \<le> k \<longrightarrow> read_members k s = Some (ms, r))"
proof (induction n s and n s and n s arbitrary: v r and vs r and ms r
    rule: read_value_read_elems_read_members.induct)
  case (2 n s)
  consider (str) t x where "expect dquote s = Some t" "json_unquote t = Some (x, r)" "v = JStr x"
    | (obj0) t where "expect dquote s = None" "expect (CHR ''{'') s = Some t"
        "expect (CHR ''}'') t = Some r" "v = JObj []"
    | (obj) t ms where "expect dquote s = None" "expect (CHR ''{'') s = Some t"
        "expect (CHR ''}'') t = None" "read_members n t = Some (ms, r)"
        "v = JObj (map (\<lambda>(k, _, v). (k, v)) ms)"
    | (arr0) t where "expect dquote s = None" "expect (CHR ''{'') s = None" "expect (CHR ''['') s = Some t"
        "expect (CHR '']'') t = Some r" "v = JArr []"
    | (arr) t vs where "expect dquote s = None" "expect (CHR ''{'') s = None"
        "expect (CHR ''['') s = Some t" "expect (CHR '']'') t = None" "read_elems n t = Some (vs, r)"
        "v = JArr vs"
    | (lit) "expect dquote s = None" "expect (CHR ''{'') s = None" "expect (CHR ''['') s = None"
        "json_literal (skip_ws s) = Some (v, r)"
    using "2.prems" by (auto split: option.splits prod.splits)
  then show ?case
  proof cases
    case str
    from expect_shorter [OF str(1)] unquote_shorter [OF str(2)] have l: "length r < length s" by simp
    have "read_value k s = Some (v, r)" if "length s - length r \<le> k" for k
      using that l str by (cases k) simp_all
    with l show ?thesis by blast
  next
    case obj0
    from expect_shorter [OF obj0(2)] expect_shorter [OF obj0(3)] have l: "length r < length s" by simp
    have "read_value k s = Some (v, r)" if "length s - length r \<le> k" for k
      using that l obj0 by (cases k) simp_all
    with l show ?thesis by blast
  next
    case obj
    from "2.IH"(2) [OF obj(1-4)] have m: "length r < length t"
      "\<And>k. length t - length r \<le> k \<Longrightarrow> read_members k t = Some (ms, r)" by blast+
    from expect_shorter [OF obj(2)] m(1) have l: "length r < length s" by simp
    have "read_value k s = Some (v, r)" if "length s - length r \<le> k" for k
      using that l obj m(2) [of "k - 1"] expect_shorter [OF obj(2)] by (cases k) simp_all
    with l show ?thesis by blast
  next
    case arr0
    from expect_shorter [OF arr0(3)] expect_shorter [OF arr0(4)] have l: "length r < length s" by simp
    have "read_value k s = Some (v, r)" if "length s - length r \<le> k" for k
      using that l arr0 by (cases k) simp_all
    with l show ?thesis by blast
  next
    case arr
    from "2.IH"(1) [OF arr(1-5)] have m: "length r < length t"
      "\<And>k. length t - length r \<le> k \<Longrightarrow> read_elems k t = Some (vs, r)" by blast+
    from expect_shorter [OF arr(3)] m(1) have l: "length r < length s" by simp
    have "read_value k s = Some (v, r)" if "length s - length r \<le> k" for k
      using that l arr m(2) [of "k - 1"] expect_shorter [OF arr(3)] by (cases k) simp_all
    with l show ?thesis by blast
  next
    case lit
    from literal_shorter [OF lit(4)] length_dropWhile_le [of is_ws s] have l: "length r < length s" by simp
    have "read_value k s = Some (v, r)" if "length s - length r \<le> k" for k
      using that l lit by (cases k) simp_all
    with l show ?thesis by blast
  qed
next
  case (4 n s)
  from "4.prems" obtain x t where x: "read_value n s = Some (x, t)"
    by (auto split: option.splits)
  from "4.IH"(1) [OF x] have m: "length t < length s"
    "\<And>k. length s - length t \<le> k \<Longrightarrow> read_value k s = Some (x, t)" by blast+
  show ?case
  proof (cases "expect (CHR '','') t")
    case (Some t')
    with "4.prems" x obtain xs where xs: "read_elems n t' = Some (xs, r)" "vs = x # xs"
      by (auto split: option.splits)
    from "4.IH"(2) [OF x refl Some xs(1)] have m': "length r < length t'"
      "\<And>k. length t' - length r \<le> k \<Longrightarrow> read_elems k t' = Some (xs, r)" by blast+
    from expect_shorter [OF Some] m(1) m'(1) have l: "length r < length s" by simp
    have "read_elems k s = Some (vs, r)" if "length s - length r \<le> k" for k
      using that l xs Some m(1) m(2) [of "k - 1"] m'(1) m'(2) [of "k - 1"] expect_shorter [OF Some]
      by (cases k) simp_all
    with l show ?thesis by blast
  next
    case None
    with "4.prems" x have e: "expect (CHR '']'') t = Some r" "vs = [x]"
      by (auto split: option.splits)
    from expect_shorter [OF e(1)] m(1) have l: "length r < length s" by simp
    have "read_elems k s = Some (vs, r)" if "length s - length r \<le> k" for k
      using that l e None m(1) m(2) [of "k - 1"] expect_shorter [OF e(1)] by (cases k) simp_all
    with l show ?thesis by blast
  qed
next
  case (6 n s)
  from "6.prems" obtain q key r1 r2 v r3 where q: "expect dquote s = Some q"
      "json_unquote q = Some (key, r1)" "expect (CHR '':'') r1 = Some r2"
      and v: "read_value n (skip_ws r2) = Some (v, r3)"
    by (auto split: option.splits simp: Let_def)
  let ?m = "(key, take (length (skip_ws r2) - length r3) (skip_ws r2), v)"
  from "6.IH"(1) [OF q(1,2) refl q(3) refl v] have m: "length r3 < length (skip_ws r2)"
    "\<And>k. length (skip_ws r2) - length r3 \<le> k \<Longrightarrow> read_value k (skip_ws r2) = Some (v, r3)" by blast+
  have w: "length (skip_ws r2) \<le> length r2" by (rule length_dropWhile_le)
  note short = expect_shorter [OF q(1)] unquote_shorter [OF q(2)] expect_shorter [OF q(3)]
  show ?case
  proof (cases "expect (CHR '','') r3")
    case (Some r4)
    with "6.prems" q v obtain xs where xs: "read_members n r4 = Some (xs, r)" "ms = ?m # xs"
      by (auto split: option.splits simp: Let_def)
    from "6.IH"(2) [OF q(1,2) refl q(3) refl v refl refl Some xs(1)] have m': "length r < length r4"
      "\<And>k. length r4 - length r \<le> k \<Longrightarrow> read_members k r4 = Some (xs, r)" by blast+
    from short w expect_shorter [OF Some] m(1) m'(1) have l: "length r < length s" by simp
    have "read_members k s = Some (ms, r)" if "length s - length r \<le> k" for k
      using that l q xs Some m(1) m(2) [of "k - 1"] m'(1) m'(2) [of "k - 1"] short w
        expect_shorter [OF Some]
      by (cases k) (simp_all add: Let_def)
    with l show ?thesis by blast
  next
    case None
    with "6.prems" q v have e: "expect (CHR ''}'') r3 = Some r" "ms = [?m]"
      by (auto split: option.splits simp: Let_def)
    from short w expect_shorter [OF e(1)] m(1) have l: "length r < length s" by simp
    have "read_members k s = Some (ms, r)" if "length s - length r \<le> k" for k
      using that l q e None m(1) m(2) [of "k - 1"] short w expect_shorter [OF e(1)]
      by (cases k) (simp_all add: Let_def)
    with l show ?thesis by blast
  qed
qed simp_all

subsection \<open>Reading back what was printed\<close>

text \<open>What may follow a value without becoming part of it, and a text that is read as a value.\<close>

definition delim :: "string \<Rightarrow> bool" where
  "delim x \<longleftrightarrow> x = [] \<or> (\<not> is_digit (hd x) \<and> hd x \<notin> {CHR ''.'', CHR ''e'', CHR ''E''})"

definition reads :: "string \<Rightarrow> json \<Rightarrow> bool" where
  "reads t v \<longleftrightarrow> t \<noteq> [] \<and> \<not> is_ws (hd t) \<and> hd t \<notin> {CHR '']'', CHR ''}''} \<and>
     (\<exists>n. \<forall>x. delim x \<longrightarrow> read_value n (t @ x) = Some (v, x))"

lemma reads_value:
  assumes "reads t v" and "delim x" and "length t \<le> k"
  shows "read_value k (t @ x) = Some (v, x)"
proof -
  from assms(1,2) obtain n where "read_value n (t @ x) = Some (v, x)" by (auto simp: reads_def)
  from read_fuel(1) [OF this] assms(3) show ?thesis by simp
qed

lemma reads_front: "reads t v \<Longrightarrow> \<exists>c s. t = c # s \<and> \<not> is_ws c \<and> c \<noteq> CHR '']'' \<and> c \<noteq> CHR ''}''"
  by (cases t) (auto simp: reads_def)

lemma expect_front [simp]:
  "\<not> is_ws d \<Longrightarrow> expect c (d # s) = (if d = c then Some s else None)"
  by (simp add: expect_def)

lemma not_ws [simp]:
  "\<not> is_ws dquote" "\<not> is_ws (CHR ''{'')" "\<not> is_ws (CHR ''}'')" "\<not> is_ws (CHR ''['')"
  "\<not> is_ws (CHR '']'')" "\<not> is_ws (CHR '','')" "\<not> is_ws (CHR '':'')"
  by (simp_all add: is_ws_def dquote_def char_byte_eq)

lemma delim_chars [simp]:
  "delim []" "delim (CHR '','' # x)" "delim (CHR ''}'' # x)" "delim (CHR '']'' # x)"
  "delim (CHR '':'' # x)"
  by (simp_all add: delim_def is_digit_def)

lemma dquote_neq [simp]:
  "dquote \<noteq> CHR ''{''" "dquote \<noteq> CHR ''[''" "dquote \<noteq> CHR ''}''" "dquote \<noteq> CHR '']''"
  "CHR ''{'' \<noteq> dquote" "CHR ''['' \<noteq> dquote" "CHR ''}'' \<noteq> dquote"
  by (simp_all add: dquote_def char_byte_eq)

lemma reads_quote: "reads (json_quote s) (JStr (utf8_fix s))"
  unfolding reads_def json_quote_def
  by (auto intro!: exI [of _ "Suc 0"] simp: unquote_escape)

abbreviation member_text :: "string \<times> string \<Rightarrow> string" where
  "member_text \<equiv> \<lambda>(k, t). json_quote k @ CHR '':'' # t"

lemma read_member:
  assumes "valid_utf8 k" and "reads t v" and "delim x"
    and "length (member_text (k, t)) \<le> n"
  shows "read_members (Suc n) (member_text (k, t) @ x) =
    (case expect (CHR '','') x of
       Some r4 \<Rightarrow> (case read_members n r4 of None \<Rightarrow> None | Some (ms, r5) \<Rightarrow> Some ((k, t, v) # ms, r5))
     | None \<Rightarrow> (case expect (CHR ''}'') x of Some r4 \<Rightarrow> Some ([(k, t, v)], r4) | None \<Rightarrow> None))"
proof -
  have ws: "skip_ws (t @ x) = t @ x" using reads_front [OF assms(2)] by auto
  have "read_value n (t @ x) = Some (v, x)"
    using assms(4) by (intro reads_value [OF assms(2,3)]) simp
  then show ?thesis
    by (simp add: json_quote_def unquote_escape utf8_fix_valid [OF assms(1)] ws split: option.splits)
qed

lemma read_members_text:
  assumes "\<And>k t v. (k, t, v) \<in> set ms \<Longrightarrow> valid_utf8 k \<and> reads t v" and "ms \<noteq> []"
    and "length (commas (map (\<lambda>(k, t, v). member_text (k, t)) ms)) < n"
  shows "read_members n (commas (map (\<lambda>(k, t, v). member_text (k, t)) ms) @ CHR ''}'' # x) = Some (ms, x)"
  using assms
proof (induction ms arbitrary: n)
  case (Cons m ms)
  obtain k t v where m: "m = (k, t, v)" by (cases m)
  from Cons.prems(1) have kt: "valid_utf8 k" "reads t v" by (auto simp: m)
  obtain n' where n: "n = Suc n'" using Cons.prems(3) by (cases n) auto
  show ?case
  proof (cases ms)
    case Nil
    then show ?thesis using Cons.prems(3) read_member [OF kt, of "CHR ''}'' # x" n'] by (simp add: m n)
  next
    case (Cons m' ms')
    let ?t = "commas (map (\<lambda>(k, t, v). member_text (k, t)) ms)"
    have c: "commas (map (\<lambda>(k, t, v). member_text (k, t)) (m # ms)) = member_text (k, t) @ CHR '','' # ?t"
      by (simp add: m Cons)
    have "read_members n' (?t @ CHR ''}'' # x) = Some (ms, x)"
      using Cons.prems c n by (intro Cons.IH) (auto simp: Cons)
    then show ?thesis
      using Cons.prems(3) read_member [OF kt, of "CHR '','' # ?t @ CHR ''}'' # x" n'] c by (simp add: m n)
  qed
qed simp

lemma print_obj_alt:
  "print_obj (map (\<lambda>(k, t, v). (k, t)) ms) @ x =
     CHR ''{'' # commas (map (\<lambda>(k, t, v). member_text (k, t)) ms) @ CHR ''}'' # x"
  by (simp add: print_obj_def case_prod_unfold comp_def)

lemma member_texts_front:
  assumes "ms \<noteq> []"
  shows "\<exists>s. commas (map (\<lambda>(k, t, v). member_text (k, t)) ms) = dquote # s"
proof (cases ms)
  case (Cons m ms')
  obtain k t v where "m = (k, t, v)" by (cases m)
  then show ?thesis by (cases ms') (simp_all add: Cons json_quote_def)
qed (use assms in simp)

lemma reads_obj:
  assumes "\<And>k t v. (k, t, v) \<in> set ms \<Longrightarrow> valid_utf8 k \<and> reads t v"
  shows "reads (print_obj (map (\<lambda>(k, t, v). (k, t)) ms)) (JObj (map (\<lambda>(k, t, v). (k, v)) ms))"
proof (cases "ms = []")
  case True
  then show ?thesis
    by (auto simp: reads_def print_obj_def intro!: exI [of _ "Suc 0"])
next
  case False
  let ?c = "commas (map (\<lambda>(k, t, v). member_text (k, t)) ms)"
  obtain c where c: "?c = dquote # c" using member_texts_front [OF False] by blast
  have "read_value (Suc (Suc (length ?c))) (print_obj (map (\<lambda>(k, t, v). (k, t)) ms) @ x) =
      Some (JObj (map (\<lambda>(k, t, v). (k, v)) ms), x)" for x
  proof -
    have "read_members (Suc (length ?c)) (?c @ CHR ''}'' # x) = Some (ms, x)"
      using read_members_text [OF assms False lessI] .
    moreover have "expect (CHR ''}'') (?c @ CHR ''}'' # x) = None" using c by simp
    ultimately show ?thesis unfolding print_obj_alt
      by (subst read_value.simps) simp
  qed
  then show ?thesis unfolding reads_def
    by (auto simp: print_obj_def intro!: exI [of _ "Suc (Suc (length ?c))"])
qed

lemma reads_parse: "reads t v \<Longrightarrow> json_parse t = Some v"
  using reads_value [of t v "[]" "Suc (length t)"] by (simp add: json_parse_def)

lemma struct_members_obj:
  assumes "\<And>k t v. (k, t, v) \<in> set ms \<Longrightarrow> valid_utf8 k \<and> reads t v"
  shows "struct_members (print_obj (map (\<lambda>(k, t, v). (k, t)) ms)) = Some ms"
proof -
  have p: "json_parse (print_obj (map (\<lambda>(k, t, v). (k, t)) ms)) = Some (JObj (map (\<lambda>(k, t, v). (k, v)) ms))"
    by (rule reads_parse [OF reads_obj]) (rule assms)
  show ?thesis
  proof (cases "ms = []")
    case True
    then show ?thesis using p by (simp add: struct_members_def)
  next
    case False
    let ?c = "commas (map (\<lambda>(k, t, v). member_text (k, t)) ms)"
    have t: "print_obj (map (\<lambda>(k, t, v). (k, t)) ms) = CHR ''{'' # ?c @ [CHR ''}'']"
      using print_obj_alt [of ms "[]"] by simp
    have "read_members (Suc (Suc (length ?c))) (?c @ CHR ''}'' # []) = Some (ms, [])"
      by (rule read_members_text [OF assms False]) simp_all
    then show ?thesis using p False by (simp add: struct_members_def t del: read_members.simps)
  qed
qed

lemma read_elems_text:
  assumes "list_all2 reads ts vs" and "ts \<noteq> []" and "length (commas ts) < n"
  shows "read_elems n (commas ts @ CHR '']'' # x) = Some (vs, x)"
  using assms
proof (induction ts arbitrary: n vs)
  case (Cons t ts)
  from Cons.prems(1) obtain v vs' where v: "vs = v # vs'" "reads t v" "list_all2 reads ts vs'"
    by (auto simp: list_all2_Cons1)
  obtain n' where n: "n = Suc n'" using Cons.prems(3) by (cases n) auto
  show ?case
  proof (cases ts)
    case Nil
    have "read_value n' (t @ CHR '']'' # x) = Some (v, CHR '']'' # x)"
      using Cons.prems(3) by (intro reads_value [OF v(2)]) (simp_all add: Nil n)
    then show ?thesis using v by (simp add: Nil n)
  next
    case (Cons t' ts')
    have c: "commas (t # ts) = t @ CHR '','' # commas ts" by (simp add: Cons)
    have "read_value n' (t @ CHR '','' # commas ts @ CHR '']'' # x) =
        Some (v, CHR '','' # commas ts @ CHR '']'' # x)"
      using Cons.prems(3) c n by (intro reads_value [OF v(2)]) simp_all
    moreover have "read_elems n' (commas ts @ CHR '']'' # x) = Some (vs', x)"
      using Cons.prems(3) c n v(3) by (intro Cons.IH) (simp_all add: Cons)
    ultimately show ?thesis by (simp add: c n v(1))
  qed
qed simp

lemma reads_arr:
  assumes "list_all2 reads ts vs"
  shows "reads (CHR ''['' # commas ts @ '']'') (JArr vs)"
proof (cases "ts = []")
  case True
  then show ?thesis using assms by (auto simp: reads_def intro!: exI [of _ "Suc 0"])
next
  case False
  then obtain t ts' v where "ts = t # ts'" "reads t v" using assms by (cases ts) (auto simp: list_all2_Cons1)
  then obtain c s where c: "commas ts = c # s" "\<not> is_ws c" "c \<noteq> CHR '']''"
    using reads_front [of t v] by (cases ts') auto
  have "read_value (Suc (Suc (length (commas ts)))) ((CHR ''['' # commas ts @ '']'') @ x) = Some (JArr vs, x)"
    for x
    using read_elems_text [OF assms False, of "Suc (length (commas ts))" x] c
    by (subst read_value.simps) simp
  then show ?thesis unfolding reads_def by (auto intro!: exI [of _ "Suc (Suc (length (commas ts)))"])
qed

text \<open>Numbers and literals.\<close>

lemma digits_span_append: "delim x \<Longrightarrow> digits_span (s @ x) = (fst (digits_span s), snd (digits_span s) @ x)"
  by (cases x) (auto simp: digits_span_def delim_def takeWhile_append dropWhile_append
      intro: takeWhile_eq_all_conv [THEN iffD2, symmetric])

lemma num_int_append: "num_int s = Some (a, r) \<Longrightarrow> delim x \<Longrightarrow> num_int (s @ x) = Some (a, r @ x)"
  using digits_span_append [of x s] by (cases s) (auto simp: num_int_def split: if_splits)

lemma num_frac_append: "num_frac s = Some (a, r) \<Longrightarrow> delim x \<Longrightarrow> num_frac (s @ x) = Some (a, r @ x)"
  using digits_span_append [of x "tl s"]
  by (cases s) (auto simp: num_frac_def delim_def split: if_splits prod.splits)

lemma num_exp_append:
  assumes "num_exp s = Some (a, r)" and "delim x"
  shows "num_exp (s @ x) = Some (a, r @ x)"
proof (cases s)
  case Nil
  then show ?thesis using assms by (auto simp: num_exp_def delim_def)
next
  case (Cons c s')
  show ?thesis
  proof (cases s')
    case Nil
    then show ?thesis using assms Cons by (auto simp: num_exp_def digits_span_def split: if_splits)
  next
    case (Cons d s'')
    then show ?thesis
      using assms \<open>s = c # s'\<close> digits_span_append [OF assms(2), of s'] digits_span_append [OF assms(2), of s'']
      by (auto simp: num_exp_def Let_def split: if_splits prod.splits)
  qed
qed

lemma num_body_append:
  "num_body s = Some (a, r) \<Longrightarrow> delim x \<Longrightarrow> num_body (s @ x) = Some (a, r @ x)"
  by (auto simp: num_body_def num_int_append num_frac_append num_exp_append split: option.splits)

lemma json_number_append:
  "json_number s = Some (a, r) \<Longrightarrow> delim x \<Longrightarrow> json_number (s @ x) = Some (a, r @ x)"
  by (cases s) (auto simp: json_number_def split: if_splits dest: num_body_append)

lemma number_front: "json_number s = Some (a, r) \<Longrightarrow> \<exists>c s'. s = c # s' \<and> (is_digit c \<or> c = CHR ''-'')"
  by (cases s)
    (auto simp: json_number_def num_body_def num_int_def is_digit_def split: if_splits option.splits)

lemma json_digit_chars [simp]:
  "\<not> is_digit (CHR ''n'')" "\<not> is_digit (CHR ''t'')" "\<not> is_digit (CHR ''f'')" "\<not> is_digit (CHR ''{'')"
  "\<not> is_digit (CHR ''['')" "\<not> is_digit (CHR '']'')" "\<not> is_digit (CHR ''}'')" "\<not> is_digit dquote"
  by (simp_all add: is_digit_def dquote_def)

lemma digit_not_ws: "is_digit c \<Longrightarrow> \<not> is_ws c"
  by (auto simp: is_digit_def is_ws_def)

lemma reads_num:
  assumes "json_number l = Some (l, [])"
  shows "reads l (JNum l)"
proof -
  obtain c l' where l: "l = c # l'" and c: "is_digit c \<or> c = CHR ''-''"
    using number_front [OF assms] by blast
  have ws: "\<not> is_ws c" using c digit_not_ws by (auto simp: is_ws_def)
  have ne: "c \<noteq> CHR ''n''" "c \<noteq> CHR ''t''" "c \<noteq> CHR ''f''" "c \<noteq> dquote" "c \<noteq> CHR ''{''" "c \<noteq> CHR ''[''"
      "c \<noteq> CHR '']''" "c \<noteq> CHR ''}''"
    using c by (auto simp: is_digit_def dquote_def char_byte_eq)
  have "read_value 1 (l @ x) = Some (JNum l, x)" if "delim x" for x
    using json_number_append [OF assms that] ws ne
    by (simp add: l json_literal_def strip_prefix_def)
  then show ?thesis using ws ne by (auto simp: reads_def l intro!: exI [of _ 1])
qed

lemma reads_word:
  "reads ''null'' JNull" "reads ''true'' (JBool True)" "reads ''false'' (JBool False)"
  by (auto simp: reads_def is_ws_def json_literal_def strip_prefix_def dquote_def char_byte_eq
      intro!: exI [of _ "Suc 0"])

text \<open>The decimal literals the encoder writes for integers.\<close>

lemma dec_front: "0 < n \<Longrightarrow> hd (dec n) \<noteq> CHR ''0''"
proof (induction n rule: dec.induct)
  case (1 n)
  show ?case
  proof (cases "n < 10")
    case True
    then show ?thesis using "1.prems" by (simp add: dec.simps [of n] char_byte_eq)
  next
    case False
    then show ?thesis using "1.IH" by (simp add: dec.simps [of n])
  qed
qed

lemma dec_number: "json_number (dec n) = Some (dec n, [])"
proof -
  have d: "takeWhile is_digit (dec n) = dec n" "dropWhile is_digit (dec n) = []"
    using dec_digits by (auto simp: takeWhile_eq_all_conv)
  obtain c s where s: "dec n = c # s" by (cases "dec n") auto
  have c: "is_digit c" using dec_digits [of c n] by (simp add: s)
  then have m: "c \<noteq> CHR ''-''" by (auto simp: is_digit_def)
  have z: "c = CHR ''0'' \<Longrightarrow> s = []"
    using dec_front [of n] s by (cases "n = 0") (auto simp: dec.simps [of 0])
  show ?thesis
    using c m z d by (auto simp: json_number_def num_body_def num_int_def num_frac_def num_exp_def digits_span_def s)
qed

lemma neg_dec_number: "json_number (CHR ''-'' # dec n) = Some (CHR ''-'' # dec n, [])"
proof -
  obtain c s where s: "dec n = c # s" by (cases "dec n") auto
  have "c \<noteq> CHR ''-''" using dec_digits [of c n] by (auto simp: s is_digit_def)
  then have "num_body (dec n) = Some (dec n, [])" using dec_number [of n] by (simp add: json_number_def s)
  then show ?thesis by (simp add: json_number_def)
qed

definition jnat :: "nat \<Rightarrow> json" where
  "jnat n = JNum (dec n)"

definition jint :: "int \<Rightarrow> json" where
  "jint x = JNum (if x < 0 then CHR ''-'' # dec (nat (- x)) else dec (nat x))"

subsection \<open>Trees\<close>

fun json_ok :: "json \<Rightarrow> bool" where
  "json_ok (JNum l) \<longleftrightarrow> json_number l = Some (l, [])"
| "json_ok (JArr vs) \<longleftrightarrow> list_all json_ok vs"
| "json_ok (JObj kvs) \<longleftrightarrow> list_all (\<lambda>(k, v). valid_utf8 k \<and> json_ok v) kvs"
| "json_ok _ \<longleftrightarrow> True"

fun json_norm :: "json \<Rightarrow> json" where
  "json_norm (JStr s) = JStr (utf8_fix s)"
| "json_norm (JArr vs) = JArr (map json_norm vs)"
| "json_norm (JObj kvs) = JObj (map (\<lambda>(k, v). (k, json_norm v)) kvs)"
| "json_norm v = v"

lemma json_int [simp]:
  "json_ok (jnat n)" "json_ok (jint x)" "json_norm (jnat n) = jnat n" "json_norm (jint x) = jint x"
  by (simp_all add: jnat_def jint_def dec_number neg_dec_number)

lemma reads_print: "json_ok v \<Longrightarrow> reads (json_print v) (json_norm v)"
proof (induction v rule: json_print.induct)
  case (5 vs)
  then have "list_all2 reads (map json_print vs) (map json_norm vs)"
    by (auto simp: list_all2_conv_all_nth list_all_length)
  then show ?case by (simp add: reads_arr)
next
  case (6 kvs)
  let ?ms = "map (\<lambda>(k, v). (k, json_print v, json_norm v)) kvs"
  have "reads (print_obj (map (\<lambda>(k, t, v). (k, t)) ?ms)) (JObj (map (\<lambda>(k, t, v). (k, v)) ?ms))"
    using "6.IH" "6.prems" by (intro reads_obj) (auto simp: list_all_iff)
  then show ?case by (simp add: comp_def case_prod_unfold)
qed (simp_all add: reads_word reads_num reads_quote)

lemma parse_print: "json_ok v \<Longrightarrow> json_parse (json_print v) = Some (json_norm v)"
  by (rule reads_parse [OF reads_print])

subsection \<open>Raw messages\<close>

text \<open>
  \<open>appendCompact\<close> as it is applied to what a \<open>json.RawMessage\<close> marshals to: the text must be valid
  JSON; white space outside strings goes, and the HTML-sensitive bytes and the two line separators
  become escapes. The two flags say whether the position is inside a string and behind a backslash.
\<close>

function compact_bytes :: "bool \<Rightarrow> bool \<Rightarrow> string \<Rightarrow> string" where
  "compact_bytes q e s =
     (if s = [] then []
      else if line_sep s
        then backslash # ''u202'' @ hex_digit (byte (s ! 2) mod 16) # compact_bytes q False (drop 3 s)
      else
        let c = hd s;
            q' = (if q then e \<or> c \<noteq> dquote else c = dquote);
            e' = (q \<and> \<not> e \<and> c = backslash);
            t = (if c = CHR ''<'' \<or> c = CHR ''>'' \<or> c = CHR ''&''
                   then [backslash, CHR ''u'', CHR ''0'', CHR ''0''] @ hex_byte c
                 else if \<not> q \<and> is_ws c then [] else [c])
        in t @ compact_bytes q' e' (tl s))"
  by pat_completeness auto
termination
  by (relation "measure (\<lambda>(q, e, s). length s)") auto

declare compact_bytes.simps [simp del]

definition json_compact :: "string \<Rightarrow> string option" where
  "json_compact s = (if json_parse s = None then None else Some (compact_bytes False False s))"

lemma compact_Nil [simp]: "compact_bytes q e [] = []"
  by (simp add: compact_bytes.simps)

text \<open>A byte that is copied: outside strings, inside them, and behind a backslash.\<close>

lemma line_sep_front: "line_sep s \<Longrightarrow> byte (hd s) = 226"
  by (cases s) (auto simp: line_sep_def)

lemma compact_outside:
  "\<not> is_ws c \<Longrightarrow> c \<notin> {dquote, CHR ''<'', CHR ''>'', CHR ''&''} \<Longrightarrow> byte c \<noteq> 226 \<Longrightarrow>
     compact_bytes False False (c # x) = c # compact_bytes False False x"
  using line_sep_front [of "c # x"] by (subst compact_bytes.simps) (auto simp: Let_def)

lemma compact_dquote:
  "compact_bytes False False (dquote # x) = dquote # compact_bytes True False x"
  "compact_bytes True False (dquote # x) = dquote # compact_bytes False False x"
  using line_sep_front [of "dquote # x"]
  by (subst compact_bytes.simps; auto simp: Let_def quote_bytes is_ws_def)+

lemma compact_inside:
  "c \<notin> {dquote, backslash, CHR ''<'', CHR ''>'', CHR ''&''} \<Longrightarrow> \<not> line_sep (c # x) \<Longrightarrow>
     compact_bytes True False (c # x) = c # compact_bytes True False x"
  by (subst compact_bytes.simps) (auto simp: Let_def)

lemma compact_escaped:
  "c \<notin> {CHR ''<'', CHR ''>'', CHR ''&''} \<Longrightarrow> byte c \<noteq> 226 \<Longrightarrow>
     compact_bytes True False (backslash # c # x) = backslash # c # compact_bytes True False x"
  using line_sep_front [of "backslash # c # x"] line_sep_front [of "c # x"]
  by (subst compact_bytes.simps, subst compact_bytes.simps) (auto simp: Let_def quote_bytes)

lemma not_sep_ascii: "byte c \<noteq> 226 \<Longrightarrow> \<not> line_sep (c # x)"
  using line_sep_front [of "c # x"] by auto

lemma hex_digit_plain:
  "n < 16 \<Longrightarrow> hex_digit n \<notin> {dquote, backslash, CHR ''<'', CHR ''>'', CHR ''&''} \<and> byte (hex_digit n) \<noteq> 226"
  by (auto simp: hex_digit_def quote_bytes char_byte_eq)

lemma compact_ascii:
  assumes "byte c < 128"
  shows "compact_bytes True False (escape_ascii c @ x) = escape_ascii c @ compact_bytes True False x"
proof -
  have h: "hex_byte c = [hex_digit (byte c div 16), hex_digit (byte c mod 16)]" by (simp add: hex_byte_def)
  note hd = hex_digit_plain [of "byte c div 16"] hex_digit_plain [of "byte c mod 16"]
  have u: "compact_bytes True False (backslash # CHR ''u'' # CHR ''0'' # CHR ''0'' # hex_byte c @ x) =
      backslash # CHR ''u'' # CHR ''0'' # CHR ''0'' # hex_byte c @ compact_bytes True False x"
    using hd by (simp add: compact_escaped compact_inside not_sep_ascii h quote_bytes)
  have "byte c \<noteq> 226" using assms by simp
  then show ?thesis
    using u by (auto simp: escape_ascii_def compact_escaped compact_inside not_sep_ascii quote_bytes)
qed

lemma compact_conts:
  "list_all is_cont p \<Longrightarrow> compact_bytes True False (p @ x) = p @ compact_bytes True False x"
proof (induction p)
  case (Cons c p)
  then have "c \<notin> {dquote, backslash, CHR ''<'', CHR ''>'', CHR ''&''}" "byte c \<noteq> 226"
    by (auto simp: is_cont_def quote_bytes)
  with Cons show ?case by (simp add: compact_inside not_sep_ascii)
qed simp

lemma utf8_tail_conts: "list_all is_cont (tl (take (utf8_len s) s))"
  by (cases s) (auto simp: utf8_len.simps split: list.splits)

lemma compact_rune:
  assumes "s \<noteq> []"
  shows "compact_bytes True False (fst (escape_rune s) @ x) = fst (escape_rune s) @ compact_bytes True False x"
proof -
  obtain c s' where s: "s = c # s'" using assms by (cases s) auto
  have u: "compact_bytes True False (backslash # ''u202'' @ hex_digit n # x) =
      backslash # ''u202'' @ hex_digit n # compact_bytes True False x" if "n < 16" for n x
    using hex_digit_plain [OF that]
    by (simp add: compact_escaped compact_inside not_sep_ascii quote_bytes)
  consider (ascii) "byte c < 128" | (bad) "\<not> byte c < 128" "utf8_len s = 0"
    | (sep) "\<not> byte c < 128" "utf8_len s \<noteq> 0" "line_sep s"
    | (multi) "\<not> byte c < 128" "utf8_len s \<noteq> 0" "\<not> line_sep s" by blast
  then show ?thesis
  proof cases
    case ascii
    then show ?thesis using compact_ascii [OF ascii] by (simp add: escape_rune_def s)
  next
    case bad
    then show ?thesis
      by (simp add: escape_rune_def Let_def s compact_escaped compact_inside not_sep_ascii quote_bytes)
  next
    case sep
    then show ?thesis using u [of "byte (s ! 2) mod 16" x] by (simp add: escape_rune_def Let_def s)
  next
    case multi
    have t: "fst (escape_rune s) = take (utf8_len s) s" using multi by (simp add: escape_rune_def Let_def s)
    obtain p where p: "take (utf8_len s) s = c # p" using multi(2) by (cases "utf8_len s") (simp_all add: s)
    have "list_all is_cont p" using utf8_tail_conts [of s] by (simp add: p)
    moreover have "\<not> line_sep (c # p @ x)"
    proof
      assume l: "line_sep (c # p @ x)"
      then have "utf8_len s = 3" using line_sep_len utf8_len_front [OF multi(2), of x] by (simp add: p)
      then have "line_sep s" using l p utf8_len_bound [of s]
        by (auto simp: line_sep_def s numeral_2_eq_2 numeral_3_eq_3 Suc_le_length_iff)
      then show False using multi(3) by simp
    qed
    moreover have "c \<notin> {dquote, backslash, CHR ''<'', CHR ''>'', CHR ''&''}"
      using multi(1) by (auto simp: quote_bytes)
    ultimately show ?thesis by (simp add: t p compact_inside compact_conts)
  qed
qed

lemma compact_string:
  "compact_bytes True False (json_escape s @ dquote # x) = json_escape s @ dquote # compact_bytes False False x"
proof (induction s rule: json_escape.induct)
  case (1 s)
  show ?case
  proof (cases "s = []")
    case True
    then show ?thesis by (simp add: json_escape.simps [of "[]"] compact_dquote)
  next
    case False
    then show ?thesis using "1.IH" [OF False]
      by (simp add: json_escape.simps [of s] compact_rune)
  qed
qed

text \<open>A text that compaction copies, whatever follows.\<close>

definition compacted :: "string \<Rightarrow> bool" where
  "compacted t \<longleftrightarrow> (\<forall>x. compact_bytes False False (t @ x) = t @ compact_bytes False False x)"

lemma compacted_simps:
  "compacted []" "compacted s \<Longrightarrow> compacted t \<Longrightarrow> compacted (s @ t)" "compacted (json_quote s)"
  by (simp_all add: compacted_def json_quote_def compact_dquote compact_string)

lemma compacted_plain:
  "\<not> is_ws c \<Longrightarrow> c \<notin> {dquote, CHR ''<'', CHR ''>'', CHR ''&''} \<Longrightarrow> byte c \<noteq> 226 \<Longrightarrow> compacted t \<Longrightarrow>
     compacted (c # t)"
  by (simp add: compacted_def compact_outside)

lemma compacted_punct:
  "compacted t \<Longrightarrow> compacted (CHR ''{'' # t)" "compacted t \<Longrightarrow> compacted (CHR ''}'' # t)"
  "compacted t \<Longrightarrow> compacted (CHR ''['' # t)" "compacted t \<Longrightarrow> compacted (CHR '']'' # t)"
  "compacted t \<Longrightarrow> compacted (CHR '','' # t)" "compacted t \<Longrightarrow> compacted (CHR '':'' # t)"
  by (rule compacted_plain; simp add: dquote_def char_byte_eq)+

lemma compacted_commas: "list_all compacted ts \<Longrightarrow> compacted (commas ts)"
  by (induction ts rule: commas.induct) (auto intro: compacted_simps compacted_punct)

lemma compacted_obj: "list_all (\<lambda>(k, t). compacted t) ms \<Longrightarrow> compacted (print_obj ms)"
  unfolding print_obj_def
  by (intro compacted_punct compacted_simps compacted_commas)
    (auto simp: list_all_iff intro!: compacted_simps compacted_punct)

definition number_char :: "char \<Rightarrow> bool" where
  "number_char c \<longleftrightarrow> is_digit c \<or> c \<in> {CHR ''+'', CHR ''-'', CHR ''.'', CHR ''e'', CHR ''E''}"

lemma span_chars: "digits_span s = (a, r) \<Longrightarrow> list_all number_char a"
  by (auto simp: digits_span_def list_all_iff number_char_def dest: set_takeWhileD)

lemma num_chars:
  "num_int s = Some (a, r) \<Longrightarrow> list_all number_char a"
  "num_frac s = Some (a, r) \<Longrightarrow> list_all number_char a"
  "num_exp s = Some (a, r) \<Longrightarrow> list_all number_char a"
  by (auto simp: num_int_def num_frac_def num_exp_def number_char_def is_digit_def Let_def
      split: list.splits if_splits prod.splits dest!: span_chars)

lemma number_chars: "json_number s = Some (a, r) \<Longrightarrow> list_all number_char a"
  by (cases s)
    (auto simp: json_number_def num_body_def number_char_def split: if_splits option.splits
      dest!: num_chars)

lemma compacted_number: "list_all number_char l \<Longrightarrow> compacted l"
proof (induction l)
  case (Cons c l)
  then have "\<not> is_ws c" "c \<notin> {dquote, CHR ''<'', CHR ''>'', CHR ''&''}" "byte c \<noteq> 226"
    by (auto simp: number_char_def is_digit_def is_ws_def quote_bytes)
  with Cons show ?case by (simp add: compacted_plain)
qed (simp add: compacted_simps)

lemma compacted_print: "json_ok v \<Longrightarrow> compacted (json_print v)"
proof (induction v rule: json_print.induct)
  case (3 l)
  then show ?case using compacted_number [OF number_chars [of l l "[]"]] by simp
next
  case (5 vs)
  then show ?case
    by (auto simp: list_all_iff intro!: compacted_punct compacted_simps compacted_commas)
next
  case (6 kvs)
  have "compacted (json_print v)" if "(k, v) \<in> set kvs" for k v
    using "6.IH" [OF that refl] "6.prems" that by (auto simp: list_all_iff)
  then show ?case by (auto simp: list_all_iff intro!: compacted_obj)
qed (auto intro!: compacted_simps compacted_plain simp: is_ws_def quote_bytes)

lemma compact_print: "json_ok v \<Longrightarrow> json_compact (json_print v) = Some (json_print v)"
  using compacted_print [of v] parse_print [of v]
  by (simp add: json_compact_def compacted_def) (metis append_Nil2 compact_Nil)

subsection \<open>Struct fields\<close>

text \<open>
  A key selects the field whose name it equals up to case folding; besides the ASCII letters only the
  long s and the Kelvin sign fold to a letter. The fields here have lower-case ASCII names.
\<close>

definition to_lower :: "char \<Rightarrow> char" where
  "to_lower c = (if 65 \<le> byte c \<and> byte c \<le> 90 then char_of (byte c + 32) else c)"

function fold_name :: "string \<Rightarrow> string" where
  "fold_name s =
     (if s = [] then []
      else if map byte (take 2 s) = [197, 191] then CHR ''s'' # fold_name (drop 2 s)
      else if map byte (take 3 s) = [226, 132, 170] then CHR ''k'' # fold_name (drop 3 s)
      else to_lower (hd s) # fold_name (tl s))"
  by pat_completeness auto
termination
  by (relation "measure length") auto

declare fold_name.simps [simp del]

lemma fold_name_Nil [simp]: "fold_name [] = []"
  by (simp add: fold_name.simps)

lemma fold_name_ascii [simp]: "byte c < 128 \<Longrightarrow> fold_name (c # s) = to_lower c # fold_name s"
  by (subst fold_name.simps) (auto simp: numeral_2_eq_2 numeral_3_eq_3)

text \<open>A \<open>null\<close> leaves a field as it is; a value of the wrong type is an error.\<close>

fun field_string :: "json \<Rightarrow> string \<Rightarrow> string option" where
  "field_string (JStr s) old = Some s"
| "field_string JNull old = Some old"
| "field_string _ old = None"

definition all_digits :: "string \<Rightarrow> bool" where
  "all_digits l \<longleftrightarrow> l \<noteq> [] \<and> list_all is_digit l"

fun field_uint :: "nat \<Rightarrow> json \<Rightarrow> nat \<Rightarrow> nat option" where
  "field_uint w (JNum l) old = (if all_digits l \<and> undec l < 2 ^ w then Some (undec l) else None)"
| "field_uint w JNull old = Some old"
| "field_uint w _ old = None"

definition parse_int :: "string \<Rightarrow> int option" where
  "parse_int l =
     (case l of [] \<Rightarrow> None
      | c # r \<Rightarrow>
          if c = CHR ''-'' then (if all_digits r then Some (- int (undec r)) else None)
          else if all_digits l then Some (int (undec l)) else None)"

fun field_int64 :: "json \<Rightarrow> int \<Rightarrow> int option" where
  "field_int64 (JNum l) old =
     (case parse_int l of Some x \<Rightarrow> if is_int64 x then Some x else None | None \<Rightarrow> None)"
| "field_int64 JNull old = Some old"
| "field_int64 _ old = None"

text \<open>The members of the text in order, each given to the decoder of its field.\<close>

fun decode_members ::
  "('a \<Rightarrow> string \<Rightarrow> string \<Rightarrow> json \<Rightarrow> 'a option) \<Rightarrow> (string \<times> string \<times> json) list \<Rightarrow> 'a \<Rightarrow> 'a option" where
  "decode_members f [] a = Some a"
| "decode_members f ((k, t, v) # ms) a =
     (case f a (fold_name k) t v of None \<Rightarrow> None | Some a' \<Rightarrow> decode_members f ms a')"

definition decode_struct :: "('a \<Rightarrow> string \<Rightarrow> string \<Rightarrow> json \<Rightarrow> 'a option) \<Rightarrow> 'a \<Rightarrow> string \<Rightarrow> 'a option" where
  "decode_struct f zero s =
     (case struct_members s of None \<Rightarrow> None | Some ms \<Rightarrow> decode_members f ms zero)"

lemma all_digits_dec [simp]: "all_digits (dec n)"
  using dec_digits by (auto simp: all_digits_def list_all_iff)

lemma field_uint_jnat [simp]: "n < 2 ^ w \<Longrightarrow> field_uint w (jnat n) old = Some n"
  by (simp add: jnat_def)

lemma field_int64_jint [simp]:
  assumes "is_int64 x"
  shows "field_int64 (jint x) old = Some x"
proof -
  have d: "hd (dec n) \<noteq> CHR ''-''" for n
    using dec_digits [of "hd (dec n)" n] by (auto simp: is_digit_def)
  have "parse_int (dec n) = Some (int n)" for n
  proof -
    obtain c s where s: "dec n = c # s" by (cases "dec n") auto
    then have "c \<noteq> CHR ''-''" "all_digits (c # s)" "undec (c # s) = n"
      using d [of n] all_digits_dec [of n] undec_dec [of n] by simp_all
    then show ?thesis by (simp add: parse_int_def s)
  qed
  moreover have "parse_int (CHR ''-'' # dec n) = Some (- int n)" for n by (simp add: parse_int_def)
  ultimately show ?thesis using assms by (simp add: jint_def)
qed

subsection \<open>Hexadecimal\<close>

text \<open>\<open>hex.DecodeString\<close>: pairs of digits of either case.\<close>

fun hex_decode :: "string \<Rightarrow> string option" where
  "hex_decode [] = Some []"
| "hex_decode [_] = None"
| "hex_decode (a # b # s) =
     (case (hex_val a, hex_val b, hex_decode s) of
        (Some x, Some y, Some r) \<Rightarrow> Some (char_of (16 * x + y) # r)
      | _ \<Rightarrow> None)"

lemma hex_decode_encode [simp]: "hex_decode (hex_encode bs) = Some bs"
proof (induction bs)
  case (Cons b bs)
  have "char_of (16 * (byte b div 16) + byte b mod 16) = b"
    by (simp add: mult.commute [of 16] div_mult_mod_eq)
  then show ?case using Cons by (simp add: hex_encode_def hex_byte_def)
qed (simp add: hex_encode_def)

lemma length_hex_decode: "hex_decode s = Some bs \<Longrightarrow> length s = 2 * length bs"
  by (induction s arbitrary: bs rule: hex_decode.induct) (auto split: option.splits)

end
