(* ===== verification/Audit_Event.thy ===== *)
theory Audit_Event
  imports Control_Types Quota Json
begin

text \<open>
  The OCSF events of \<open>internal/audit/ocsf/event.go\<close> and \<open>authn.go\<close>: the mapping of an audit record,
  of a chain break and of an authentication act onto an event, and the JSON text of an event
  (\<open>json.Marshal\<close> over the struct, fields in declaration order, \<open>omitempty\<close> fields left out).
  The numeric identifiers are small constants and are kept as numbers.
\<close>

subsection \<open>Events\<close>

record User =
  UsName :: string
  UIDAlt :: string

record Actor =
  AcUser :: User
  AcSessionUID :: string
  InvokedBy :: string

record Entity =
  EnType :: string
  EnUID :: string

record Unmapped =
  UmAction :: string
  UmReason :: string
  UmRevokeOutcome :: string
  UmWarmHit :: bool

record Metadata =
  MdProduct :: string
  MdVersion :: string
  LogProvider :: string
  CorrelationUID :: string
  MdUnmapped :: Unmapped

text \<open>
  The one-field objects \<open>API\<close>, \<open>Service\<close>, \<open>Certificate\<close>, \<open>Session\<close>, \<open>Product\<close> and \<open>ChainBreakInfo\<close>
  are represented by their field.
\<close>

record OCSFEvent =
  ClassUID :: nat
  CategoryUID :: nat
  TypeUID :: nat
  ActivityID :: nat
  ActivityName :: string
  EvTime :: int
  TimeDT :: string
  StatusID :: nat
  EvStatus :: string
  SeverityID :: nat
  EvAPI :: "string option"
  EvEntity :: "Entity option"
  StatusDetail :: string
  EvUser :: "User option"
  EvService :: "string option"
  LogonTypeID :: nat
  AuthProtocol :: string
  EvCertificate :: "string option"
  EvActor :: Actor
  EvMetadata :: Metadata
  ChainBreak :: "string option"

definition classUIDAPIActivity :: nat where "classUIDAPIActivity = 6003"
definition classUIDEntityManagement :: nat where "classUIDEntityManagement = 3004"
definition classUIDAuthentication :: nat where "classUIDAuthentication = 3002"
definition categoryUIDIdentityAndAccess :: nat where "categoryUIDIdentityAndAccess = 3"
definition categoryUIDApplicationActivity :: nat where "categoryUIDApplicationActivity = 6"
definition schemaVersion :: string where "schemaVersion = ''1.3.0''"
definition productName :: string where "productName = ''ocu-control''"

definition activityCreate :: nat where "activityCreate = 1"
definition activityUpdate :: nat where "activityUpdate = 3"
definition activityDelete :: nat where "activityDelete = 4"
definition activityOther :: nat where "activityOther = 99"
definition statusSuccess :: nat where "statusSuccess = 1"
definition statusFailure :: nat where "statusFailure = 2"
definition severityInformational :: nat where "severityInformational = 1"
definition severityHigh :: nat where "severityHigh = 4"
definition ChainBreakUnreadable :: string where "ChainBreakUnreadable = ''unreadable''"

subsection \<open>The mapping\<close>

fun activityFor :: "Action \<Rightarrow> nat \<times> string" where
  "activityFor ActionCreateCommit = (activityCreate, Action_String ActionCreateCommit)"
| "activityFor ActionDestroy = (activityDelete, Action_String ActionDestroy)"
| "activityFor ActionReconcileReclaim = (activityDelete, Action_String ActionReconcileReclaim)"
| "activityFor ActionCreateResume = (activityOther, Action_String ActionCreateResume)"
| "activityFor ActionExec = (activityCreate, Action_String ActionExec)"
| "activityFor ActionCreateRejected = (activityOther, Action_String ActionCreateRejected)"
| "activityFor a = (activityUpdate, Action_String a)"

definition severityFor :: "Action \<Rightarrow> nat" where
  "severityFor a = (if a = ActionRevokeAll then severityHigh else severityInformational)"

definition statusFor :: "Action \<Rightarrow> nat" where
  "statusFor a = (if a = ActionCreateRejected then statusFailure else statusSuccess)"

definition statusName :: "nat \<Rightarrow> string" where
  "statusName i =
     (if i = statusSuccess then ''Success'' else if i = statusFailure then ''Failure'' else ''Unknown'')"

definition classFor :: "Action \<Rightarrow> nat" where
  "classFor a = (if a = ActionExec then classUIDAPIActivity else classUIDEntityManagement)"

definition categoryFor :: "nat \<Rightarrow> nat" where
  "categoryFor class =
     (if class = classUIDAPIActivity then categoryUIDApplicationActivity
      else if class = classUIDEntityManagement then categoryUIDIdentityAndAccess
      else class div 1000)"

fun entityTypeFor :: "Action \<Rightarrow> string" where
  "entityTypeFor ActionEditDenylist = ''denylist''"
| "entityTypeFor ActionOverrideQuota = ''quota''"
| "entityTypeFor ActionRetentionPolicy = ''retention_policy''"
| "entityTypeFor ActionMCPKeyCreate = ''mcp_api_key''"
| "entityTypeFor ActionMCPKeyRevoke = ''mcp_api_key''"
| "entityTypeFor _ = ''session''"

text \<open>\<open>Time.UnixMilli\<close> and \<open>Time.UTC().Format(time.RFC3339Nano)\<close>.\<close>

definition nanosPerSecond :: int where "nanosPerSecond = 1000000000"

definition UnixMilli :: "time \<Rightarrow> int" where
  "UnixMilli t = wrap64 ((t div nanosPerSecond - 62135596800) * 1000 + t mod nanosPerSecond div 1000000)"

definition strip_zeros :: "string \<Rightarrow> string" where
  "strip_zeros s = rev (dropWhile (\<lambda>c. c = CHR ''0'') (rev s))"

definition RFC3339Nano :: "time \<Rightarrow> string" where
  "RFC3339Nano t =
     (let n = nat (t div nanosPerSecond); secs = n mod 86400; ns = nat (t mod nanosPerSecond)
      in format_date (n div 86400) @ ''T'' @ pad 2 (secs div 3600) @ '':'' @ pad 2 (secs div 60 mod 60) @
         '':'' @ pad 2 (secs mod 60) @ (if ns = 0 then [] else ''.'' @ strip_zeros (pad 9 ns)) @ ''Z'')"

definition buildEvent :: "time \<Rightarrow> Record \<Rightarrow> OCSFEvent" where
  "buildEvent now rec =
     (case activityFor (RcAction rec) of (activityID, activityName) \<Rightarrow>
      let class = classFor (RcAction rec); sid = statusFor (RcAction rec);
          isapi = (class = classUIDAPIActivity)
      in \<lparr>ClassUID = class, CategoryUID = categoryFor class, TypeUID = class * 100 + activityID,
          ActivityID = activityID, ActivityName = activityName,
          EvTime = UnixMilli now, TimeDT = RFC3339Nano now,
          StatusID = sid, EvStatus = statusName sid, SeverityID = severityFor (RcAction rec),
          EvAPI = (if isapi then Some (Action_String (RcAction rec)) else None),
          EvEntity = (if isapi then None
                      else Some \<lparr>EnType = entityTypeFor (RcAction rec), EnUID = RcKey rec\<rparr>),
          StatusDetail = '''', EvUser = None, EvService = None, LogonTypeID = 0,
          AuthProtocol = '''', EvCertificate = None,
          EvActor = \<lparr>AcUser = \<lparr>UsName = RcCaller rec, UIDAlt = RcTenant rec\<rparr>,
                     AcSessionUID = RcKey rec, InvokedBy = RcChannel rec\<rparr>,
          EvMetadata = \<lparr>MdProduct = productName, MdVersion = schemaVersion, LogProvider = productName,
                        CorrelationUID = RcKey rec,
                        MdUnmapped = \<lparr>UmAction = Action_String (RcAction rec), UmReason = RcReason rec,
                                      UmRevokeOutcome = RcRevokeOutcome rec, UmWarmHit = RcWarmHit rec\<rparr>\<rparr>,
          ChainBreak = None\<rparr>)"

definition chainBreakActionLabel :: string where "chainBreakActionLabel = ''chain_break''"

definition buildChainBreakEvent :: "time \<Rightarrow> string \<Rightarrow> OCSFEvent" where
  "buildChainBreakEvent now tip =
     (let observedTip = (if tip = '''' then ChainBreakUnreadable else tip) in
      \<lparr>ClassUID = classUIDAPIActivity, CategoryUID = categoryUIDApplicationActivity,
       TypeUID = classUIDAPIActivity * 100 + activityOther,
       ActivityID = activityOther, ActivityName = chainBreakActionLabel,
       EvTime = UnixMilli now, TimeDT = RFC3339Nano now,
       StatusID = statusSuccess, EvStatus = statusName statusSuccess, SeverityID = severityHigh,
       EvAPI = None, EvEntity = None, StatusDetail = '''', EvUser = None, EvService = None,
       LogonTypeID = 0, AuthProtocol = '''', EvCertificate = None,
       EvActor = \<lparr>AcUser = \<lparr>UsName = '''', UIDAlt = ''''\<rparr>, AcSessionUID = '''', InvokedBy = ''system''\<rparr>,
       EvMetadata = \<lparr>MdProduct = productName, MdVersion = schemaVersion, LogProvider = productName,
                     CorrelationUID = '''',
                     MdUnmapped = \<lparr>UmAction = chainBreakActionLabel,
                                   UmReason = ''audit chain resume discontinuity: prior tip '' @ observedTip,
                                   UmRevokeOutcome = '''', UmWarmHit = False\<rparr>\<rparr>,
       ChainBreak = Some observedTip\<rparr>)"

subsection \<open>Authentication acts\<close>

definition AuthnLogon :: nat where "AuthnLogon = 1"
definition AuthnTicket :: nat where "AuthnTicket = 3"

datatype AuthnOutcome = AuthnSuccess | AuthnFailure

definition AuthnProtocolMTLS :: string where "AuthnProtocolMTLS = ''mtls-x509''"
definition AuthnProtocolPeerCred :: string where "AuthnProtocolPeerCred = ''unix-peercred''"
definition AuthnProtocolStorageJWT :: string where "AuthnProtocolStorageJWT = ''storage-jwt''"

record AuthnRecord =
  AnActivity :: nat
  AnOutcome :: AuthnOutcome
  AnCaller :: string
  AnTenant :: string
  AnChannel :: string
  AnProtocol :: string
  CertSAN :: string
  ConnID :: string
  SessionKey :: string
  FailureDetail :: string

definition logonTypeID :: "string \<Rightarrow> nat" where
  "logonTypeID p = (if p = AuthnProtocolPeerCred then 2 else 3)"

definition authnActivityName :: "nat \<Rightarrow> string" where
  "authnActivityName a =
     (if a = AuthnLogon then ''logon'' else if a = AuthnTicket then ''ticket''
      else ''authn_activity_unknown'')"

definition buildAuthnEvent :: "time \<Rightarrow> AuthnRecord \<Rightarrow> OCSFEvent" where
  "buildAuthnEvent now rec =
     (let sid = (if AnOutcome rec = AuthnFailure then statusFailure else statusSuccess);
          cert = (if CertSAN rec \<noteq> '''' then Some (CertSAN rec) else None);
          user = \<lparr>UsName = AnCaller rec, UIDAlt = AnTenant rec\<rparr>
      in \<lparr>ClassUID = classUIDAuthentication, CategoryUID = categoryUIDIdentityAndAccess,
          TypeUID = classUIDAuthentication * 100 + AnActivity rec,
          ActivityID = AnActivity rec, ActivityName = authnActivityName (AnActivity rec),
          EvTime = UnixMilli now, TimeDT = RFC3339Nano now,
          StatusID = sid, EvStatus = statusName sid, SeverityID = severityInformational,
          EvAPI = None, EvEntity = None, StatusDetail = FailureDetail rec,
          EvUser = Some user, EvService = Some productName,
          LogonTypeID = logonTypeID (AnProtocol rec), AuthProtocol = AnProtocol rec,
          EvCertificate = cert,
          EvActor = \<lparr>AcUser = user, AcSessionUID = SessionKey rec, InvokedBy = AnChannel rec\<rparr>,
          EvMetadata = \<lparr>MdProduct = productName, MdVersion = schemaVersion, LogProvider = productName,
                        CorrelationUID = ConnID rec,
                        MdUnmapped = \<lparr>UmAction = ''authn_'' @ authnActivityName (AnActivity rec),
                                      UmReason = '''', UmRevokeOutcome = '''', UmWarmHit = False\<rparr>\<rparr>,
          ChainBreak = None\<rparr>)"

subsection \<open>The canonical text\<close>

definition omitempty :: "bool \<Rightarrow> string \<Rightarrow> json \<Rightarrow> (string \<times> json) list" where
  "omitempty b k v = (if b then [] else [(k, v)])"

definition omit_none :: "'a option \<Rightarrow> string \<Rightarrow> ('a \<Rightarrow> json) \<Rightarrow> (string \<times> json) list" where
  "omit_none x k f = (case x of None \<Rightarrow> [] | Some y \<Rightarrow> [(k, f y)])"

definition User_json :: "User \<Rightarrow> json" where
  "User_json u = JObj [(''name'', JStr (UsName u)), (''uid_alt'', JStr (UIDAlt u))]"

definition Entity_json :: "Entity \<Rightarrow> json" where
  "Entity_json e = JObj ((''type'', JStr (EnType e)) # omitempty (EnUID e = []) ''uid'' (JStr (EnUID e)))"

definition Actor_json :: "Actor \<Rightarrow> json" where
  "Actor_json a =
     JObj [(''user'', User_json (AcUser a)), (''session'', JObj [(''uid'', JStr (AcSessionUID a))]),
           (''invoked_by'', JStr (InvokedBy a))]"

definition Unmapped_json :: "Unmapped \<Rightarrow> json" where
  "Unmapped_json u =
     JObj ([(''action'', JStr (UmAction u)), (''reason'', JStr (UmReason u))] @
           omitempty (UmRevokeOutcome u = []) ''revoke_outcome'' (JStr (UmRevokeOutcome u)) @
           omitempty (\<not> UmWarmHit u) ''warm_hit'' (JBool (UmWarmHit u)))"

definition Metadata_json :: "Metadata \<Rightarrow> json" where
  "Metadata_json m =
     JObj [(''product'', JObj [(''name'', JStr (MdProduct m))]), (''version'', JStr (MdVersion m)),
           (''log_provider'', JStr (LogProvider m)), (''correlation_uid'', JStr (CorrelationUID m)),
           (''unmapped'', Unmapped_json (MdUnmapped m))]"

text \<open>The fields of an event in front of the chain-break marker, and the marker.\<close>

definition event_fields :: "OCSFEvent \<Rightarrow> (string \<times> json) list" where
  "event_fields ev =
     [(''class_uid'', jnat (ClassUID ev)), (''category_uid'', jnat (CategoryUID ev)),
      (''type_uid'', jnat (TypeUID ev)), (''activity_id'', jnat (ActivityID ev)),
      (''activity_name'', JStr (ActivityName ev)), (''time'', jint (EvTime ev)),
      (''time_dt'', JStr (TimeDT ev)), (''status_id'', jnat (StatusID ev)),
      (''status'', JStr (EvStatus ev)), (''severity_id'', jnat (SeverityID ev))] @
     omit_none (EvAPI ev) ''api'' (\<lambda>x. JObj [(''operation'', JStr x)]) @
     omit_none (EvEntity ev) ''entity'' Entity_json @
     omitempty (StatusDetail ev = []) ''status_detail'' (JStr (StatusDetail ev)) @
     omit_none (EvUser ev) ''user'' User_json @
     omit_none (EvService ev) ''service'' (\<lambda>x. JObj [(''name'', JStr x)]) @
     omitempty (LogonTypeID ev = 0) ''logon_type_id'' (jnat (LogonTypeID ev)) @
     omitempty (AuthProtocol ev = []) ''auth_protocol'' (JStr (AuthProtocol ev)) @
     omit_none (EvCertificate ev) ''certificate'' (\<lambda>x. JObj [(''subject_alt_name'', JStr x)]) @
     [(''actor'', Actor_json (EvActor ev)), (''metadata'', Metadata_json (EvMetadata ev))]"

definition OCSFEvent_json :: "OCSFEvent \<Rightarrow> json" where
  "OCSFEvent_json ev =
     JObj (event_fields ev @
       omit_none (ChainBreak ev) ''chain_break'' (\<lambda>x. JObj [(''observed_prior_tip'', JStr x)]))"

text \<open>The marshalling of this shape cannot fail, so the error branch of \<open>canonicalize\<close> is not taken.\<close>

definition canonicalize :: "OCSFEvent \<Rightarrow> string" where
  "canonicalize ev = json_print (OCSFEvent_json ev)"

lemmas event_json_defs = OCSFEvent_json_def event_fields_def omit_none_def omitempty_def User_json_def
  Entity_json_def Actor_json_def Unmapped_json_def Metadata_json_def

lemma json_ok_event: "json_ok (OCSFEvent_json ev)"
  by (auto simp: event_json_defs ascii_utf8 split: option.splits)

lemma canonical_parse: "json_parse (canonicalize ev) = Some (json_norm (OCSFEvent_json ev))"
  by (simp add: canonicalize_def parse_print json_ok_event)

lemma canonical_compact: "json_compact (canonicalize ev) = Some (canonicalize ev)"
  by (simp add: canonicalize_def compact_print json_ok_event)

end
