(* ===== verification/Sha256.thy ===== *)
theory Sha256
  imports Ctl_Prelude
begin

text \<open>
  SHA-256 (\<open>crypto/sha256\<close> of the Go standard library, FIPS 180-4) on byte strings. The keys, the
  handles and the audit chain are hashed with it. The development never assumes that it is
  injective: a theorem that depends on that names the collision instead.
\<close>

unbundle bit_operations_syntax

type_synonym u32 = "32 word"

text \<open>
  The constants as the standard derives them: the first 32 bits of the fractional parts of the
  cube roots of the first 64 primes (the round constants) and of the square roots of the first
  eight (the initial state). \<open>root_search k e n r\<close> extends \<open>r\<close> by \<open>k\<close> bits to the largest integer
  whose \<open>e\<close>-th power is at most \<open>n\<close>.
\<close>

fun root_search :: "nat \<Rightarrow> nat \<Rightarrow> int \<Rightarrow> int \<Rightarrow> int" where
  "root_search 0 e n r = r"
| "root_search (Suc k) e n r =
     root_search k e n (if (r + 2 ^ k) ^ e \<le> n then r + 2 ^ k else r)"

definition root_bits :: "nat \<Rightarrow> int \<Rightarrow> u32" where
  "root_bits e p = word_of_int (root_search 36 e (p * 2 ^ (32 * e)) 0)"

definition first_primes :: "int list" where
  "first_primes = filter (\<lambda>n. \<forall>q \<in> set [2..17]. q < n \<longrightarrow> \<not> q dvd n) [2..311]"

definition sha256_K :: "u32 list" where
  "sha256_K = map (root_bits 3) first_primes"

definition sha256_H0 :: "u32 list" where
  "sha256_H0 = map (root_bits 2) (take 8 first_primes)"

lemma length_first_primes: "length first_primes = 64"
  by code_simp

lemma sha256_constants:
  "root_bits 3 2 = 0x428a2f98" "root_bits 3 311 = 0xc67178f2" "root_bits 2 2 = 0x6a09e667"
  by code_simp+

text \<open>Padding: a \<open>0x80\<close> byte, zeros, and the bit length in eight big-endian bytes.\<close>

definition sha256_pad :: "string \<Rightarrow> string" where
  "sha256_pad m = m @ CHR 0x80 # replicate ((64 - (length m + 9) mod 64) mod 64) (CHR 0x00)
                    @ be64 (8 * length m)"

fun be_words :: "string \<Rightarrow> u32 list" where
  "be_words (a # b # c # d # r) =
     (push_bit 24 (of_char a) OR push_bit 16 (of_char b) OR push_bit 8 (of_char c) OR of_char d)
       # be_words r"
| "be_words _ = []"

definition word_be :: "u32 \<Rightarrow> string" where
  "word_be w = map (\<lambda>k. char_of (uint (drop_bit k w) mod 256)) [24, 16, 8, 0]"

definition small_sigma0 :: "u32 \<Rightarrow> u32" where
  "small_sigma0 x = word_rotr 7 x XOR word_rotr 18 x XOR drop_bit 3 x"
definition small_sigma1 :: "u32 \<Rightarrow> u32" where
  "small_sigma1 x = word_rotr 17 x XOR word_rotr 19 x XOR drop_bit 10 x"
definition big_sigma0 :: "u32 \<Rightarrow> u32" where
  "big_sigma0 x = word_rotr 2 x XOR word_rotr 13 x XOR word_rotr 22 x"
definition big_sigma1 :: "u32 \<Rightarrow> u32" where
  "big_sigma1 x = word_rotr 6 x XOR word_rotr 11 x XOR word_rotr 25 x"
definition sha_ch :: "u32 \<Rightarrow> u32 \<Rightarrow> u32 \<Rightarrow> u32" where
  "sha_ch x y z = (x AND y) XOR (NOT x AND z)"
definition sha_maj :: "u32 \<Rightarrow> u32 \<Rightarrow> u32 \<Rightarrow> u32" where
  "sha_maj x y z = (x AND y) XOR (x AND z) XOR (y AND z)"

text \<open>The message schedule, over a window of the last sixteen words.\<close>

fun sha_expand :: "nat \<Rightarrow> u32 list \<Rightarrow> u32 list" where
  "sha_expand 0 win = []"
| "sha_expand (Suc n) win =
     (let w = small_sigma1 (win ! 14) + win ! 9 + small_sigma0 (win ! 1) + win ! 0
      in w # sha_expand n (tl win @ [w]))"

fun sha_round :: "u32 list \<Rightarrow> u32 \<times> u32 \<Rightarrow> u32 list" where
  "sha_round [a, b, c, d, e, f, g, h] (k, w) =
     (let t1 = h + big_sigma1 e + sha_ch e f g + k + w;
          t2 = big_sigma0 a + sha_maj a b c
      in [t1 + t2, a, b, c, d + t1, e, f, g])"
| "sha_round st _ = st"

definition sha_block :: "u32 list \<Rightarrow> string \<Rightarrow> u32 list" where
  "sha_block st blk =
     (let ws = be_words blk; sched = ws @ sha_expand 48 ws
      in map2 (+) st (foldl sha_round st (zip sha256_K sched)))"

function sha_blocks :: "u32 list \<Rightarrow> string \<Rightarrow> u32 list" where
  "sha_blocks st bs = (if bs = [] then st else sha_blocks (sha_block st (take 64 bs)) (drop 64 bs))"
  by pat_completeness auto
termination
  by (relation "measure (\<lambda>(st, bs). length bs)") auto

declare sha_blocks.simps [simp del]

lemma sha_blocks_Nil [simp]: "sha_blocks st [] = st"
  by (simp add: sha_blocks.simps [of st "[]"])

lemma sha_blocks_step:
  "bs \<noteq> [] \<Longrightarrow> sha_blocks st bs = sha_blocks (sha_block st (take 64 bs)) (drop 64 bs)"
  by (rule trans [OF sha_blocks.simps]) (rule if_not_P)

definition sha256 :: "string \<Rightarrow> string" where
  "sha256 m = concat (map word_be (sha_blocks sha256_H0 (sha256_pad m)))"

text \<open>Whatever is hashed, the digest has 32 bytes.\<close>

lemma length_sha_round [simp]: "length st = 8 \<Longrightarrow> length (sha_round st kw) = 8"
  by (cases "(st, kw)" rule: sha_round.cases) (auto simp: Let_def)

lemma length_foldl_sha_round [simp]:
  "length st = 8 \<Longrightarrow> length (foldl sha_round st kws) = 8"
  by (induction kws arbitrary: st) auto

lemma length_sha_block [simp]: "length st = 8 \<Longrightarrow> length (sha_block st blk) = 8"
  by (simp add: sha_block_def Let_def)

lemma length_sha_blocks [simp]: "length st = 8 \<Longrightarrow> length (sha_blocks st bs) = 8"
proof (induction st bs rule: sha_blocks.induct)
  case (1 st bs)
  show ?case
  proof (cases "bs = []")
    case True
    then show ?thesis using "1.prems" by simp
  next
    case False
    have "length (sha_blocks (sha_block st (take 64 bs)) (drop 64 bs)) = 8"
      by (rule "1.IH" [OF False]) (rule length_sha_block [OF "1.prems"])
    then show ?thesis by (simp only: sha_blocks_step [OF False])
  qed
qed

lemma length_concat_word_be: "length (concat (map word_be ws)) = 4 * length ws"
  by (induction ws) (auto simp: word_be_def)

lemma length_sha256 [simp]: "length (sha256 m) = 32"
  by (simp add: sha256_def length_concat_word_be sha256_H0_def length_first_primes)

text \<open>A collision of two inputs, the only way two different inputs share a digest.\<close>

definition sha256_collision :: "string \<Rightarrow> string \<Rightarrow> bool" where
  "sha256_collision x y \<longleftrightarrow> x \<noteq> y \<and> sha256 x = sha256 y"

end
