(* ===== verification/Audit_Chain.thy ===== *)
theory Audit_Chain
  imports Audit_Event Sha256
begin

text \<open>
  The hash chain of \<open>internal/audit/ocsf/chain.go\<close> and the sink of \<open>sink.go\<close>: envelopes, their hash,
  the validator, and the sink that numbers, links and writes events. The durable writer behind the
  sink is an interface; the locale at the end states what the chain needs of it.
\<close>

type_synonym u64 = "64 word"

lemma u64_bound: "unat (q :: u64) < 2 ^ 64"
  using unsigned_less [of q, where ?'a = nat] by simp

definition genesisPriorHash :: string where
  "genesisPriorHash = replicate 64 CHR ''0''"

record ChainEnvelope =
  EnvSource :: string
  Sequence :: u64
  PriorHash :: string
  Hash :: string
  Event :: string

definition hash_preimage :: "string \<Rightarrow> u64 \<Rightarrow> string \<Rightarrow> string" where
  "hash_preimage priorBytes seq eventBytes = priorBytes @ be64 (unat seq) @ eventBytes"

definition computeHash :: "string \<Rightarrow> u64 \<Rightarrow> string \<Rightarrow> string result" where
  "computeHash priorHash seq eventBytes =
     (case hex_decode priorHash of
        None \<Rightarrow> Inl [ErrChainInvalid]
      | Some priorBytes \<Rightarrow> Inr (hex_encode (sha256 (hash_preimage priorBytes seq eventBytes))))"

subsection \<open>Validation\<close>

text \<open>The partial decoding of an event: the marker pointer, and the field of the object it points to.\<close>

definition tip_field :: "string \<Rightarrow> string \<Rightarrow> string \<Rightarrow> json \<Rightarrow> string option" where
  "tip_field tip k t v = (if k = ''observed_prior_tip'' then field_string v tip else Some tip)"

fun break_value :: "string option \<Rightarrow> json \<Rightarrow> string option option" where
  "break_value old JNull = Some None"
| "break_value old (JObj kvs) =
     map_option Some (decode_members tip_field (map (\<lambda>(k, v). (k, '''', v)) kvs)
       (case old of None \<Rightarrow> '''' | Some tip \<Rightarrow> tip))"
| "break_value old _ = None"

definition break_field :: "string option \<Rightarrow> string \<Rightarrow> string \<Rightarrow> json \<Rightarrow> string option option" where
  "break_field old k t v = (if k = ''chain_break'' then break_value old v else Some old)"

definition chainBreakOf :: "string \<Rightarrow> string option option" where
  "chainBreakOf eventBytes = decode_struct break_field None eventBytes"

text \<open>The body of the validation loop at index \<open>i\<close>.\<close>

definition check_link :: "nat \<Rightarrow> string \<Rightarrow> ChainEnvelope \<Rightarrow> bool" where
  "check_link i prevHash env =
     (if 0 < i \<and> PriorHash env = genesisPriorHash
      then (case chainBreakOf (Event env) of Some (Some tip) \<Rightarrow> tip \<noteq> '''' | _ \<Rightarrow> False)
      else PriorHash env = prevHash)"

definition check_envelope :: "nat \<Rightarrow> string \<Rightarrow> u64 \<Rightarrow> ChainEnvelope \<Rightarrow> err option" where
  "check_envelope i prevHash prevSeq env =
     (if Sequence env \<noteq> (if i = 0 then 1 else prevSeq + 1) then Some [ErrChainInvalid]
      else if \<not> check_link i prevHash env then Some [ErrChainInvalid]
      else case computeHash (PriorHash env) (Sequence env) (Event env) of
             Inl e \<Rightarrow> Some e
           | Inr want \<Rightarrow> if want \<noteq> Hash env then Some [ErrChainInvalid] else None)"

fun validate_loop :: "nat \<Rightarrow> string \<Rightarrow> u64 \<Rightarrow> ChainEnvelope list \<Rightarrow> err option" where
  "validate_loop i prevHash prevSeq [] = None"
| "validate_loop i prevHash prevSeq (env # envs) =
     (case check_envelope i prevHash prevSeq env of
        Some e \<Rightarrow> Some e
      | None \<Rightarrow> validate_loop (i + 1) (Hash env) (Sequence env) envs)"

definition ValidateChain :: "ChainEnvelope list \<Rightarrow> err option" where
  "ValidateChain envs = validate_loop 0 genesisPriorHash 0 envs"

subsection \<open>The sink\<close>

record ChainSink =
  sk_source :: string
  lastSeq :: u64
  priorTip :: string

definition NewChainSink :: "string \<Rightarrow> ChainSink" where
  "NewChainSink source = \<lparr>sk_source = source, lastSeq = 0, priorTip = genesisPriorHash\<rparr>"

record Tip =
  TipLastSeq :: u64
  TipPriorTip :: string
  Fresh :: bool

definition ResumeChainSink :: "string \<Rightarrow> Tip \<Rightarrow> ChainSink" where
  "ResumeChainSink source tip =
     \<lparr>sk_source = source, lastSeq = TipLastSeq tip, priorTip = TipPriorTip tip\<rparr>"

text \<open>An event writer takes the context and the envelope, over a state of its own.\<close>

type_synonym 'w event_writer = "ctx \<Rightarrow> ChainEnvelope \<Rightarrow> 'w \<Rightarrow> err option \<times> 'w"

definition commitLocked ::
  "'w event_writer \<Rightarrow> ctx \<Rightarrow> string \<Rightarrow> string \<Rightarrow> ChainSink \<times> 'w \<Rightarrow> err option \<times> ChainSink \<times> 'w" where
  "commitLocked Write c eventBytes priorHash = (\<lambda>(s, w).
     let sequence = lastSeq s + 1 in
     case computeHash priorHash sequence eventBytes of
       Inl e \<Rightarrow> (Some (ErrAuditWriteFailed # e), s, w)
     | Inr hash \<Rightarrow>
         let env = \<lparr>EnvSource = sk_source s, Sequence = sequence, PriorHash = priorHash,
                    Hash = hash, Event = eventBytes\<rparr> in
         case Write c env w of
           (Some e, w') \<Rightarrow> (Some (ErrAuditWriteFailed # e), s, w')
         | (None, w') \<Rightarrow> (None, s\<lparr>lastSeq := sequence, priorTip := hash\<rparr>, w'))"

text \<open>\<open>now\<close> is what the injected clock reports.\<close>

definition ChainSink_Emit ::
  "'w event_writer \<Rightarrow> ctx \<Rightarrow> time \<Rightarrow> Record \<Rightarrow> ChainSink \<times> 'w \<Rightarrow> err option \<times> ChainSink \<times> 'w" where
  "ChainSink_Emit Write c now rec sw =
     (if c then (Some [ErrAuditWriteFailed, CtxErr], sw)
      else commitLocked Write c (canonicalize (buildEvent now rec)) (priorTip (fst sw)) sw)"

definition ChainSink_EmitChainBreak ::
  "'w event_writer \<Rightarrow> ctx \<Rightarrow> time \<Rightarrow> string \<Rightarrow> ChainSink \<times> 'w \<Rightarrow> err option \<times> ChainSink \<times> 'w" where
  "ChainSink_EmitChainBreak Write c now observedTip sw =
     (if c then (Some [ErrAuditWriteFailed, CtxErr], sw)
      else commitLocked Write c (canonicalize (buildChainBreakEvent now observedTip)) genesisPriorHash sw)"

definition ChainSink_EmitAuthn ::
  "'w event_writer \<Rightarrow> ctx \<Rightarrow> time \<Rightarrow> AuthnRecord \<Rightarrow> ChainSink \<times> 'w \<Rightarrow> err option \<times> ChainSink \<times> 'w" where
  "ChainSink_EmitAuthn Write c now rec sw =
     (if c then (Some [CtxErr], sw)
      else commitLocked Write c (canonicalize (buildAuthnEvent now rec)) (priorTip (fst sw)) sw)"

definition NullSink_Write :: "unit event_writer" where
  "NullSink_Write c env w = (None, w)"

text \<open>The calls a component may make on a sink.\<close>

datatype sink_call = CallEmit ctx time Record | CallBreak ctx time string | CallAuthn ctx time AuthnRecord

fun sink_step :: "'w event_writer \<Rightarrow> sink_call \<Rightarrow> ChainSink \<times> 'w \<Rightarrow> err option \<times> ChainSink \<times> 'w" where
  "sink_step Write (CallEmit c now rec) sw = ChainSink_Emit Write c now rec sw"
| "sink_step Write (CallBreak c now tip) sw = ChainSink_EmitChainBreak Write c now tip sw"
| "sink_step Write (CallAuthn c now rec) sw = ChainSink_EmitAuthn Write c now rec sw"

fun sink_run :: "'w event_writer \<Rightarrow> sink_call list \<Rightarrow> ChainSink \<times> 'w \<Rightarrow> ChainSink \<times> 'w" where
  "sink_run Write [] sw = sw"
| "sink_run Write (call # calls) sw = sink_run Write calls (snd (sink_step Write call sw))"

definition call_event :: "sink_call \<Rightarrow> string" where
  "call_event call =
     (case call of CallEmit c now rec \<Rightarrow> canonicalize (buildEvent now rec)
      | CallBreak c now tip \<Rightarrow> canonicalize (buildChainBreakEvent now tip)
      | CallAuthn c now rec \<Rightarrow> canonicalize (buildAuthnEvent now rec))"

text \<open>The events of the calls that returned nil, in order.\<close>

fun accepted_events :: "'w event_writer \<Rightarrow> sink_call list \<Rightarrow> ChainSink \<times> 'w \<Rightarrow> string list" where
  "accepted_events Write [] sw = []"
| "accepted_events Write (call # calls) sw =
     (case sink_step Write call sw of (r, sw') \<Rightarrow>
        (if r = None then [call_event call] else []) @ accepted_events Write calls sw')"

subsection \<open>The marker of an event\<close>

lemma decode_members_append:
  "decode_members f (ms @ ms') a =
     (case decode_members f ms a of None \<Rightarrow> None | Some a' \<Rightarrow> decode_members f ms' a')"
  by (induction f ms a rule: decode_members.induct) (auto split: option.splits)

lemma decode_members_skip:
  "(\<And>k t v. (k, t, v) \<in> set ms \<Longrightarrow> f a (fold_name k) t v = Some a) \<Longrightarrow> decode_members f ms a = Some a"
  by (induction ms) auto

text \<open>Decoding the text of an object into a struct sees its fields in order.\<close>

lemma decode_struct_print:
  assumes "json_ok (JObj kvs)"
  shows "decode_struct f zero (json_print (JObj kvs)) =
    decode_members f (map (\<lambda>(k, v). (k, json_print v, json_norm v)) kvs) zero"
proof -
  let ?ms = "map (\<lambda>(k, v). (k, json_print v, json_norm v)) kvs"
  have "struct_members (print_obj (map (\<lambda>(k, t, v). (k, t)) ?ms)) = Some ?ms"
    using assms by (intro struct_members_obj) (auto simp: list_all_iff reads_print)
  then show ?thesis by (simp add: decode_struct_def comp_def case_prod_unfold)
qed

lemma to_lower_lower [simp]: "\<not> (65 \<le> byte c \<and> byte c \<le> 90) \<Longrightarrow> to_lower c = c"
  by (auto simp: to_lower_def)

lemma event_field_names:
  "(k, v) \<in> set (event_fields ev) \<Longrightarrow> fold_name k \<noteq> ''chain_break''"
  by (auto simp: event_fields_def omit_none_def omitempty_def split: option.splits if_splits)

lemma chainBreakOf_canonical: "chainBreakOf (canonicalize ev) = Some (map_option utf8_fix (ChainBreak ev))"
proof -
  let ?m = "map (\<lambda>(k, v). (k, json_print v, json_norm v))"
  let ?b = "omit_none (ChainBreak ev) ''chain_break'' (\<lambda>x. JObj [(''observed_prior_tip'', JStr x)])"
  have skip: "decode_members break_field (?m (event_fields ev)) None = Some None"
    by (rule decode_members_skip) (auto simp: break_field_def dest: event_field_names)
  have "chainBreakOf (canonicalize ev) = decode_members break_field (?m (event_fields ev) @ ?m ?b) None"
    using decode_struct_print [of "event_fields ev @ ?b" break_field None] json_ok_event [of ev]
    by (simp add: chainBreakOf_def canonicalize_def OCSFEvent_json_def)
  also have "\<dots> = Some (map_option utf8_fix (ChainBreak ev))"
    by (simp add: decode_members_append skip omit_none_def break_field_def tip_field_def split: option.splits)
  finally show ?thesis .
qed

lemma utf8_fix_nonempty: "s \<noteq> [] \<Longrightarrow> utf8_fix s \<noteq> []"
  by (subst utf8_fix.simps) (auto simp: rune_error_def utf8_encode_def)

lemma marker_of_break: "\<exists>tip. chainBreakOf (canonicalize (buildChainBreakEvent now t)) = Some (Some tip) \<and> tip \<noteq> ''''"
  by (auto simp: chainBreakOf_canonical buildChainBreakEvent_def Let_def ChainBreakUnreadable_def utf8_fix_nonempty)

lemma no_marker:
  "chainBreakOf (canonicalize (buildEvent now rec)) = Some None"
  "chainBreakOf (canonicalize (buildAuthnEvent now arec)) = Some None"
  by (simp_all add: chainBreakOf_canonical buildEvent_def buildAuthnEvent_def Let_def split: prod.split)

subsection \<open>Chains at their end\<close>

definition tip_hash :: "ChainEnvelope list \<Rightarrow> string" where
  "tip_hash envs = (if envs = [] then genesisPriorHash else Hash (last envs))"

definition tip_seq :: "ChainEnvelope list \<Rightarrow> u64" where
  "tip_seq envs = (if envs = [] then 0 else Sequence (last envs))"

lemma tip_simps [simp]:
  "tip_hash [] = genesisPriorHash" "tip_seq [] = 0"
  "tip_hash (envs @ [e]) = Hash e" "tip_seq (envs @ [e]) = Sequence e"
  by (simp_all add: tip_hash_def tip_seq_def)

lemma validate_loop_append:
  "validate_loop i h q (xs @ ys) =
     (case validate_loop i h q xs of Some e \<Rightarrow> Some e
      | None \<Rightarrow> validate_loop (i + length xs) (if xs = [] then h else Hash (last xs))
                 (if xs = [] then q else Sequence (last xs)) ys)"
  by (induction xs arbitrary: i h q) (auto split: option.splits)

lemma ValidateChain_append:
  "ValidateChain (xs @ ys) =
     (case ValidateChain xs of Some e \<Rightarrow> Some e
      | None \<Rightarrow> validate_loop (length xs) (tip_hash xs) (tip_seq xs) ys)"
  by (auto simp: ValidateChain_def validate_loop_append tip_hash_def tip_seq_def split: option.split)

lemma ValidateChain_Nil [simp]: "ValidateChain [] = None"
  by (simp add: ValidateChain_def)

lemma ValidateChain_snoc:
  "ValidateChain (xs @ [e]) = None \<longleftrightarrow>
     ValidateChain xs = None \<and> check_envelope (length xs) (tip_hash xs) (tip_seq xs) e = None"
  by (auto simp: ValidateChain_append split: option.splits)

text \<open>What an accepted envelope satisfies, and its number.\<close>

lemma check_envelope_None:
  "check_envelope i h q e = None \<longleftrightarrow>
     Sequence e = (if i = 0 then 1 else q + 1) \<and> check_link i h e \<and>
     computeHash (PriorHash e) (Sequence e) (Event e) = Inr (Hash e)"
  by (auto simp: check_envelope_def split: sum.splits)

lemma snoc_seq: "(if length xs = 0 then 1 else tip_seq xs + 1) = tip_seq xs + 1"
  by (cases xs) simp_all

lemma chain_tip_seq: "ValidateChain xs = None \<Longrightarrow> tip_seq xs = of_nat (length xs)"
proof (induction xs rule: rev_induct)
  case (snoc e xs)
  then have "tip_seq xs = of_nat (length xs)" "Sequence e = (if length xs = 0 then 1 else tip_seq xs + 1)"
    by (auto simp: ValidateChain_snoc check_envelope_None)
  then show ?case using snoc_seq [of xs] by simp
qed simp

lemma length_genesis [simp]: "length genesisPriorHash = 64"
  by (simp add: genesisPriorHash_def)

lemma genesis_digest: "genesisPriorHash = hex_encode (replicate 32 (char_of (0::nat)))"
  by code_simp

lemma hex_decode_genesis: "hex_decode genesisPriorHash = Some (replicate 32 (char_of (0::nat)))"
  unfolding genesis_digest by simp

text \<open>An envelope carries the hash of a digest: 64 lower-case digits that decode to 32 bytes.\<close>

definition digest_hex :: "string \<Rightarrow> bool" where
  "digest_hex h \<longleftrightarrow> (case hex_decode h of Some d \<Rightarrow> length d = 32 \<and> hex_encode d = h | None \<Rightarrow> False)"

lemma digest_hex_genesis: "digest_hex genesisPriorHash"
  by (simp add: digest_hex_def hex_decode_genesis genesis_digest)

lemma computeHash_digest: "computeHash p q ev = Inr h \<Longrightarrow> digest_hex h"
  by (auto simp: computeHash_def digest_hex_def split: option.splits)

lemma computeHash_total: "digest_hex p \<Longrightarrow> \<exists>h. computeHash p q ev = Inr h"
  by (auto simp: computeHash_def digest_hex_def split: option.splits)

lemma chain_hashes:
  "ValidateChain xs = None \<Longrightarrow> e \<in> set xs \<Longrightarrow> digest_hex (Hash e) \<and> digest_hex (PriorHash e)"
proof (induction xs arbitrary: e rule: rev_induct)
  case (snoc x xs)
  then have v: "ValidateChain xs = None" and c: "check_envelope (length xs) (tip_hash xs) (tip_seq xs) x = None"
    by (auto simp: ValidateChain_snoc)
  show ?case
  proof (cases "e \<in> set xs")
    case True
    then show ?thesis using snoc.IH v by blast
  next
    case False
    with snoc.prems(2) have e: "e = x" by simp
    have "digest_hex (tip_hash xs)"
      using snoc.IH [OF v, of "last xs"] by (cases "xs = []") (simp_all add: tip_hash_def digest_hex_genesis)
    then have "digest_hex (PriorHash x)"
      using c digest_hex_genesis by (auto simp: check_envelope_None check_link_def split: if_splits)
    then show ?thesis using c computeHash_digest by (auto simp: e check_envelope_None)
  qed
qed simp

lemma tip_digest: "ValidateChain xs = None \<Longrightarrow> digest_hex (tip_hash xs)"
  using chain_hashes [of xs "last xs"] by (cases "xs = []") (simp_all add: tip_hash_def digest_hex_genesis)

subsection \<open>The sink keeps its chain\<close>

text \<open>
  The contract of a durable writer: what has been written is a list of envelopes, an accepted write
  of an envelope that fits appends to it, and a refused write leaves it alone.
\<close>

locale durable_writer =
  fixes Write :: "'w event_writer"
    and written :: "'w \<Rightarrow> ChainEnvelope list"
    and ok :: "'w \<Rightarrow> bool"
    and fits :: "ChainEnvelope \<Rightarrow> bool"
  assumes accepted: "ok w \<Longrightarrow> fits env \<Longrightarrow> Write c env w = (None, w') \<Longrightarrow> ok w' \<and> written w' = written w @ [env]"
    and refused: "ok w \<Longrightarrow> Write c env w = (Some e, w') \<Longrightarrow> ok w' \<and> written w' = written w"
begin

text \<open>Every envelope the sink may build around an event fits.\<close>

definition event_fits :: "string \<Rightarrow> string \<Rightarrow> bool" where
  "event_fits src ev \<longleftrightarrow> (\<forall>env. Event env = ev \<and> EnvSource env = src \<and> digest_hex (PriorHash env) \<and>
     digest_hex (Hash env) \<longrightarrow> fits env)"

text \<open>Over a sound writer every commit appends its event or changes nothing.\<close>

definition sound :: "ChainSink \<Rightarrow> 'w \<Rightarrow> bool" where
  "sound s w \<longleftrightarrow> ok w \<and> digest_hex (priorTip s)"

lemma commit_cases:
  assumes "sound s w" and "commitLocked Write c ev p (s, w) = (r, s', w')"
    and "event_fits (sk_source s) ev" and "digest_hex p"
  obtains (accept) env where "r = None" "sound s' w'" "written w' = written w @ [env]"
      "env = \<lparr>EnvSource = sk_source s, Sequence = lastSeq s + 1, PriorHash = p, Hash = Hash env, Event = ev\<rparr>"
      "computeHash p (lastSeq s + 1) ev = Inr (Hash env)"
      "s' = s\<lparr>lastSeq := Sequence env, priorTip := Hash env\<rparr>"
    | (refuse) "r \<noteq> None" "sound s' w'" "s' = s" "written w' = written w"
proof -
  obtain h where h: "computeHash p (lastSeq s + 1) ev = Inr h" using computeHash_total [OF assms(4)] by blast
  define env where "env = \<lparr>EnvSource = sk_source s, Sequence = lastSeq s + 1, PriorHash = p, Hash = h, Event = ev\<rparr>"
  obtain x w1 where x: "Write c env w = (x, w1)" by (cases "Write c env w")
  have s: "ok w" "digest_hex (priorTip s)" using assms(1) by (auto simp: sound_def)
  show ?thesis
  proof (cases x)
    case (Some e)
    then have "r \<noteq> None" "s' = s" "w' = w1"
      using assms(2) x by (auto simp: commitLocked_def h env_def [symmetric])
    then show ?thesis using refused [OF s(1)] x Some s refuse by (simp add: sound_def)
  next
    case None
    then have eq: "r = None" "s' = s\<lparr>lastSeq := lastSeq s + 1, priorTip := h\<rparr>" "w' = w1"
      using assms(2) x by (auto simp: commitLocked_def h env_def [symmetric])
    have "fits env" using assms(3,4) computeHash_digest [OF h] by (simp add: env_def event_fits_def)
    then have "ok w'" "written w' = written w @ [env]" using accepted [OF s(1)] x None eq by auto
    then show ?thesis using eq h computeHash_digest [OF h] accept [of env] by (simp add: sound_def env_def)
  qed
qed

lemma step_grows:
  assumes "sound s w" and "sink_step Write call (s, w) = (r, s', w')"
    and "event_fits (sk_source s) (call_event call)"
  shows "sound s' w' \<and> sk_source s' = sk_source s \<and>
    (if r = None then \<exists>env. written w' = written w @ [env] \<and> Event env = call_event call
     else written w' = written w)"
proof -
  have tip: "digest_hex (priorTip s)" using assms(1) by (simp add: sound_def)
  have commit: ?thesis if "commitLocked Write c (call_event call) p (s, w) = (r, s', w')" "digest_hex p" for c p
    using commit_cases [OF assms(1) that(1) assms(3) that(2)] by (cases; metis ChainEnvelope.select_convs(5) ChainSink.surjective ChainSink.select_convs(1) ChainSink.update_convs(2,3))
  show ?thesis
    using assms(1,2) commit tip digest_hex_genesis
    by (cases call)
      (auto simp: ChainSink_Emit_def ChainSink_EmitChainBreak_def ChainSink_EmitAuthn_def call_event_def
        split: if_splits)
qed

text \<open>The sink stands at the end of the chain that has been written.\<close>

definition at_tip :: "ChainSink \<Rightarrow> 'w \<Rightarrow> bool" where
  "at_tip s w \<longleftrightarrow> ok w \<and> ValidateChain (written w) = None \<and>
     lastSeq s = tip_seq (written w) \<and> priorTip s = tip_hash (written w)"

lemma at_tip_sound: "at_tip s w \<Longrightarrow> sound s w"
  by (simp add: at_tip_def sound_def tip_digest)

lemma commit_at_tip:
  assumes "at_tip s w" and "commitLocked Write c ev p (s, w) = (r, s', w')"
    and "event_fits (sk_source s) ev" and "digest_hex p"
    and "\<And>env. PriorHash env = p \<Longrightarrow> Event env = ev \<Longrightarrow>
      check_link (length (written w)) (tip_hash (written w)) env"
  shows "at_tip s' w'"
  using commit_cases [OF at_tip_sound [OF assms(1)] assms(2-4)]
proof cases
  case accept: (1 env)
  have env: "PriorHash env = p" "Event env = ev" "Sequence env = tip_seq (written w) + 1"
    using assms(1) by (subst accept(4), simp add: at_tip_def)+
  have "check_envelope (length (written w)) (tip_hash (written w)) (tip_seq (written w)) env = None"
    using assms(1,5) accept(5) env snoc_seq [of "written w"] by (simp add: check_envelope_None at_tip_def)
  then show ?thesis
    using accept(2,3,6) assms(1) by (simp add: at_tip_def sound_def ValidateChain_snoc)
next
  case 2
  then show ?thesis using assms(1) by (simp add: at_tip_def sound_def)
qed

lemma step_at_tip:
  assumes "at_tip s w" and "sink_step Write call (s, w) = (r, s', w')"
    and "event_fits (sk_source s) (call_event call)"
    and "written w = [] \<or> tip_hash (written w) \<noteq> genesisPriorHash"
  shows "at_tip s' w'"
proof -
  have tip: "priorTip s = tip_hash (written w)" "digest_hex (priorTip s)"
    using assms(1) at_tip_sound [OF assms(1)] by (auto simp: at_tip_def sound_def)
  have link: "check_link (length (written w)) (tip_hash (written w)) env" if "PriorHash env = priorTip s" for env
    using assms(4) that tip(1) by (auto simp: check_link_def)
  have break: "check_link (length (written w)) (tip_hash (written w)) env"
    if "PriorHash env = genesisPriorHash" "Event env = canonicalize (buildChainBreakEvent now t)" for env now t
    using marker_of_break [of now t] that by (auto simp: check_link_def)
  show ?thesis
  proof (cases call)
    case (CallEmit c now rec)
    then show ?thesis
      using assms commit_at_tip [OF assms(1), of c _ "priorTip s" r s' w'] link tip(2)
      by (auto simp: ChainSink_Emit_def call_event_def split: if_splits)
  next
    case (CallBreak c now t)
    then show ?thesis
      using assms commit_at_tip [OF assms(1), of c _ genesisPriorHash r s' w'] break digest_hex_genesis
      by (auto simp: ChainSink_EmitChainBreak_def call_event_def split: if_splits)
  next
    case (CallAuthn c now rec)
    then show ?thesis
      using assms commit_at_tip [OF assms(1), of c _ "priorTip s" r s' w'] link tip(2)
      by (auto simp: ChainSink_EmitAuthn_def call_event_def split: if_splits)
  qed
qed

text \<open>A run of calls: what it appended, and that it stays at the tip short of a zero digest.\<close>

lemma run_grows:
  assumes "sound s w" and "\<And>call. call \<in> set calls \<Longrightarrow> event_fits (sk_source s) (call_event call)"
    and "sink_run Write calls (s, w) = (s', w')"
  shows "sound s' w' \<and> sk_source s' = sk_source s \<and>
    (\<exists>envs. written w' = written w @ envs \<and> map Event envs = accepted_events Write calls (s, w))"
  using assms
proof (induction calls arbitrary: s w)
  case (Cons call calls)
  obtain r s1 w1 where st: "sink_step Write call (s, w) = (r, s1, w1)" by (cases "sink_step Write call (s, w)")
  note g = step_grows [OF Cons.prems(1) st Cons.prems(2)]
  have run: "sink_run Write calls (s1, w1) = (s', w')" using Cons.prems(3) st by simp
  obtain envs where envs: "sound s' w'" "sk_source s' = sk_source s" "written w' = written w1 @ envs"
      "map Event envs = accepted_events Write calls (s1, w1)"
    using Cons.IH [OF _ _ run] g Cons.prems(2) by (auto split: if_splits)
  obtain e where e: "written w1 = written w @ e" "map Event e = (if r = None then [call_event call] else [])"
    using g by (cases r) auto
  then show ?case using envs st by (auto intro!: exI [of _ "e @ envs"])
qed simp

lemma run_at_tip:
  assumes "at_tip s w" and "\<And>call. call \<in> set calls \<Longrightarrow> event_fits (sk_source s) (call_event call)"
    and "sink_run Write calls (s, w) = (s', w')" and "\<And>e. e \<in> set (written w') \<Longrightarrow> Hash e \<noteq> genesisPriorHash"
  shows "at_tip s' w'"
  using assms
proof (induction calls arbitrary: s w)
  case (Cons call calls)
  obtain r s1 w1 where st: "sink_step Write call (s, w) = (r, s1, w1)" by (cases "sink_step Write call (s, w)")
  have run: "sink_run Write calls (s1, w1) = (s', w')" using Cons.prems(3) st by simp
  note g = step_grows [OF at_tip_sound [OF Cons.prems(1)] st Cons.prems(2)]
  have fit: "\<And>call. call \<in> set calls \<Longrightarrow> event_fits (sk_source s1) (call_event call)"
    using Cons.prems(2) g by (auto split: if_splits)
  have "sound s1 w1" using g by (auto split: if_splits)
  from run_grows [OF this fit run] have "set (written w1) \<subseteq> set (written w')" by auto
  moreover have "set (written w) \<subseteq> set (written w1)" using g by (auto split: if_splits)
  ultimately have "last (written w) \<in> set (written w')" if "written w \<noteq> []"
    using last_in_set [OF that] by blast
  then have "tip_hash (written w) \<noteq> genesisPriorHash" if "written w \<noteq> []"
    using Cons.prems(4) that by (simp add: tip_hash_def)
  then have "at_tip s1 w1" using step_at_tip [OF Cons.prems(1) st Cons.prems(2)] by auto
  then show ?case using Cons.IH [OF _ fit run] Cons.prems(4) by blast
qed simp

end

end
