(* ===== verification/Audit_Merkle.thy ===== *)
theory Audit_Merkle
  imports Audit_Chain
begin

text \<open>
  The daily Merkle head of \<open>internal/audit/ocsf/merkle.go\<close> and its signed envelope of \<open>envelope.go\<close>.
  The level-by-level loop of \<open>MerkleRoot\<close> is shown equal to the recursive tree hash of RFC 6962, and
  a head is shown to determine the spine it was taken over, every field of every envelope, unless
  two of the hashed inputs collide. Signing and verification take the Ed25519 primitives as
  parameters.
\<close>

subsection \<open>The root\<close>

definition leafPrefix :: char where "leafPrefix = char_of (0::nat)"
definition nodePrefix :: char where "nodePrefix = char_of (1::nat)"

definition leafDigest :: "string \<Rightarrow> string" where
  "leafDigest b = sha256 (leafPrefix # b)"

definition nodeDigest :: "string \<Rightarrow> string \<Rightarrow> string" where
  "nodeDigest l r = sha256 (nodePrefix # l @ r)"

text \<open>One pass over a level: neighbours are combined, an odd last node is promoted.\<close>

fun next_level :: "('a \<Rightarrow> 'a \<Rightarrow> 'a) \<Rightarrow> 'a list \<Rightarrow> 'a list" where
  "next_level f (x # y # xs) = f x y # next_level f xs"
| "next_level f xs = xs"

lemma length_next_level: "length (next_level f xs) = (length xs + 1) div 2"
  by (induction f xs rule: next_level.induct) auto

function root_loop :: "('a \<Rightarrow> 'a \<Rightarrow> 'a) \<Rightarrow> 'a list \<Rightarrow> 'a" where
  "root_loop f level = (if 1 < length level then root_loop f (next_level f level) else hd level)"
  by pat_completeness auto
termination
  by (relation "measure (\<lambda>(f, level). length level)") (auto simp: length_next_level)

declare root_loop.simps [simp del]

definition MerkleRoot :: "string list \<Rightarrow> string result" where
  "MerkleRoot leaves =
     (if leaves = [] then Inl [ErrNoLeaves]
      else Inr (hex_encode (root_loop nodeDigest (map leafDigest leaves))))"

subsection \<open>The head over a spine\<close>

record Head =
  HdSource :: string
  Root :: string
  Count :: u64
  FirstSequence :: u64
  LastSequence :: u64

fun decode_hashes :: "ChainEnvelope list \<Rightarrow> string list result" where
  "decode_hashes [] = Inr []"
| "decode_hashes (env # envs) =
     (case hex_decode (Hash env) of
        None \<Rightarrow> Inl [ErrChainInvalid]
      | Some raw \<Rightarrow> (case decode_hashes envs of Inl e \<Rightarrow> Inl e | Inr leaves \<Rightarrow> Inr (raw # leaves)))"

definition HeadOverSpine :: "ChainEnvelope list \<Rightarrow> Head result" where
  "HeadOverSpine envs =
     (if envs = [] then Inl [ErrNoLeaves]
      else if \<not> list_all (\<lambda>env. EnvSource env = EnvSource (hd envs)) envs then Inl [ErrMixedSource]
      else case ValidateChain envs of Some e \<Rightarrow> Inl e
      | None \<Rightarrow> (case decode_hashes envs of Inl e \<Rightarrow> Inl e
        | Inr leaves \<Rightarrow> (case MerkleRoot leaves of Inl e \<Rightarrow> Inl e
          | Inr root \<Rightarrow>
              Inr \<lparr>HdSource = EnvSource (hd envs), Root = root, Count = of_nat (length envs),
                   FirstSequence = Sequence (hd envs), LastSequence = Sequence (last envs)\<rparr>)))"

subsection \<open>The signed envelope\<close>

definition headDomainTag :: string where "headDomainTag = ''ocu.audit.head.v1''"
definition maxHeadFieldLen :: nat where "maxHeadFieldLen = 4294967295"

definition appendHeadField :: "string \<Rightarrow> string \<Rightarrow> string result" where
  "appendHeadField out value =
     (if maxHeadFieldLen < length value then Inl [ErrFieldTooLong]
      else Inr (out @ be_bytes 4 (length value) @ value))"

definition appendHeadUint :: "string \<Rightarrow> u64 \<Rightarrow> string" where
  "appendHeadUint out v = out @ be64 (unat v)"

definition canonicalHead :: "Head \<Rightarrow> string result" where
  "canonicalHead h =
     (case appendHeadField headDomainTag (HdSource h) of Inl e \<Rightarrow> Inl e
      | Inr out \<Rightarrow> (case appendHeadField out (Root h) of Inl e \<Rightarrow> Inl e
        | Inr out' \<Rightarrow>
            Inr (appendHeadUint (appendHeadUint (appendHeadUint out' (Count h)) (FirstSequence h))
                  (LastSequence h))))"

record HeadEnvelope =
  EnvHead :: Head
  EnvSignature :: string

text \<open>The signer is \<open>None\<close> for nil; it answers with a signature or an error.\<close>

definition SignHead :: "Head \<Rightarrow> (string \<Rightarrow> string result) option \<Rightarrow> HeadEnvelope result" where
  "SignHead h signer =
     (if HdSource h = '''' \<or> Root h = '''' \<or> Count h = 0 then Inl [ErrHeadIncomplete]
      else case signer of None \<Rightarrow> Inl [ErrSignatureInvalid]
      | Some sign \<Rightarrow> (case canonicalHead h of Inl e \<Rightarrow> Inl e
        | Inr payload \<Rightarrow> (case sign payload of Inl e \<Rightarrow> Inl e
          | Inr sig \<Rightarrow> Inr \<lparr>EnvHead = h, EnvSignature = hex_encode sig\<rparr>)))"

text \<open>\<open>verify pub message signature\<close> is \<open>ed25519.Verify\<close>.\<close>

definition VerifyEnvelope ::
  "(string \<Rightarrow> string \<Rightarrow> string \<Rightarrow> bool) \<Rightarrow> HeadEnvelope \<Rightarrow> string \<Rightarrow> err option" where
  "VerifyEnvelope verify env pub =
     (if length pub \<noteq> 32 then Some [ErrSignatureInvalid]
      else if EnvSignature env = '''' then Some [ErrSignatureInvalid]
      else case hex_decode (EnvSignature env) of None \<Rightarrow> Some [ErrSignatureInvalid]
      | Some sig \<Rightarrow> (case canonicalHead (EnvHead env) of Inl e \<Rightarrow> Some e
        | Inr payload \<Rightarrow> if \<not> verify pub payload sig then Some [ErrSignatureInvalid] else None))"

subsection \<open>The loop computes the tree hash of RFC 6962\<close>

text \<open>The largest power of two below \<open>n\<close>, for \<open>n > 1\<close>.\<close>

function split_point :: "nat \<Rightarrow> nat" where
  "split_point n = (if n \<le> 2 then 1 else 2 * split_point ((n + 1) div 2))"
  by pat_completeness auto
termination
  by (relation "measure id") auto

declare split_point.simps [simp del]

lemma split_point_power: "\<exists>j. split_point n = 2 ^ j"
proof (induction n rule: split_point.induct)
  case (1 n)
  show ?case
  proof (cases "n \<le> 2")
    case True
    then show ?thesis by (auto simp: split_point.simps [of n] intro: exI [of _ 0])
  next
    case False
    with 1 obtain j where "split_point ((n + 1) div 2) = 2 ^ j" by blast
    then show ?thesis using False by (auto simp: split_point.simps [of n] intro: exI [of _ "Suc j"])
  qed
qed

lemma split_point_range: "1 < n \<Longrightarrow> split_point n < n \<and> n \<le> 2 * split_point n"
proof (induction n rule: split_point.induct)
  case (1 n)
  show ?case
  proof (cases "n \<le> 2")
    case True
    then show ?thesis using "1.prems" by (simp add: split_point.simps [of n])
  next
    case False
    define m where "m = split_point ((n + 1) div 2)"
    have "m < (n + 1) div 2" "(n + 1) div 2 \<le> 2 * m" using "1.IH" False by (auto simp: m_def)
    then have "2 * m < n \<and> n \<le> 2 * (2 * m)" by presburger
    moreover have "split_point n = 2 * m" using False by (simp add: split_point.simps [of n] m_def)
    ultimately show ?thesis by simp
  qed
qed

text \<open>The Merkle tree hash: the leaves in front of the split point, and the rest.\<close>

function MTH :: "string list \<Rightarrow> string" where
  "MTH d =
     (if length d \<le> 1 then leafDigest (hd d)
      else nodeDigest (MTH (take (split_point (length d)) d)) (MTH (drop (split_point (length d)) d)))"
  by pat_completeness auto
termination
proof (relation "measure length")
  fix d :: "string list"
  assume "\<not> length d \<le> 1"
  then have "split_point (length d) < length d" "0 < split_point (length d)"
    using split_point_range [of "length d"] by auto
  then show "(take (split_point (length d)) d, d) \<in> measure length"
    "(drop (split_point (length d)) d, d) \<in> measure length" by auto
qed simp

declare MTH.simps [simp del]

text \<open>The same split over nodes that are already hashed.\<close>

function split_root :: "('a \<Rightarrow> 'a \<Rightarrow> 'a) \<Rightarrow> 'a list \<Rightarrow> 'a" where
  "split_root f d =
     (if length d \<le> 1 then hd d
      else f (split_root f (take (split_point (length d)) d)) (split_root f (drop (split_point (length d)) d)))"
  by pat_completeness auto
termination
proof (relation "measure (\<lambda>(f, d). length d)")
  fix f :: "'a \<Rightarrow> 'a \<Rightarrow> 'a" and d
  assume "\<not> length d \<le> 1"
  then have "split_point (length d) < length d" "0 < split_point (length d)"
    using split_point_range [of "length d"] by auto
  then show "((f, take (split_point (length d)) d), (f, d)) \<in> measure (\<lambda>(f, d). length d)"
    "((f, drop (split_point (length d)) d), (f, d)) \<in> measure (\<lambda>(f, d). length d)" by auto
qed simp

declare split_root.simps [simp del]

lemma MTH_split_root: "d \<noteq> [] \<Longrightarrow> MTH d = split_root nodeDigest (map leafDigest d)"
proof (induction d rule: MTH.induct)
  case (1 d)
  show ?case
  proof (cases "length d \<le> 1")
    case True
    then show ?thesis using "1.prems" by (simp add: MTH.simps [of d] split_root.simps hd_map)
  next
    case False
    let ?k = "split_point (length d)"
    have "take ?k d \<noteq> []" "drop ?k d \<noteq> []" using split_point_range [of "length d"] False by auto
    then show ?thesis using "1.IH" False
      by (simp add: MTH.simps [of d] split_root.simps [of _ "map leafDigest d"] take_map drop_map)
  qed
qed

lemma next_level_append: "even (length xs) \<Longrightarrow> next_level f (xs @ ys) = next_level f xs @ next_level f ys"
  by (induction f xs rule: next_level.induct) auto

lemma split_root_single [simp]: "split_root f [x] = x"
  by (simp add: split_root.simps)

lemma split_root_next:
  assumes "1 < length d"
  shows "split_root f (next_level f d) = split_root f d"
  using assms
proof (induction "length d" arbitrary: d rule: less_induct)
  case less
  let ?n = "length d" and ?k = "split_point (length d)"
  show ?case
  proof (cases "?n = 2")
    case True
    then obtain x y where "d = [x, y]" by (auto simp: numeral_2_eq_2 length_Suc_conv)
    then show ?thesis by (simp add: split_root.simps [of f "[x, y]"] split_point.simps)
  next
    case False
    then have n: "2 < ?n" using less.prems by simp
    define m where "m = split_point ((?n + 1) div 2)"
    have k: "?k = 2 * m" using n by (simp add: m_def split_point.simps [of ?n])
    have r: "?k < ?n" "?n \<le> 2 * ?k" using split_point_range less.prems by auto
    have m: "0 < m" using k r by simp
    have d: "next_level f d = next_level f (take ?k d) @ next_level f (drop ?k d)"
      using next_level_append [of "take ?k d" f "drop ?k d"] r k by simp
    have l: "length (next_level f (take ?k d)) = m" using r k by (simp add: length_next_level)
    have t: "split_root f (next_level f (take ?k d)) = split_root f (take ?k d)"
      using less.hyps [of "take ?k d"] r k m by simp
    have single: "length ys = 1 \<Longrightarrow> split_root f (next_level f ys) = split_root f ys" for ys
      by (cases ys) simp_all
    have e: "split_root f (next_level f (drop ?k d)) = split_root f (drop ?k d)"
    proof (cases "length (drop ?k d) = 1")
      case True
      then show ?thesis by (rule single)
    next
      case False
      then show ?thesis using less.hyps [of "drop ?k d"] r k m by simp
    qed
    have sp: "split_point (length (next_level f d)) = m" by (simp only: length_next_level m_def)
    have td: "take m (next_level f d) = next_level f (take ?k d)"
      "drop m (next_level f d) = next_level f (drop ?k d)"
      unfolding d using l by simp_all
    have "\<not> length (next_level f d) \<le> 1" using n by (simp add: length_next_level)
    then have "split_root f (next_level f d) =
        f (split_root f (next_level f (take ?k d))) (split_root f (next_level f (drop ?k d)))"
      by (simp only: split_root.simps [of f "next_level f d"] sp td if_False)
    also have "\<dots> = split_root f d" using n by (simp add: t e split_root.simps [of f d])
    finally show ?thesis .
  qed
qed

lemma root_loop_split: "d \<noteq> [] \<Longrightarrow> root_loop f d = split_root f d"
proof (induction f d rule: root_loop.induct)
  case (1 f d)
  show ?case
  proof (cases "1 < length d")
    case True
    then have "next_level f d \<noteq> []" by (cases "(f, d)" rule: next_level.cases) auto
    then show ?thesis using 1 True split_root_next by (simp add: root_loop.simps [of f d])
  next
    case False
    then show ?thesis by (simp add: root_loop.simps [of f d] split_root.simps [of f d])
  qed
qed

text \<open>
  C25: the root over a spine is the Merkle tree hash of RFC 6962. The code hashes level by level and
  promotes an odd tail; the RFC splits the list at the largest power of two below its length and
  recurses. The two agree on every list of leaves, and there is no root over none.
\<close>

theorem merkle_root_is_rfc6962:
  "MerkleRoot leaves = (if leaves = [] then Inl [ErrNoLeaves] else Inr (hex_encode (MTH leaves)))"
  by (simp add: MerkleRoot_def MTH_split_root root_loop_split)

subsection \<open>A root determines its leaves\<close>

text \<open>The tree behind a root, its digest, its leaves, and every input that was hashed.\<close>

datatype mtree = MLeaf string | MNode mtree mtree

primrec mt_digest :: "mtree \<Rightarrow> string" where
  "mt_digest (MLeaf b) = leafDigest b"
| "mt_digest (MNode l r) = nodeDigest (mt_digest l) (mt_digest r)"

primrec mt_leaves :: "mtree \<Rightarrow> string list" where
  "mt_leaves (MLeaf b) = [b]"
| "mt_leaves (MNode l r) = mt_leaves l @ mt_leaves r"

primrec mt_inputs :: "mtree \<Rightarrow> string list" where
  "mt_inputs (MLeaf b) = [leafPrefix # b]"
| "mt_inputs (MNode l r) = (nodePrefix # mt_digest l @ mt_digest r) # mt_inputs l @ mt_inputs r"

definition merkle_tree :: "string list \<Rightarrow> mtree" where
  "merkle_tree leaves = root_loop MNode (map MLeaf leaves)"

definition merkle_inputs :: "string list \<Rightarrow> string list" where
  "merkle_inputs leaves = mt_inputs (merkle_tree leaves)"

lemma next_level_digest: "map mt_digest (next_level MNode ts) = next_level nodeDigest (map mt_digest ts)"
  by (induction MNode ts rule: next_level.induct) auto

lemma next_level_leaves: "concat (map mt_leaves (next_level MNode ts)) = concat (map mt_leaves ts)"
  by (induction MNode ts rule: next_level.induct) auto

lemma root_loop_tree:
  "ts \<noteq> [] \<Longrightarrow> mt_digest (root_loop MNode ts) = root_loop nodeDigest (map mt_digest ts) \<and>
     mt_leaves (root_loop MNode ts) = concat (map mt_leaves ts)"
proof (induction "length ts" arbitrary: ts rule: less_induct)
  case less
  show ?case
  proof (cases "1 < length ts")
    case True
    then have l: "length (next_level MNode ts) < length ts" and "0 < length (next_level MNode ts)"
      by (simp_all add: length_next_level)
    then have ne: "next_level MNode ts \<noteq> []" by simp
    have "root_loop MNode ts = root_loop MNode (next_level MNode ts)"
      "root_loop nodeDigest (map mt_digest ts) = root_loop nodeDigest (map mt_digest (next_level MNode ts))"
      using True by (simp_all add: root_loop.simps [of MNode ts]
          root_loop.simps [of nodeDigest "map mt_digest ts"] next_level_digest)
    then show ?thesis using less.hyps [OF l ne] by (simp add: next_level_leaves)
  next
    case False
    then obtain t where "ts = [t]" using less.prems by (cases ts) auto
    then show ?thesis by (simp add: root_loop.simps [of _ "[_]"])
  qed
qed

lemma merkle_tree_spec:
  assumes "leaves \<noteq> []"
  shows "root_loop nodeDigest (map leafDigest leaves) = mt_digest (merkle_tree leaves)"
    and "mt_leaves (merkle_tree leaves) = leaves"
proof -
  have *: "mt_digest (root_loop MNode (map MLeaf leaves)) =
        root_loop nodeDigest (map mt_digest (map MLeaf leaves))"
      "mt_leaves (root_loop MNode (map MLeaf leaves)) = concat (map mt_leaves (map MLeaf leaves))"
    using root_loop_tree [of "map MLeaf leaves"] assms by auto
  then show "root_loop nodeDigest (map leafDigest leaves) = mt_digest (merkle_tree leaves)"
    and "mt_leaves (merkle_tree leaves) = leaves" by (simp_all add: merkle_tree_def comp_def)
qed

text \<open>Two lists of hashed inputs of which one pair collides.\<close>

definition collides :: "string list \<Rightarrow> string list \<Rightarrow> bool" where
  "collides xs ys \<longleftrightarrow> (\<exists>x\<in>set xs. \<exists>y\<in>set ys. sha256_collision x y)"

lemma length_digest [simp]: "length (mt_digest t) = 32"
  by (cases t) (simp_all add: leafDigest_def nodeDigest_def)

lemma prefix_neq: "leafPrefix \<noteq> nodePrefix"
  by (simp add: leafPrefix_def nodePrefix_def char_byte_eq)

lemma collidesI:
  "x \<in> set xs \<Longrightarrow> y \<in> set ys \<Longrightarrow> x \<noteq> y \<Longrightarrow> sha256 x = sha256 y \<Longrightarrow> collides xs ys"
  unfolding collides_def sha256_collision_def by blast

text \<open>The input whose digest a node carries.\<close>

definition mt_top :: "mtree \<Rightarrow> string" where
  "mt_top t = hd (mt_inputs t)"

lemma mt_top: "mt_digest t = sha256 (mt_top t)" "mt_top t \<in> set (mt_inputs t)"
  by (cases t; simp add: mt_top_def leafDigest_def nodeDigest_def)+

lemma digest_binds: "mt_digest t = mt_digest u \<Longrightarrow> t = u \<or> collides (mt_inputs t) (mt_inputs u)"
proof (induction t arbitrary: u)
  case (MLeaf b)
  note c = collidesI [OF mt_top(2) mt_top(2) _ MLeaf.prems [unfolded mt_top(1)]]
  show ?case
  proof (cases "mt_top (MLeaf b) = mt_top u")
    case True
    then have "MLeaf b = u" using prefix_neq by (cases u) (auto simp: mt_top_def)
    then show ?thesis by blast
  next
    case False
    from c [OF this] show ?thesis by blast
  qed
next
  case (MNode l r)
  note c = collidesI [OF mt_top(2) mt_top(2) _ MNode.prems [unfolded mt_top(1)]]
  show ?case
  proof (cases "mt_top (MNode l r) = mt_top u")
    case True
    then obtain l' r' where u: "u = MNode l' r'" using prefix_neq by (cases u) (auto simp: mt_top_def)
    have "mt_digest l @ mt_digest r = mt_digest l' @ mt_digest r'" using True by (simp add: u mt_top_def)
    then have "mt_digest l = mt_digest l'" "mt_digest r = mt_digest r'" by simp_all
    then show ?thesis using MNode.IH(1) [of l'] MNode.IH(2) [of r'] by (auto simp: u collides_def)
  next
    case False
    from c [OF this] show ?thesis by blast
  qed
qed

lemma root_binds:
  assumes "MerkleRoot xs = Inr h" and "MerkleRoot ys = Inr h"
  shows "xs = ys \<or> collides (merkle_inputs xs) (merkle_inputs ys)"
proof -
  have ne: "xs \<noteq> []" "ys \<noteq> []" using assms by (auto simp: MerkleRoot_def)
  have "hex_encode (mt_digest (merkle_tree xs)) = h" "hex_encode (mt_digest (merkle_tree ys)) = h"
    using assms ne by (simp_all add: MerkleRoot_def flip: merkle_tree_spec(1))
  then have "mt_digest (merkle_tree xs) = mt_digest (merkle_tree ys)"
    by (metis hex_encode_inject)
  from digest_binds [OF this] consider "merkle_tree xs = merkle_tree ys"
    | "collides (mt_inputs (merkle_tree xs)) (mt_inputs (merkle_tree ys))" by blast
  then show ?thesis
  proof cases
    case 1
    then have "mt_leaves (merkle_tree xs) = mt_leaves (merkle_tree ys)" by simp
    then have "xs = ys" by (simp only: merkle_tree_spec(2) [OF ne(1)] merkle_tree_spec(2) [OF ne(2)])
    then show ?thesis by blast
  qed (simp add: merkle_inputs_def)
qed

subsection \<open>A head determines its spine\<close>

definition chain_inputs :: "ChainEnvelope list \<Rightarrow> string list" where
  "chain_inputs envs =
     map (\<lambda>e. hash_preimage (the (hex_decode (PriorHash e))) (Sequence e) (Event e)) envs"

definition spine_leaves :: "ChainEnvelope list \<Rightarrow> string list" where
  "spine_leaves envs = map (\<lambda>e. the (hex_decode (Hash e))) envs"

lemma decode_hashes_valid:
  "(\<And>e. e \<in> set envs \<Longrightarrow> digest_hex (Hash e)) \<Longrightarrow> decode_hashes envs = Inr (spine_leaves envs)"
proof (induction envs)
  case (Cons e envs)
  then have "digest_hex (Hash e)" by simp
  then obtain raw where "hex_decode (Hash e) = Some raw" by (auto simp: digest_hex_def split: option.splits)
  with Cons show ?case by (simp add: spine_leaves_def)
qed (simp add: spine_leaves_def)

lemma digest_hex_inject:
  "digest_hex g \<Longrightarrow> digest_hex h \<Longrightarrow> the (hex_decode g) = the (hex_decode h) \<Longrightarrow> g = h"
  by (auto simp: digest_hex_def split: option.splits)

lemma spine_leaves_inject:
  assumes "\<And>e. e \<in> set xs \<union> set ys \<Longrightarrow> digest_hex (Hash e)" and "spine_leaves xs = spine_leaves ys"
  shows "map Hash xs = map Hash ys"
  using assms
proof (induction xs arbitrary: ys)
  case (Cons x xs)
  obtain y ys' where ys: "ys = y # ys'" using Cons.prems(2) by (cases ys) (simp_all add: spine_leaves_def)
  have eq: "the (hex_decode (Hash x)) = the (hex_decode (Hash y))" "spine_leaves xs = spine_leaves ys'"
    using Cons.prems(2) by (simp_all add: spine_leaves_def ys)
  have "Hash x = Hash y"
    by (rule digest_hex_inject [OF Cons.prems(1) Cons.prems(1) eq(1)]) (simp_all add: ys)
  moreover have "map Hash xs = map Hash ys'"
    by (rule Cons.IH [OF _ eq(2)], rule Cons.prems(1)) (auto simp: ys)
  ultimately show ?case by (simp add: ys)
qed (simp add: spine_leaves_def)

text \<open>Two validated envelopes of one source with one hash are the same, or their inputs collide.\<close>

lemma preimage_inject:
  assumes "length p = 32" and "length p' = 32" and "hash_preimage p q ev = hash_preimage p' q' ev'"
  shows "p = p' \<and> q = q' \<and> ev = ev'"
proof -
  from assms(3) have "p @ be64 (unat q) @ ev = p' @ be64 (unat q') @ ev'"
    by (simp only: hash_preimage_def)
  moreover have "length p = length p'" "length (be64 (unat q)) = length (be64 (unat q'))"
    by (simp_all add: assms)
  ultimately have p: "p = p'" and b: "be64 (unat q) = be64 (unat q')" and e: "ev = ev'"
    by (metis append_eq_append_conv)+
  have "q = q'" using be64_inject [OF u64_bound u64_bound b] by (rule unsigned_word_eqI)
  then show ?thesis using p e by blast
qed

lemma envelope_binds:
  fixes d e :: ChainEnvelope
  assumes "digest_hex (PriorHash d)" and "digest_hex (PriorHash e)"
    and "computeHash (PriorHash d) (Sequence d) (Event d) = Inr (Hash d)"
    and "computeHash (PriorHash e) (Sequence e) (Event e) = Inr (Hash e)"
    and "Hash d = Hash e" and "EnvSource d = EnvSource e"
    and "\<not> sha256_collision (hash_preimage (the (hex_decode (PriorHash d))) (Sequence d) (Event d))
        (hash_preimage (the (hex_decode (PriorHash e))) (Sequence e) (Event e))"
  shows "d = e"
proof -
  obtain p p' where p: "hex_decode (PriorHash d) = Some p" "hex_decode (PriorHash e) = Some p'"
      "length p = 32" "length p' = 32" "hex_encode p = PriorHash d" "hex_encode p' = PriorHash e"
    using assms(1,2) by (auto simp: digest_hex_def split: option.splits)
  have "sha256 (hash_preimage p (Sequence d) (Event d)) = sha256 (hash_preimage p' (Sequence e) (Event e))"
    using assms(3-5) p by (simp add: computeHash_def) (metis hex_encode_inject)
  then have "hash_preimage p (Sequence d) (Event d) = hash_preimage p' (Sequence e) (Event e)"
    using assms(7) p by (simp add: sha256_collision_def)
  from preimage_inject [OF p(3,4) this] show ?thesis
    using assms(5,6) p(5,6) by (intro ChainEnvelope.equality) simp_all
qed

lemma validated:
  "ValidateChain envs = None \<Longrightarrow> e \<in> set envs \<Longrightarrow>
     computeHash (PriorHash e) (Sequence e) (Event e) = Inr (Hash e)"
proof (induction envs rule: rev_induct)
  case (snoc x xs)
  then show ?case by (auto simp: ValidateChain_snoc check_envelope_None)
qed simp

lemma hashes_bind:
  assumes "ValidateChain xs = None" and "ValidateChain ys = None" and "map Hash xs = map Hash ys"
    and "\<And>e. e \<in> set xs \<union> set ys \<Longrightarrow> EnvSource e = src"
  shows "xs = ys \<or> collides (chain_inputs xs) (chain_inputs ys)"
proof (rule ccontr)
  assume neg: "\<not> ?thesis"
  have len: "length xs = length ys" using assms(3) by (rule map_eq_imp_length_eq)
  have "xs ! i = ys ! i" if "i < length xs" for i
  proof -
    have mem: "xs ! i \<in> set xs" "ys ! i \<in> set ys" using that len by auto
    have src: "EnvSource (xs ! i) = EnvSource (ys ! i)" using assms(4) mem by simp
    have hash: "Hash (xs ! i) = Hash (ys ! i)" using assms(3) that len by (metis nth_map)
    have "chain_inputs xs ! i \<in> set (chain_inputs xs)" "chain_inputs ys ! i \<in> set (chain_inputs ys)"
      using that len by (simp_all add: chain_inputs_def)
    then have "\<not> sha256_collision (chain_inputs xs ! i) (chain_inputs ys ! i)"
      using neg unfolding collides_def by blast
    then have "\<not> sha256_collision
        (hash_preimage (the (hex_decode (PriorHash (xs ! i)))) (Sequence (xs ! i)) (Event (xs ! i)))
        (hash_preimage (the (hex_decode (PriorHash (ys ! i)))) (Sequence (ys ! i)) (Event (ys ! i)))"
      using that len by (simp add: chain_inputs_def)
    then show ?thesis
      using chain_hashes [OF assms(1) mem(1)] chain_hashes [OF assms(2) mem(2)]
        envelope_binds [OF _ _ validated [OF assms(1) mem(1)] validated [OF assms(2) mem(2)] hash src]
      by blast
  qed
  then have "xs = ys" using len by (simp add: nth_equalityI)
  then show False using neg by simp
qed

lemma head_spec:
  assumes "HeadOverSpine envs = Inr h"
  shows "ValidateChain envs = None" and "\<And>e. e \<in> set envs \<Longrightarrow> EnvSource e = HdSource h"
    and "MerkleRoot (spine_leaves envs) = Inr (Root h)"
proof -
  have v: "ValidateChain envs = None"
    using assms by (auto simp: HeadOverSpine_def split: if_splits option.splits)
  then have d: "decode_hashes envs = Inr (spine_leaves envs)" using chain_hashes by (blast intro: decode_hashes_valid)
  have "list_all (\<lambda>e. EnvSource e = EnvSource (hd envs)) envs \<and> HdSource h = EnvSource (hd envs) \<and>
      MerkleRoot (spine_leaves envs) = Inr (Root h)"
    using assms by (auto simp: HeadOverSpine_def v d split: if_splits sum.splits)
  then show "ValidateChain envs = None" and "\<And>e. e \<in> set envs \<Longrightarrow> EnvSource e = HdSource h"
    and "MerkleRoot (spine_leaves envs) = Inr (Root h)"
    using v by (simp_all add: list_all_iff)
qed

text \<open>
  C7: a head witnesses one spine. Two spines over which \<open>HeadOverSpine\<close> computes the same head are
  equal, envelope by envelope and field by field, unless two of the inputs that were hashed for them
  (in the trees or in the chains) are a SHA-256 collision.
\<close>

theorem head_binds_spine:
  assumes "HeadOverSpine xs = Inr h" and "HeadOverSpine ys = Inr h"
  shows "xs = ys \<or> collides (merkle_inputs (spine_leaves xs)) (merkle_inputs (spine_leaves ys)) \<or>
    collides (chain_inputs xs) (chain_inputs ys)"
proof -
  note x = head_spec [OF assms(1)] and y = head_spec [OF assms(2)]
  consider (leaves) "spine_leaves xs = spine_leaves ys"
    | (collision) "collides (merkle_inputs (spine_leaves xs)) (merkle_inputs (spine_leaves ys))"
    using root_binds [OF x(3) y(3)] by blast
  then show ?thesis
  proof cases
    case leaves
    then have "map Hash xs = map Hash ys"
      using chain_hashes x(1) y(1) by (intro spine_leaves_inject) auto
    from hashes_bind [OF x(1) y(1) this, of "HdSource h"] show ?thesis using x(2) y(2) by auto
  qed blast
qed

text \<open>A spine of one record, for the witness.\<close>

definition demo_record :: ChainEnvelope where
  "demo_record =
     \<lparr>EnvSource = ''control'', Sequence = 1, PriorHash = genesisPriorHash,
      Hash = hex_encode (sha256 (hash_preimage (the (hex_decode genesisPriorHash)) 1 ''{}'')), Event = ''{}''\<rparr>"

lemma demo_record_valid: "ValidateChain [demo_record] = None"
  by (simp add: ValidateChain_def check_envelope_def check_link_def computeHash_def demo_record_def
      hex_decode_genesis)

lemma demo_record_head: "\<exists>h. HeadOverSpine [demo_record] = Inr h"
proof -
  have "decode_hashes [demo_record] = Inr (spine_leaves [demo_record])"
    using chain_hashes [OF demo_record_valid] by (intro decode_hashes_valid) blast
  then show ?thesis
    by (simp add: HeadOverSpine_def demo_record_valid MerkleRoot_def spine_leaves_def del: decode_hashes.simps)
qed

theorem head_binds_spine_witness:
  "\<exists>h. HeadOverSpine [demo_record] = Inr h \<and>
     ([demo_record] = [demo_record] \<or>
      collides (merkle_inputs (spine_leaves [demo_record])) (merkle_inputs (spine_leaves [demo_record])) \<or>
      collides (chain_inputs [demo_record]) (chain_inputs [demo_record]))"
  using demo_record_head head_binds_spine by blast

subsection \<open>A signature covers one head\<close>

lemma hex_encode_Nil_iff [simp]: "hex_encode bs = [] \<longleftrightarrow> bs = []"
  by (cases bs) (simp_all add: hex_encode_def hex_byte_def)

lemma appendHeadField_split:
  assumes "appendHeadField a v = Inr o1" and "appendHeadField a' v' = Inr o2" and "length a = length a'"
    and "o1 @ r = o2 @ r'"
  shows "a = a' \<and> v = v' \<and> r = r'"
proof -
  have bound: "length v < 256 ^ 4" "length v' < 256 ^ 4"
    using assms(1,2) by (auto simp: appendHeadField_def maxHeadFieldLen_def split: if_splits)
  have "a @ be_bytes 4 (length v) @ v @ r = a' @ be_bytes 4 (length v') @ v' @ r'"
    using assms(1,2,4) by (auto simp: appendHeadField_def split: if_splits)
  then have a: "a = a'" and "be_bytes 4 (length v) = be_bytes 4 (length v')" and "v @ r = v' @ r'"
    using assms(3) by (simp_all add: append_eq_append_conv)
  moreover from this(2) have "length v = length v'" using be_bytes_inject [OF bound] by blast
  ultimately show ?thesis by simp
qed

lemma canonicalHead_inject:
  fixes h h' :: Head
  assumes "canonicalHead h = Inr b" and "canonicalHead h' = Inr b"
  shows "h = h'"
proof -
  obtain a1 a2 where a: "appendHeadField headDomainTag (HdSource h) = Inr a1" "appendHeadField a1 (Root h) = Inr a2"
      "b = a2 @ be64 (unat (Count h)) @ be64 (unat (FirstSequence h)) @ be64 (unat (LastSequence h))"
    using assms(1) by (auto simp: canonicalHead_def appendHeadUint_def split: sum.splits)
  obtain b1 b2 where b: "appendHeadField headDomainTag (HdSource h') = Inr b1" "appendHeadField b1 (Root h') = Inr b2"
      "b = b2 @ be64 (unat (Count h')) @ be64 (unat (FirstSequence h')) @ be64 (unat (LastSequence h'))"
    using assms(2) by (auto simp: canonicalHead_def appendHeadUint_def split: sum.splits)
  have tail: "a2 = a1 @ be_bytes 4 (length (Root h)) @ Root h" "b2 = b1 @ be_bytes 4 (length (Root h')) @ Root h'"
    using a(2) b(2) by (auto simp: appendHeadField_def split: if_splits)
  have "a1 @ be_bytes 4 (length (Root h)) @ Root h @
        be64 (unat (Count h)) @ be64 (unat (FirstSequence h)) @ be64 (unat (LastSequence h)) =
      b1 @ be_bytes 4 (length (Root h')) @ Root h' @
        be64 (unat (Count h')) @ be64 (unat (FirstSequence h')) @ be64 (unat (LastSequence h'))"
    using a(3) b(3) tail by simp
  from appendHeadField_split [OF a(1) b(1) refl this] have src: "HdSource h = HdSource h'"
    by blast
  then have "a1 = b1" using a(1) b(1) by simp
  with appendHeadField_split [OF a(2) b(2)] a(3) b(3) have rest: "Root h = Root h'"
      "be64 (unat (Count h)) @ be64 (unat (FirstSequence h)) @ be64 (unat (LastSequence h)) =
       be64 (unat (Count h')) @ be64 (unat (FirstSequence h')) @ be64 (unat (LastSequence h'))"
    by blast+
  from rest(2) have eq: "be64 (unat (Count h)) = be64 (unat (Count h'))"
      "be64 (unat (FirstSequence h)) = be64 (unat (FirstSequence h'))"
      "be64 (unat (LastSequence h)) = be64 (unat (LastSequence h'))"
    by (simp_all add: append_eq_append_conv)
  note word = be64_inject [OF u64_bound u64_bound, THEN unsigned_word_eqI]
  show ?thesis using src rest(1) word [OF eq(1)] word [OF eq(2)] word [OF eq(3)]
    by (intro Head.equality) simp_all
qed

text \<open>
  A signature covers its whole head. An envelope signed with the key that belongs to \<open>pub\<close>
  verifies under \<open>pub\<close>; and if its signature verifies under \<open>pub\<close> on another envelope, the two heads
  agree in every field, unless \<open>ed25519.Verify\<close> accepts the signature of the one head's canonical
  bytes for the different canonical bytes of the other.
\<close>

theorem head_signature_binds:
  assumes "\<And>m. verify pub m (sign m)" and "\<And>m. sign m \<noteq> ''''" and "length pub = 32"
    and "SignHead h (Some (\<lambda>m. Inr (sign m))) = Inr env"
    and "VerifyEnvelope verify env' pub = None" and "EnvSignature env' = EnvSignature env"
  shows "VerifyEnvelope verify env pub = None \<and>
    (EnvHead env' = h \<or>
     (\<exists>m m'. canonicalHead h = Inr m \<and> canonicalHead (EnvHead env') = Inr m' \<and> m \<noteq> m' \<and> verify pub m' (sign m)))"
proof -
  obtain b where b: "canonicalHead h = Inr b" and env: "env = \<lparr>EnvHead = h, EnvSignature = hex_encode (sign b)\<rparr>"
    using assms(4) by (auto simp: SignHead_def split: if_splits sum.splits)
  have ne: "hex_encode (sign b) \<noteq> ''''" using assms(2) [of b] by simp
  then have "VerifyEnvelope verify env pub = None"
    using assms(1,3) b by (simp add: VerifyEnvelope_def env)
  moreover obtain b' where b': "canonicalHead (EnvHead env') = Inr b'" "verify pub b' (sign b)"
    using assms(3,5,6) ne by (auto simp: VerifyEnvelope_def env split: if_splits sum.splits)
  moreover have "EnvHead env' = h \<or> b \<noteq> b'" using canonicalHead_inject [OF b'(1), of h] b by blast
  ultimately show ?thesis using b by blast
qed

text \<open>A toy signature that is its message with a mark in front.\<close>

theorem head_signature_binds_witness:
  "\<exists>h env. SignHead h (Some (\<lambda>m. Inr (CHR ''s'' # m))) = Inr env \<and>
     VerifyEnvelope (\<lambda>pub m sig. sig = CHR ''s'' # m) env (replicate 32 CHR ''k'') = None"
proof -
  define h where "h = \<lparr>HdSource = ''control'', Root = ''00'', Count = 1, FirstSequence = 1, LastSequence = 1\<rparr>"
  define pub where "pub = replicate 32 CHR ''k''"
  obtain b where b: "canonicalHead h = Inr b"
    by (simp add: canonicalHead_def appendHeadField_def maxHeadFieldLen_def h_def)
  define env where "env = \<lparr>EnvHead = h, EnvSignature = hex_encode (CHR ''s'' # b)\<rparr>"
  have s: "SignHead h (Some (\<lambda>m. Inr (CHR ''s'' # m))) = Inr env"
    using b by (simp add: SignHead_def env_def) (simp add: h_def)
  have "VerifyEnvelope (\<lambda>pub m sig. sig = CHR ''s'' # m) env pub = None"
    using b by (simp add: VerifyEnvelope_def env_def pub_def)
  with head_signature_binds [OF _ _ _ s this refl] s show ?thesis by (auto simp: pub_def)
qed

end
