(* ===== verification/Audit_File.thy ===== *)
theory Audit_File
  imports Audit_Chain
begin

text \<open>
  The durable side of the audit trail: the line format and the file sink of
  \<open>internal/audit/ocsf/file.go\<close>, the fan-in writer of \<open>faninwriter.go\<close>, and reading a file back
  (\<open>resume.go\<close>). A disk maps paths to contents; every system call asks a fault schedule, indexed by
  the number of calls made so far, whether and how it fails. The file sink is shown to satisfy the
  contract of a durable writer as long as no failing call leaves bytes behind; from that follow that
  a file reads back as the valid chain of the acknowledged events and that a restart resumes exactly
  where the sink stood. Two theorems show what happens when a failing call does leave its line.
\<close>

subsection \<open>Lines\<close>

definition newline :: char where "newline = char_of (10::nat)"

definition zeroEnvelope :: ChainEnvelope where
  "zeroEnvelope = \<lparr>EnvSource = '''', Sequence = 0, PriorHash = '''', Hash = '''', Event = ''''\<rparr>"

text \<open>\<open>json.Marshal\<close> of an envelope; a raw event that is no valid JSON is an error.\<close>

definition marshal_envelope :: "ChainEnvelope \<Rightarrow> string option" where
  "marshal_envelope env =
     (case json_compact (Event env) of None \<Rightarrow> None
      | Some ev \<Rightarrow>
          Some (print_obj [(''source'', json_quote (EnvSource env)), (''sequence'', dec (unat (Sequence env))),
                           (''prior_hash'', json_quote (PriorHash env)), (''hash'', json_quote (Hash env)),
                           (''event'', ev)]))"

definition envelope_field :: "ChainEnvelope \<Rightarrow> string \<Rightarrow> string \<Rightarrow> json \<Rightarrow> ChainEnvelope option" where
  "envelope_field env k t v =
     (if k = ''source'' then map_option (\<lambda>x. env\<lparr>EnvSource := x\<rparr>) (field_string v (EnvSource env))
      else if k = ''sequence''
        then map_option (\<lambda>x. env\<lparr>Sequence := of_nat x\<rparr>) (field_uint 64 v (unat (Sequence env)))
      else if k = ''prior_hash'' then map_option (\<lambda>x. env\<lparr>PriorHash := x\<rparr>) (field_string v (PriorHash env))
      else if k = ''hash'' then map_option (\<lambda>x. env\<lparr>Hash := x\<rparr>) (field_string v (Hash env))
      else if k = ''event'' then Some (env\<lparr>Event := t\<rparr>)
      else Some env)"

definition unmarshal_envelope :: "string \<Rightarrow> ChainEnvelope option" where
  "unmarshal_envelope line = decode_struct envelope_field zeroEnvelope line"

subsection \<open>Disks and faults\<close>

text \<open>
  \<open>past\<close> keeps every state of the files a sequence of calls went through, which is what a crash can
  leave behind (the loss of writes that were not yet synchronised is not modelled).
\<close>

record disk =
  files :: "string \<Rightarrow> string option"
  calls :: nat
  past :: "(string \<Rightarrow> string option) list"

text \<open>
  A write puts all its bytes or a first part of them into the file and answers an error or none; the
  other calls answer an error or none. \<open>f_join\<close> is \<open>filepath.Join\<close>.
\<close>

datatype write_answer = WriteAll "err option" | WritePart nat "err option"

fun reached :: "write_answer \<Rightarrow> string \<Rightarrow> string" where
  "reached (WriteAll e) s = s"
| "reached (WritePart n e) s = take n s"

fun answer_err :: "write_answer \<Rightarrow> err option" where
  "answer_err (WriteAll e) = e"
| "answer_err (WritePart n e) = e"

record faults =
  f_write :: "nat \<Rightarrow> write_answer"
  f_sync :: "nat \<Rightarrow> err option"
  f_open :: "nat \<Rightarrow> err option"
  f_read :: "nat \<Rightarrow> err option"
  f_meta :: "nat \<Rightarrow> err option"
  f_join :: "string \<Rightarrow> string \<Rightarrow> string"

definition tick :: "disk \<Rightarrow> disk" where
  "tick d = d\<lparr>calls := calls d + 1\<rparr>"

definition set_file :: "string \<Rightarrow> string option \<Rightarrow> disk \<Rightarrow> disk" where
  "set_file p c d =
     d\<lparr>files := (files d)(p := c), past := past d @ [(files d)(p := c)]\<rparr>"

definition content :: "string \<Rightarrow> disk \<Rightarrow> string" where
  "content p d = (case files d p of None \<Rightarrow> [] | Some c \<Rightarrow> c)"

subsection \<open>The file sink\<close>

record FileSink =
  fs_path :: string
  fs_closed :: bool

definition OpenFileSink :: "faults \<Rightarrow> string \<Rightarrow> disk \<Rightarrow> FileSink result \<times> disk" where
  "OpenFileSink F path d =
     (if path = '''' then (Inl [Dynamic ''audit file sink path is empty''], d)
      else case f_open F (calls d) of
        Some e \<Rightarrow> (Inl e, tick d)
      | None \<Rightarrow> (Inr \<lparr>fs_path = path, fs_closed = False\<rparr>,
                 if files d path = None then set_file path (Some []) (tick d) else tick d))"

text \<open>The bytes reach the file, then the call answers; a short write without an error is an error too.\<close>

definition append_line :: "faults \<Rightarrow> string \<Rightarrow> string \<Rightarrow> disk \<Rightarrow> err option \<times> disk" where
  "append_line F path line d =
     (let a = f_write F (calls d);
          d1 = tick (set_file path (Some (content path d @ reached a line)) d) in
      case answer_err a of Some e \<Rightarrow> (Some e, d1)
      | None \<Rightarrow>
          if length (reached a line) \<noteq> length line then (Some [Dynamic ''short audit append''], d1)
          else (f_sync F (calls d1), tick d1))"

definition FileSink_Write :: "faults \<Rightarrow> (FileSink \<times> disk) event_writer" where
  "FileSink_Write F c env = (\<lambda>(s, d).
     if c then (Some [CtxErr], s, d)
     else case marshal_envelope env of None \<Rightarrow> (Some [Dynamic ''marshal audit envelope''], s, d)
     | Some line \<Rightarrow>
         if fs_closed s then (Some [ErrFileSinkClosed], s, d)
         else case append_line F (fs_path s) (line @ [newline]) d of (e, d') \<Rightarrow> (e, s, d'))"

definition FileSink_Close :: "faults \<Rightarrow> FileSink \<times> disk \<Rightarrow> err option \<times> FileSink \<times> disk" where
  "FileSink_Close F = (\<lambda>(s, d).
     if fs_closed s then (None, s, d)
     else (f_meta F (calls d), s\<lparr>fs_closed := True\<rparr>, tick d))"

subsection \<open>The fan-in writer\<close>

record PublishWire =
  TraceID :: string
  WiSessionID :: string
  ActorID :: string
  WiResource :: string
  WiAction :: string
  WiOutcome :: string
  WiSequence :: u64
  Payload :: string

definition globalScope :: string where "globalScope = ''*''"

text \<open>\<open>strings.TrimSpace\<close> and \<open>strings.ToLower\<close> on status labels, which are ASCII.\<close>

definition trim_space :: "string \<Rightarrow> string" where
  "trim_space s =
     (let ws = (\<lambda>c. is_ws c \<or> byte c = 11 \<or> byte c = 12) in rev (dropWhile ws (rev (dropWhile ws s))))"

definition outcomeFor :: "string \<Rightarrow> string" where
  "outcomeFor status =
     (let s = map to_lower (trim_space status) in
      if s = ''success'' then ''success'' else if s = ''failure'' then ''failure'' else ''unknown'')"

definition firstNonEmpty :: "string \<Rightarrow> string \<Rightarrow> string" where
  "firstNonEmpty a b = (if a \<noteq> '''' then a else b)"

text \<open>The fields the projection reads out of the event, decoded through the nested objects.\<close>

record wire_probe =
  wp_activity :: string
  wp_status :: string
  wp_actor :: string
  wp_session :: string
  wp_correlation :: string
  wp_action :: string

text \<open>A nested struct: an object gives its members to the inner decoder, \<open>null\<close> nothing.\<close>

fun nested :: "('a \<Rightarrow> string \<Rightarrow> string \<Rightarrow> json \<Rightarrow> 'a option) \<Rightarrow> 'a \<Rightarrow> json \<Rightarrow> 'a option" where
  "nested f a (JObj kvs) = decode_members f (map (\<lambda>(k, v). (k, '''', v)) kvs) a"
| "nested f a JNull = Some a"
| "nested f a _ = None"

definition user_field :: "wire_probe \<Rightarrow> string \<Rightarrow> string \<Rightarrow> json \<Rightarrow> wire_probe option" where
  "user_field p k t v =
     (if k = ''name'' then map_option (\<lambda>x. p\<lparr>wp_actor := x\<rparr>) (field_string v (wp_actor p)) else Some p)"

definition session_field :: "wire_probe \<Rightarrow> string \<Rightarrow> string \<Rightarrow> json \<Rightarrow> wire_probe option" where
  "session_field p k t v =
     (if k = ''uid'' then map_option (\<lambda>x. p\<lparr>wp_session := x\<rparr>) (field_string v (wp_session p)) else Some p)"

definition actor_field :: "wire_probe \<Rightarrow> string \<Rightarrow> string \<Rightarrow> json \<Rightarrow> wire_probe option" where
  "actor_field p k t v =
     (if k = ''user'' then nested user_field p v else if k = ''session'' then nested session_field p v
      else Some p)"

definition unmapped_field :: "wire_probe \<Rightarrow> string \<Rightarrow> string \<Rightarrow> json \<Rightarrow> wire_probe option" where
  "unmapped_field p k t v =
     (if k = ''action'' then map_option (\<lambda>x. p\<lparr>wp_action := x\<rparr>) (field_string v (wp_action p)) else Some p)"

definition metadata_field :: "wire_probe \<Rightarrow> string \<Rightarrow> string \<Rightarrow> json \<Rightarrow> wire_probe option" where
  "metadata_field p k t v =
     (if k = ''correlation_uid'' then map_option (\<lambda>x. p\<lparr>wp_correlation := x\<rparr>) (field_string v (wp_correlation p))
      else if k = ''unmapped'' then nested unmapped_field p v else Some p)"

definition probe_field :: "wire_probe \<Rightarrow> string \<Rightarrow> string \<Rightarrow> json \<Rightarrow> wire_probe option" where
  "probe_field p k t v =
     (if k = ''activity_name'' then map_option (\<lambda>x. p\<lparr>wp_activity := x\<rparr>) (field_string v (wp_activity p))
      else if k = ''status'' then map_option (\<lambda>x. p\<lparr>wp_status := x\<rparr>) (field_string v (wp_status p))
      else if k = ''actor'' then nested actor_field p v
      else if k = ''metadata'' then nested metadata_field p v
      else Some p)"

definition toPublishWire :: "ChainEnvelope \<Rightarrow> PublishWire" where
  "toPublishWire env =
     (case decode_struct probe_field
         \<lparr>wp_activity = '''', wp_status = '''', wp_actor = '''', wp_session = '''', wp_correlation = '''',
          wp_action = ''''\<rparr> (Event env) of
        None \<Rightarrow> \<lparr>TraceID = '''', WiSessionID = '''', ActorID = '''', WiResource = '''', WiAction = '''',
                 WiOutcome = '''', WiSequence = Sequence env, Payload = Event env\<rparr>
      | Some p \<Rightarrow>
          let scope = firstNonEmpty (wp_session p) globalScope in
          \<lparr>TraceID = firstNonEmpty (wp_correlation p) scope, WiSessionID = scope, ActorID = wp_actor p,
           WiResource = scope, WiAction = firstNonEmpty (wp_action p) (wp_activity p),
           WiOutcome = outcomeFor (wp_status p), WiSequence = Sequence env, Payload = Event env\<rparr>)"

text \<open>
  The composite over a local writer; the publisher answers by the number of publishes so far, which is
  the third component of the state.
\<close>

definition FanInWriter_Write ::
  "'w event_writer \<Rightarrow> (nat \<Rightarrow> PublishWire \<Rightarrow> err option) \<Rightarrow> ('w \<times> nat) event_writer" where
  "FanInWriter_Write local pub c env = (\<lambda>(w, n).
     case local c env w of
       (Some e, w') \<Rightarrow> (Some e, w', n)
     | (None, w') \<Rightarrow> (pub n (toPublishWire env), w', n + 1))"

definition NewFanInWriter ::
  "'w event_writer option \<Rightarrow> (nat \<Rightarrow> PublishWire \<Rightarrow> err option) option \<Rightarrow> ('w \<times> nat) event_writer result" where
  "NewFanInWriter local pub =
     (case local of None \<Rightarrow> Inl [Dynamic ''fan-in writer requires a local EventWriter'']
      | Some l \<Rightarrow>
          (case pub of None \<Rightarrow> Inl [Dynamic ''fan-in writer requires a central Publisher'']
           | Some p \<Rightarrow> Inr (FanInWriter_Write l p)))"

text \<open>Closing forwards to the local writer where that has a \<open>Close\<close>.\<close>

definition FanInWriter_Close :: "('w \<Rightarrow> err option \<times> 'w) option \<Rightarrow> 'w \<times> nat \<Rightarrow> err option \<times> 'w \<times> nat" where
  "FanInWriter_Close closer = (\<lambda>(w, n).
     case closer of Some close \<Rightarrow> (case close w of (e, w') \<Rightarrow> (e, w', n)) | None \<Rightarrow> (None, w, n))"

subsection \<open>Reading a file back\<close>

definition maxEnvelopeLine :: nat where "maxEnvelopeLine = 1024 * 1024"

text \<open>
  \<open>bufio.Scanner\<close> over lines: what is between newlines, and a rest that is not empty. A line that
  fills the buffer without its newline ends the scan with an error.
\<close>

fun split_lines :: "string \<Rightarrow> string \<Rightarrow> string list" where
  "split_lines acc [] = (if acc = [] then [] else [rev acc])"
| "split_lines acc (c # s) =
     (if c = newline then rev acc # split_lines [] s else split_lines (c # acc) s)"

definition drop_cr :: "string \<Rightarrow> string" where
  "drop_cr l = (if l \<noteq> [] \<and> byte (last l) = 13 then butlast l else l)"

fun read_lines :: "string list \<Rightarrow> ChainEnvelope list result" where
  "read_lines [] = Inr []"
| "read_lines (l # ls) =
     (if maxEnvelopeLine \<le> length l then Inl [Dynamic ''token too long'']
      else if drop_cr l = [] then read_lines ls
      else case unmarshal_envelope (drop_cr l) of
             None \<Rightarrow> Inl [Dynamic ''line is not a ChainEnvelope'']
           | Some env \<Rightarrow>
               (case read_lines ls of Inl e \<Rightarrow> Inl e | Inr envs \<Rightarrow> Inr (env # envs)))"

definition ReadChainFile :: "faults \<Rightarrow> string \<Rightarrow> disk \<Rightarrow> ChainEnvelope list result \<times> disk" where
  "ReadChainFile F path d =
     (case f_open F (calls d) of
        Some e \<Rightarrow> (Inl e, tick d)
      | None \<Rightarrow>
          (case files d path of
             None \<Rightarrow> (Inr [], tick d)
           | Some c \<Rightarrow>
               (case read_lines (split_lines [] c) of
                  Inl e \<Rightarrow> (Inl e, tick (tick d))
                | Inr envs \<Rightarrow>
                    (case f_read F (calls (tick d)) of
                       Some e \<Rightarrow> (Inl e, tick (tick d)) | None \<Rightarrow> (Inr envs, tick (tick d))))))"

definition genesisTip :: Tip where
  "genesisTip = \<lparr>TipLastSeq = 0, TipPriorTip = genesisPriorHash, Fresh = True\<rparr>"

definition parseValidTip :: "string \<Rightarrow> ChainEnvelope result" where
  "parseValidTip line =
     (case unmarshal_envelope line of
        None \<Rightarrow> Inl [Dynamic ''tail is not a ChainEnvelope'']
      | Some env \<Rightarrow>
          if Sequence env = 0 then Inl [Dynamic ''tail sequence is 0'']
          else (case computeHash (PriorHash env) (Sequence env) (Event env) of
                  Inl e \<Rightarrow> Inl e
                | Inr want \<Rightarrow> if want \<noteq> Hash env then Inl [Dynamic ''tail hash mismatch''] else Inr env))"

fun lastNonEmptyLine :: "string option \<Rightarrow> string list \<Rightarrow> string option result" where
  "lastNonEmptyLine found [] = Inr found"
| "lastNonEmptyLine found (l # ls) =
     (if maxEnvelopeLine \<le> length l then Inl [Dynamic ''token too long'']
      else lastNonEmptyLine (if drop_cr l = [] then found else Some (drop_cr l)) ls)"

definition ReadTip :: "faults \<Rightarrow> string \<Rightarrow> disk \<Rightarrow> Tip result \<times> disk" where
  "ReadTip F path d =
     (case f_open F (calls d) of
        Some e \<Rightarrow> (Inl e, tick d)
      | None \<Rightarrow>
          (case files d path of
             None \<Rightarrow> (Inr genesisTip, tick d)
           | Some c \<Rightarrow>
               (case (lastNonEmptyLine None (split_lines [] c), f_read F (calls (tick d))) of
                  (Inl e, _) \<Rightarrow> (Inl e, tick (tick d))
                | (_, Some e) \<Rightarrow> (Inl e, tick (tick d))
                | (Inr None, None) \<Rightarrow> (Inr genesisTip, tick (tick d))
                | (Inr (Some line), None) \<Rightarrow>
                    (case parseValidTip line of
                       Inl e \<Rightarrow> (Inl [ErrTipDecoupled], tick (tick d))
                     | Inr env \<Rightarrow>
                         (Inr \<lparr>TipLastSeq = Sequence env, TipPriorTip = Hash env, Fresh = False\<rparr>,
                          tick (tick d))))))"

subsection \<open>A line reads back as its envelope\<close>

definition fits :: "ChainEnvelope \<Rightarrow> bool" where
  "fits env =
     (case marshal_envelope env of None \<Rightarrow> False
      | Some line \<Rightarrow> unmarshal_envelope line = Some env \<and> newline \<notin> set line \<and>
          length line < maxEnvelopeLine \<and> drop_cr line = line \<and> line \<noteq> [])"

text \<open>Printed values hold no newline.\<close>

lemma newline_neq [simp]: "newline \<noteq> dquote" "newline \<noteq> backslash"
  by (simp_all add: newline_def quote_bytes)

lemma byte_newline [simp]: "byte newline = 10"
  by (simp add: newline_def)

lemma newline_byte: "c = newline \<longleftrightarrow> byte c = 10" "newline = c \<longleftrightarrow> byte c = 10"
  by (simp_all add: newline_def char_byte_eq)

lemma hex_digit_no_newline: "n < 16 \<Longrightarrow> hex_digit n \<noteq> newline"
  by (auto simp: hex_digit_def newline_byte)

lemma escape_ascii_no_newline: "newline \<notin> set (escape_ascii c)"
  by (auto simp: escape_ascii_def hex_byte_def newline_byte hex_digit_def)

lemma cont_no_newline: "list_all is_cont p \<Longrightarrow> newline \<notin> set p"
  by (auto simp: list_all_iff is_cont_def)

lemma escape_rune_no_newline:
  assumes "s \<noteq> []"
  shows "newline \<notin> set (fst (escape_rune s))"
proof -
  obtain c s' where s: "s = c # s'" using assms by (cases s) auto
  have tail: "newline \<notin> set (tl (take (utf8_len s) s))" by (rule cont_no_newline [OF utf8_tail_conts])
  have "newline \<notin> set (take (utf8_len s) s)" if "\<not> byte c < 128"
    using tail that by (cases "utf8_len s") (auto simp: s newline_byte)
  moreover have "hex_digit (byte (s ! 2) mod 16) \<noteq> newline" by (rule hex_digit_no_newline) simp
  ultimately show ?thesis
    using escape_ascii_no_newline [of c]
    by (auto simp: escape_rune_def Let_def s newline_byte simp del: take_Suc_Cons)
qed

lemma escape_no_newline: "newline \<notin> set (json_escape s)"
proof (induction s rule: json_escape.induct)
  case (1 s)
  then show ?case
    using escape_rune_no_newline [of s]
    by (cases "s = []") (simp_all add: json_escape.simps [of s] json_escape.simps [of "[]"])
qed

lemma quote_no_newline [simp]: "newline \<notin> set (json_quote s)"
  using escape_no_newline [of s] by (simp add: json_quote_def)

lemma commas_no_newline: "(\<And>t. t \<in> set ts \<Longrightarrow> newline \<notin> set t) \<Longrightarrow> newline \<notin> set (commas ts)"
  by (induction ts rule: commas.induct) (auto simp: newline_byte)

lemma obj_no_newline: "(\<And>k t. (k, t) \<in> set ms \<Longrightarrow> newline \<notin> set t) \<Longrightarrow> newline \<notin> set (print_obj ms)"
proof -
  assume ms: "\<And>k t. (k, t) \<in> set ms \<Longrightarrow> newline \<notin> set t"
  have "newline \<notin> set (commas (map (\<lambda>(k, t). json_quote k @ CHR '':'' # t) ms))"
    by (rule commas_no_newline) (auto dest: ms simp: newline_byte)
  then show ?thesis by (simp add: print_obj_def newline_byte)
qed

lemma number_no_newline: "list_all number_char l \<Longrightarrow> newline \<notin> set l"
  by (auto simp: list_all_iff number_char_def is_digit_def newline_byte)

lemma print_no_newline: "json_ok v \<Longrightarrow> newline \<notin> set (json_print v)"
proof (induction v rule: json_print.induct)
  case (3 l)
  then show ?case using number_no_newline [OF number_chars [of l l "[]"]] by simp
next
  case (5 vs)
  then have "newline \<notin> set (commas (map json_print vs))"
    by (intro commas_no_newline) (auto simp: list_all_iff)
  then show ?case by (simp add: newline_byte)
next
  case (6 kvs)
  have "newline \<notin> set (json_print v)" if "(k, v) \<in> set kvs" for k v
    using "6.IH" [OF that refl] "6.prems" that by (auto simp: list_all_iff)
  then show ?case by (auto intro!: obj_no_newline)
qed (auto simp: newline_byte)

text \<open>Strings of plain characters are quoted as they are.\<close>

definition plain_char :: "char \<Rightarrow> bool" where
  "plain_char c \<longleftrightarrow> 32 \<le> byte c \<and> byte c < 128 \<and> c \<notin> {dquote, backslash, CHR ''<'', CHR ''>'', CHR ''&''}"

lemma escape_plain: "list_all plain_char s \<Longrightarrow> json_escape s = s"
proof (induction s)
  case (Cons c s)
  then have "escape_rune (c # s) = ([c], 1)"
    by (auto simp: escape_rune_def escape_ascii_def plain_char_def)
  with Cons show ?case by (simp add: json_escape.simps [of "c # s"])
qed (simp add: json_escape.simps)

lemma plain_utf8: "list_all plain_char s \<Longrightarrow> valid_utf8 s"
  by (rule ascii_utf8) (auto simp: list_all_iff plain_char_def)

lemma digest_hex_plain: "digest_hex h \<Longrightarrow> list_all plain_char h \<and> length h = 64"
proof -
  assume "digest_hex h"
  then obtain d where d: "hex_encode d = h" "length d = 32" by (auto simp: digest_hex_def split: option.splits)
  have "plain_char (hex_digit n)" if "n < 16" for n
    using that by (auto simp: plain_char_def hex_digit_def quote_bytes char_byte_eq)
  then have "list_all plain_char (hex_encode d)"
    by (auto simp: list_all_iff hex_encode_def hex_byte_def)
  then show ?thesis using d length_hex_encode [of d] by simp
qed

lemma length_dec: "n < 10 ^ Suc k \<Longrightarrow> length (dec n) \<le> Suc k"
proof (induction k arbitrary: n)
  case 0
  then show ?case by (simp add: dec.simps [of n])
next
  case (Suc k)
  show ?case
  proof (cases "n < 10")
    case True
    then show ?thesis by (simp add: dec.simps [of n])
  next
    case False
    have "n div 10 < 10 ^ Suc k" using Suc.prems by (simp add: less_mult_imp_div_less)
    then show ?thesis using Suc.IH False by (simp add: dec.simps [of n])
  qed
qed

text \<open>Every envelope a sink builds around an event of its own fits, unless the event is huge.\<close>

text \<open>How long a printed tree can get: an escape takes at most six bytes for one.\<close>

fun json_bound :: "json \<Rightarrow> nat" where
  "json_bound JNull = 4"
| "json_bound (JBool b) = 5"
| "json_bound (JNum l) = length l"
| "json_bound (JStr s) = 6 * length s + 2"
| "json_bound (JArr vs) = 2 + sum_list (map (\<lambda>v. 1 + json_bound v) vs)"
| "json_bound (JObj kvs) = 2 + sum_list (map (\<lambda>(k, v). 6 * length k + 4 + json_bound v) kvs)"

lemma length_rune: "s \<noteq> [] \<Longrightarrow> length (fst (escape_rune s)) \<le> 6 * min (snd (escape_rune s)) (length s)"
  by (cases s) (auto simp: escape_rune_def Let_def escape_ascii_def hex_byte_def min_def dest: line_sep_len split: if_splits)

lemma length_escape: "length (json_escape s) \<le> 6 * length s"
proof (induction s rule: json_escape.induct)
  case (1 s)
  show ?case
  proof (cases "s = []")
    case False
    with 1 length_rune [OF False] show ?thesis by (subst json_escape.simps) auto
  qed (simp add: json_escape.simps)
qed

lemma length_commas: "length (commas ts) \<le> sum_list (map (\<lambda>t. length t + 1) ts)"
  by (induction ts rule: commas.induct) auto

lemma length_commas_le:
  assumes "\<And>x. x \<in> set xs \<Longrightarrow> length (f x) + 1 \<le> g x"
  shows "length (commas (map f xs)) \<le> sum_list (map g xs)"
proof -
  have "sum_list (map (\<lambda>t. length t + 1) (map f xs)) \<le> sum_list (map g xs)"
    using assms by (simp add: comp_def sum_list_mono)
  then show ?thesis using length_commas [of "map f xs"] by linarith
qed

lemma length_print: "length (json_print j) \<le> json_bound j"
proof (induction j rule: json_print.induct)
  case (4 s)
  show ?case using length_escape [of s] by (simp add: json_quote_def)
next
  case (5 vs)
  then have "length (commas (map json_print vs)) \<le> sum_list (map (\<lambda>v. 1 + json_bound v) vs)"
    by (intro length_commas_le) simp
  then show ?case by simp
next
  case (6 kvs)
  have "length (commas (map (\<lambda>(k, v). json_quote k @ CHR '':'' # json_print v) kvs))
      \<le> sum_list (map (\<lambda>(k, v). 6 * length k + 4 + json_bound v) kvs)"
    by (rule length_commas_le) (use 6 length_escape in \<open>fastforce simp: json_quote_def intro: add_mono\<close>)
  then show ?case by (simp add: print_obj_def comp_def case_prod_unfold)
qed auto

definition maxEventLen :: nat where "maxEventLen = maxEnvelopeLine - 512"

lemma envelope_fits:
  assumes "Event env = canonicalize ev" and "list_all plain_char (EnvSource env)"
    and "length (EnvSource env) \<le> 64" and "digest_hex (PriorHash env)" and "digest_hex (Hash env)"
    and "length (Event env) < maxEventLen"
  shows "fits env"
proof -
  let ?q = "dec (unat (Sequence env))"
  define ms where "ms =
    [(''source'', json_quote (EnvSource env), JStr (EnvSource env)), (''sequence'', ?q, JNum ?q),
     (''prior_hash'', json_quote (PriorHash env), JStr (PriorHash env)),
     (''hash'', json_quote (Hash env), JStr (Hash env)),
     (''event'', Event env, json_norm (OCSFEvent_json ev))]"
  define line where "line = print_obj (map (\<lambda>(k, t, v). (k, t)) ms)"
  note hex = digest_hex_plain [OF assms(4)] digest_hex_plain [OF assms(5)]
  have str: "reads (json_quote s) (JStr s)" if "list_all plain_char s" for s
    using reads_quote [of s] utf8_fix_valid [OF plain_utf8 [OF that]] by simp
  have ev: "reads (Event env) (json_norm (OCSFEvent_json ev))"
    unfolding assms(1) canonicalize_def by (rule reads_print [OF json_ok_event])
  have marshal: "marshal_envelope env = Some line"
    by (simp add: marshal_envelope_def assms(1) canonical_compact line_def ms_def)
  have "struct_members line = Some ms"
    unfolding line_def
    by (rule struct_members_obj)
      (use str [OF assms(2)] str hex ev reads_num [OF dec_number] in \<open>auto simp: ms_def ascii_utf8\<close>)
  then have unmarshal: "unmarshal_envelope line = Some env"
    using u64_bound [of "Sequence env"]
    by (simp add: unmarshal_envelope_def decode_struct_def ms_def envelope_field_def zeroEnvelope_def)
  have "newline \<notin> set (Event env)"
    unfolding assms(1) canonicalize_def by (rule print_no_newline [OF json_ok_event])
  then have nl: "newline \<notin> set line"
    unfolding line_def using number_no_newline [OF number_chars [OF dec_number]]
    by (intro obj_no_newline) (auto simp: ms_def)
  have "length ?q \<le> Suc 19" using u64_bound [of "Sequence env"] by (intro length_dec) simp
  moreover have "json_escape ''source'' = ''source''" "json_escape ''sequence'' = ''sequence''"
      "json_escape ''prior_hash'' = ''prior_hash''" "json_escape ''hash'' = ''hash''" "json_escape ''event'' = ''event''"
    by (simp_all add: escape_plain plain_char_def quote_bytes)
  ultimately have "length line < maxEnvelopeLine"
    using assms(3,6) hex
    by (simp add: line_def ms_def print_obj_def json_quote_def escape_plain assms(2) maxEventLen_def maxEnvelopeLine_def)
  moreover have "drop_cr line = line" "line \<noteq> []"
    by (simp_all add: drop_cr_def line_def print_obj_def)
  ultimately show ?thesis using marshal unmarshal nl by (simp add: fits_def)
qed

subsection \<open>A file holds what was written\<close>

text \<open>The text of a list of envelopes, and that it reads back.\<close>

definition lines_of :: "ChainEnvelope list \<Rightarrow> string" where
  "lines_of envs = concat (map (\<lambda>env. the (marshal_envelope env) @ [newline]) envs)"

lemma split_line: "newline \<notin> set l \<Longrightarrow> split_lines acc (l @ newline # s) = (rev acc @ l) # split_lines [] s"
  by (induction l arbitrary: acc) auto

lemma read_lines_of:
  "list_all fits envs \<Longrightarrow> read_lines (split_lines [] (lines_of envs)) = Inr envs"
proof (induction envs)
  case (Cons env envs)
  then obtain line where "marshal_envelope env = Some line" "unmarshal_envelope line = Some env"
      "newline \<notin> set line" "length line < maxEnvelopeLine" "drop_cr line = line" "line \<noteq> []"
    by (auto simp: fits_def split: option.splits)
  with Cons show ?case by (simp add: lines_of_def split_line)
qed (simp add: lines_of_def)

text \<open>What a file holds, as far as it reads.\<close>

definition envelopes_at :: "string \<Rightarrow> disk \<Rightarrow> ChainEnvelope list" where
  "envelopes_at p d = (case read_lines (split_lines [] (content p d)) of Inr envs \<Rightarrow> envs | Inl e \<Rightarrow> [])"

definition holds_lines :: "string \<Rightarrow> disk \<Rightarrow> bool" where
  "holds_lines p d \<longleftrightarrow> list_all fits (envelopes_at p d) \<and> content p d = lines_of (envelopes_at p d)"

lemma holds_linesI: "list_all fits envs \<Longrightarrow> content p d = lines_of envs \<Longrightarrow> holds_lines p d \<and> envelopes_at p d = envs"
  by (simp add: holds_lines_def envelopes_at_def read_lines_of)

lemma disk_simps [simp]:
  "files (tick d) = files d" "calls (tick d) = calls d + 1" "past (tick d) = past d"
  "files (set_file p c d) = (files d)(p := c)" "calls (set_file p c d) = calls d"
  "content p (tick d) = content p d" "content p (set_file p (Some t) d) = t"
  "p \<noteq> q \<Longrightarrow> content p (set_file q c d) = content p d"
  by (simp_all add: tick_def set_file_def content_def)

lemma lines_of_snoc: "lines_of (envs @ [env]) = lines_of envs @ the (marshal_envelope env) @ [newline]"
  by (simp add: lines_of_def)

text \<open>No failing append or synchronisation leaves bytes behind.\<close>

definition traceless :: "faults \<Rightarrow> bool" where
  "traceless F \<longleftrightarrow> (\<forall>k. f_sync F k = None) \<and> (\<forall>k. f_write F k = WriteAll None \<or> (\<exists>e. f_write F k = WritePart 0 e))"

lemma append_traceless:
  assumes "traceless F" and "line \<noteq> []" and "append_line F p line d = (r, d')"
  shows "content p d' = (if r = None then content p d @ line else content p d)"
    and "q \<noteq> p \<Longrightarrow> content q d' = content q d"
proof -
  consider "f_write F (calls d) = WriteAll None" | e where "f_write F (calls d) = WritePart 0 e"
    using assms(1) unfolding traceless_def by blast
  then have "content p d' = (if r = None then content p d @ line else content p d) \<and>
      (q \<noteq> p \<longrightarrow> content q d' = content q d)"
    using assms by cases (auto simp: append_line_def traceless_def Let_def split: option.splits)
  then show "content p d' = (if r = None then content p d @ line else content p d)"
    and "q \<noteq> p \<Longrightarrow> content q d' = content q d" by auto
qed

definition file_ok :: "faults \<Rightarrow> FileSink \<times> disk \<Rightarrow> bool" where
  "file_ok F = (\<lambda>(s, d). traceless F \<and> holds_lines (fs_path s) d)"

definition file_written :: "FileSink \<times> disk \<Rightarrow> ChainEnvelope list" where
  "file_written = (\<lambda>(s, d). envelopes_at (fs_path s) d)"

lemma file_write_cases:
  assumes "FileSink_Write F c env (s, d) = (r, w')"
  obtains (early) e where "r = Some e" "w' = (s, d)"
    | (append) line d' where "marshal_envelope env = Some line"
        "append_line F (fs_path s) (line @ [newline]) d = (r, d')" "w' = (s, d')"
  using assms by (auto simp: FileSink_Write_def split: if_splits option.splits prod.splits)

interpretation fsink: durable_writer "FileSink_Write F" file_written "file_ok F" fits
  for F
proof unfold_locales
  fix w w' :: "FileSink \<times> disk" and env c
  assume ok: "file_ok F w" and fit: "fits env" and wr: "FileSink_Write F c env w = (None, w')"
  obtain s d where w: "w = (s, d)" by (cases w)
  have h: "traceless F" "list_all fits (envelopes_at (fs_path s) d)"
      "content (fs_path s) d = lines_of (envelopes_at (fs_path s) d)"
    using ok by (auto simp: w file_ok_def holds_lines_def)
  from file_write_cases [OF wr [unfolded w]] obtain line d' where
    l: "marshal_envelope env = Some line" "append_line F (fs_path s) (line @ [newline]) d = (None, d')" "w' = (s, d')"
    by cases auto
  have "content (fs_path s) d' = lines_of (envelopes_at (fs_path s) d @ [env])"
    using append_traceless(1) [OF h(1) _ l(2)] h(3) l(1) by (simp add: lines_of_snoc)
  then show "file_ok F w' \<and> file_written w' = file_written w @ [env]"
    using holds_linesI [of "envelopes_at (fs_path s) d @ [env]" "fs_path s" d'] h(1,2) fit
    by (simp add: w l(3) file_ok_def file_written_def)
next
  fix w w' :: "FileSink \<times> disk" and env c e
  assume ok: "file_ok F w" and wr: "FileSink_Write F c env w = (Some e, w')"
  obtain s d where w: "w = (s, d)" by (cases w)
  from file_write_cases [OF wr [unfolded w]]
  show "file_ok F w' \<and> file_written w' = file_written w"
  proof cases
    case (1 e')
    then show ?thesis using ok by (simp add: w)
  next
    case (2 line d')
    have "content (fs_path s) d' = content (fs_path s) d"
      using append_traceless(1) [OF _ _ 2(2)] ok by (simp add: w file_ok_def)
    then show ?thesis using ok by (simp add: w 2(3) file_ok_def file_written_def holds_lines_def envelopes_at_def)
  qed
qed

subsection \<open>Resuming\<close>

lemma last_line_read:
  "read_lines ls = Inr envs \<Longrightarrow>
     \<exists>l. lastNonEmptyLine found ls = Inr l \<and>
         (if envs = [] then l = found else \<exists>line. l = Some line \<and> unmarshal_envelope line = Some (last envs))"
proof (induction ls arbitrary: found envs)
  case (Cons l ls)
  then have short: "\<not> maxEnvelopeLine \<le> length l" by (auto split: if_splits)
  show ?case
  proof (cases "drop_cr l = []")
    case True
    with Cons short show ?thesis by auto
  next
    case False
    with Cons.prems short obtain env envs' where
      r: "unmarshal_envelope (drop_cr l) = Some env" "read_lines ls = Inr envs'" "envs = env # envs'"
      by (auto split: option.splits sum.splits)
    from Cons.IH [OF r(2), of "Some (drop_cr l)"] r(1,3) short False show ?thesis by auto
  qed
qed simp

text \<open>The anchor of a chain.\<close>

definition chain_tip :: "ChainEnvelope list \<Rightarrow> Tip" where
  "chain_tip envs =
     (if envs = [] then genesisTip
      else \<lparr>TipLastSeq = Sequence (last envs), TipPriorTip = Hash (last envs), Fresh = False\<rparr>)"

definition readable :: "faults \<Rightarrow> bool" where
  "readable F \<longleftrightarrow> (\<forall>k. f_open F k = None \<and> f_read F k = None)"

lemma read_chain_holds:
  assumes "holds_lines p d" and "readable F"
  shows "fst (ReadChainFile F p d) = Inr (envelopes_at p d)"
proof -
  have *: "read_lines (split_lines [] (lines_of (envelopes_at p d))) = Inr (envelopes_at p d)"
    using assms(1) by (simp add: holds_lines_def read_lines_of)
  show ?thesis
  proof (cases "files d p")
    case None
    then show ?thesis using assms(2) by (simp add: ReadChainFile_def readable_def envelopes_at_def content_def)
  next
    case (Some c)
    then have "c = lines_of (envelopes_at p d)" using assms(1) by (simp add: holds_lines_def content_def)
    then show ?thesis using assms(2) * Some by (simp add: ReadChainFile_def readable_def)
  qed
qed

lemma last_validated:
  assumes "ValidateChain envs = None" and "envs \<noteq> []"
  shows "computeHash (PriorHash (last envs)) (Sequence (last envs)) (Event (last envs)) = Inr (Hash (last envs))"
    and "Sequence (last envs) = of_nat (length envs)"
proof -
  obtain xs e where [simp]: "envs = xs @ [e]" using assms(2) by (cases envs rule: rev_cases) auto
  have "check_envelope (length xs) (tip_hash xs) (tip_seq xs) e = None"
    using assms(1) by (simp add: ValidateChain_snoc)
  from this [unfolded check_envelope_None, THEN conjunct2, THEN conjunct2]
  show "computeHash (PriorHash (last envs)) (Sequence (last envs)) (Event (last envs)) = Inr (Hash (last envs))"
    by simp
  show "Sequence (last envs) = of_nat (length envs)"
    using chain_tip_seq [OF assms(1)] assms(2) by (simp add: tip_seq_def)
qed

lemma read_tip_valid:
  assumes "files d p = Some t" and "read_lines (split_lines [] t) = Inr envs" and "ValidateChain envs = None"
    and "length envs < 2 ^ 64"
  shows "ReadTip F p d =
    (case f_open F (calls d) of Some e \<Rightarrow> (Inl e, tick d)
     | None \<Rightarrow>
         (case f_read F (calls d + 1) of Some e \<Rightarrow> (Inl e, tick (tick d)) | None \<Rightarrow> (Inr (chain_tip envs), tick (tick d))))"
proof (cases "envs = []")
  case True
  then show ?thesis
    using assms(1) last_line_read [OF assms(2), of None] by (auto simp: ReadTip_def chain_tip_def split: option.splits)
next
  case False
  then obtain line where line: "lastNonEmptyLine None (split_lines [] t) = Inr (Some line)"
      "unmarshal_envelope line = Some (last envs)"
    using last_line_read [OF assms(2), of None] by auto
  have "(of_nat (length envs) :: u64) \<noteq> 0"
    using assms(4) False by (simp add: word_of_nat_eq_0_iff nat_dvd_not_less)
  then have "Sequence (last envs) \<noteq> 0" using last_validated(2) [OF assms(3) False] by simp
  then have "parseValidTip line = Inr (last envs)"
    using last_validated(1) [OF assms(3) False] line by (simp add: parseValidTip_def)
  then show ?thesis
    using assms(1) line False by (auto simp: ReadTip_def chain_tip_def split: option.splits)
qed

lemma read_tip_holds:
  assumes "holds_lines p d" and "readable F" and "ValidateChain (envelopes_at p d) = None"
    and "length (envelopes_at p d) < 2 ^ 64"
  shows "fst (ReadTip F p d) = Inr (chain_tip (envelopes_at p d))"
proof (cases "files d p")
  case None
  then have "envelopes_at p d = []" by (simp add: envelopes_at_def content_def)
  then show ?thesis using None assms(2) by (simp add: ReadTip_def readable_def chain_tip_def)
next
  case (Some t)
  then have "read_lines (split_lines [] t) = Inr (envelopes_at p d)"
    using assms(1) by (auto simp: holds_lines_def content_def read_lines_of)
  from read_tip_valid [OF Some this assms(3,4), of F] assms(2) show ?thesis by (simp add: readable_def)
qed

lemma resume_at_tip:
  assumes "lastSeq s = tip_seq envs" and "priorTip s = tip_hash envs" and "sk_source s = src"
  shows "ResumeChainSink src (chain_tip envs) = (s :: ChainSink)"
  using assms by (cases "envs = []")
    (auto simp: ResumeChainSink_def chain_tip_def genesisTip_def tip_seq_def tip_hash_def intro!: ChainSink.equality)

text \<open>The run leaves the open file alone, and acknowledges at most one event per call.\<close>

lemma commit_sink:
  "commitLocked (FileSink_Write F) c ev p (s, fs, d) = (r, s', fs', d') \<Longrightarrow> fs' = fs"
  by (auto simp: commitLocked_def FileSink_Write_def Let_def split: sum.splits option.splits if_splits prod.splits)

lemma step_sink: "sink_step (FileSink_Write F) call (s, fs, d) = (r, s', fs', d') \<Longrightarrow> fs' = fs"
  by (cases call) (auto simp: ChainSink_Emit_def ChainSink_EmitChainBreak_def ChainSink_EmitAuthn_def
      dest: commit_sink split: if_splits)

lemma file_run_sink: "sink_run (FileSink_Write F) cs (s, fs, d) = (s', fs', d') \<Longrightarrow> fs' = fs"
proof (induction cs arbitrary: s fs d)
  case (Cons call cs)
  obtain r s1 fs1 d1 where st: "sink_step (FileSink_Write F) call (s, fs, d) = (r, s1, fs1, d1)"
    by (cases "sink_step (FileSink_Write F) call (s, fs, d)") auto
  with Cons show ?case using step_sink [OF st] by simp
qed simp

lemma accepted_length: "length (accepted_events Write cs sw) \<le> length cs"
  by (induction cs arbitrary: sw) (auto split: prod.splits intro: le_SucI)

lemma call_event_canonical: "\<exists>ev. call_event call = canonicalize ev"
  by (cases call) (auto simp: call_event_def)

lemma event_fits_call:
  assumes "length (call_event call) < maxEventLen"
  shows "fsink.event_fits ''control'' (call_event call)"
proof -
  obtain ev where ev: "call_event call = canonicalize ev" using call_event_canonical by blast
  have src: "list_all plain_char ''control''" by (simp add: plain_char_def quote_bytes)
  show ?thesis
    unfolding fsink.event_fits_def using assms ev src by (auto intro!: envelope_fits [of _ ev])
qed

text \<open>
  C6: the audit file refines an append-only list of events. Take any sequence of fewer than two to the
  sixty-fourth calls on a sink over a new file, each with an event under 1 MiB less 512 bytes of text,
  with any pattern of clean refusals. Read afterwards, the file holds exactly the events
  of the calls that returned nil, in order, under the sink's source; and unless one of their digests
  is the all-zero hash, those envelopes validate as one chain, and a sink resumed from the file is
  the very sink that wrote it, so that a restart cannot be told from none.
\<close>

theorem audit_file_refines_log:
  assumes "traceless F" and "readable F" and "content p d = ''''"
    and "\<And>call. call \<in> set cs \<Longrightarrow> length (call_event call) < maxEventLen" and "length cs < 2 ^ 64"
    and "sink_run (FileSink_Write F) cs (NewChainSink ''control'', \<lparr>fs_path = p, fs_closed = False\<rparr>, d) = (s', fs', d')"
  shows "\<exists>envs. fst (ReadChainFile F p d') = Inr envs \<and>
    map Event envs = accepted_events (FileSink_Write F) cs (NewChainSink ''control'', \<lparr>fs_path = p, fs_closed = False\<rparr>, d) \<and>
    ((\<exists>env\<in>set envs. Hash env = genesisPriorHash) \<or>
     ValidateChain envs = None \<and>
     (\<exists>tip. fst (ReadTip F p d') = Inr tip \<and> ResumeChainSink ''control'' tip = s'))"
proof -
  let ?fs = "\<lparr>fs_path = p, fs_closed = False\<rparr>" and ?s = "NewChainSink ''control''"
  have "envelopes_at p d = []" "holds_lines p d"
    using holds_linesI [of "[]" p d] assms(3) by (simp_all add: lines_of_def)
  then have start: "fsink.at_tip F ?s (?fs, d)"
    unfolding fsink.at_tip_def using assms(1) by (simp add: file_ok_def file_written_def NewChainSink_def)
  have fit: "fsink.event_fits (sk_source ?s) (call_event call)" if "call \<in> set cs" for call
    using event_fits_call [OF assms(4) [OF that]] by (simp add: NewChainSink_def)
  from file_run_sink [OF assms(6)] have fs: "fs' = ?fs" by simp
  obtain envs where envs: "fsink.sound F s' (fs', d')" "sk_source s' = ''control''" "file_written (fs', d') = envs"
      "map Event envs = accepted_events (FileSink_Write F) cs (?s, ?fs, d)"
    using fsink.run_grows [OF fsink.at_tip_sound [OF start] fit assms(6)] \<open>envelopes_at p d = []\<close>
    by (auto simp: file_written_def NewChainSink_def)
  have hold: "holds_lines p d'" "envelopes_at p d' = envs"
    using envs(1,3) fs unfolding fsink.sound_def by (simp_all add: file_ok_def file_written_def)
  have len: "length envs < 2 ^ 64"
    using accepted_length [of "FileSink_Write F" cs "(?s, ?fs, d)"] envs(4) assms(5)
    by (metis length_map le_less_trans)
  have "ValidateChain envs = None \<and> (\<exists>tip. fst (ReadTip F p d') = Inr tip \<and> ResumeChainSink ''control'' tip = s')"
    if "\<forall>env\<in>set envs. Hash env \<noteq> genesisPriorHash"
  proof -
    have "fsink.at_tip F s' (fs', d')"
      using fsink.run_at_tip [OF start fit assms(6)] that envs(3) by blast
    then have tip: "ValidateChain envs = None" "lastSeq s' = tip_seq envs" "priorTip s' = tip_hash envs"
      unfolding fsink.at_tip_def using envs(3) by auto
    show ?thesis
      using tip(1) read_tip_holds [OF hold(1) assms(2)] hold(2) len resume_at_tip [OF tip(2,3) envs(2)] by simp
  qed
  then show ?thesis using read_chain_holds [OF hold(1) assms(2)] hold(2) envs(4) by blast
qed

text \<open>A run with one refused write between two accepted ones.\<close>

definition full_disk_once :: faults where
  "full_disk_once = \<lparr>f_write = (\<lambda>k. if k = 2 then WritePart 0 (Some [Dynamic ''no space'']) else WriteAll None),
     f_sync = (\<lambda>k. None), f_open = (\<lambda>k. None), f_read = (\<lambda>k. None), f_meta = (\<lambda>k. None),
     f_join = (\<lambda>a b. a @ ''/'' @ b)\<rparr>"

definition empty_disk :: disk where
  "empty_disk = \<lparr>files = (\<lambda>p. None), calls = 0, past = []\<rparr>"

definition demo_logon :: AuthnRecord where
  "demo_logon = \<lparr>AnActivity = 1, AnOutcome = AuthnFailure, AnCaller = ''alice'', AnTenant = ''acme'',
     AnChannel = ''gateway'', AnProtocol = ''mtls-x509'', CertSAN = '''', ConnID = ''c1'', SessionKey = '''',
     FailureDetail = ''unknown subject''\<rparr>"

lemmas dec_numeral = dec.simps [of "numeral w"] dec.simps [of 0] dec.simps [of "Suc 0"] for w

lemma demo_date: "length (format_date 0) = 10"
  by (simp add: format_date_def year_yday_def month_lengths_def pad_def dec_numeral)

lemmas demo_defs = event_json_defs buildChainBreakEvent_def buildAuthnEvent_def demo_logon_def Let_def jnat_def jint_def
  UnixMilli_def RFC3339Nano_def nanosPerSecond_def demo_date pad_def strip_zeros_def wrap64_def dec_numeral
  classUIDAPIActivity_def categoryUIDApplicationActivity_def classUIDAuthentication_def categoryUIDIdentityAndAccess_def
  activityOther_def chainBreakActionLabel_def statusSuccess_def statusFailure_def statusName_def severityHigh_def
  severityInformational_def productName_def schemaVersion_def ChainBreakUnreadable_def authnActivityName_def
  AuthnLogon_def AuthnTicket_def logonTypeID_def AuthnProtocolPeerCred_def maxEventLen_def maxEnvelopeLine_def

lemma demo_lengths:
  "length (call_event (CallBreak False 5 '''')) < maxEventLen"
  "length (call_event (CallAuthn False 6 demo_logon)) < maxEventLen"
proof -
  have "json_bound (OCSFEvent_json (buildChainBreakEvent 5 '''')) < maxEventLen"
    "json_bound (OCSFEvent_json (buildAuthnEvent 6 demo_logon)) < maxEventLen"
    by (simp_all add: demo_defs)
  then show "length (call_event (CallBreak False 5 '''')) < maxEventLen"
      "length (call_event (CallAuthn False 6 demo_logon)) < maxEventLen"
    using length_print [of "OCSFEvent_json (buildChainBreakEvent 5 '''')"]
      length_print [of "OCSFEvent_json (buildAuthnEvent 6 demo_logon)"]
    by (simp_all add: call_event_def canonicalize_def)
qed

theorem audit_file_refines_log_witness:
  "let cs = [CallBreak False 5 '''', CallAuthn False 6 demo_logon, CallAuthn False 6 demo_logon];
       sw = (NewChainSink ''control'', \<lparr>fs_path = ''audit.jsonl'', fs_closed = False\<rparr>, empty_disk);
       d' = snd (snd (sink_run (FileSink_Write full_disk_once) cs sw)) in
   \<exists>envs. fst (ReadChainFile full_disk_once ''audit.jsonl'' d') = Inr envs \<and>
     map Event envs = accepted_events (FileSink_Write full_disk_once) cs sw"
proof -
  let ?F = full_disk_once and ?d = empty_disk
  let ?cs = "[CallBreak False 5 '''', CallAuthn False 6 demo_logon, CallAuthn False 6 demo_logon]"
  have *: "traceless ?F" "readable ?F" "content ''audit.jsonl'' ?d = ''''" "length ?cs < 2 ^ 64"
    by (simp_all add: full_disk_once_def empty_disk_def traceless_def readable_def content_def)
  have len: "length (call_event call) < maxEventLen" if "call \<in> set ?cs" for call
    using that demo_lengths by auto
  obtain s' fs' d' where run: "sink_run (FileSink_Write ?F) ?cs
      (NewChainSink ''control'', \<lparr>fs_path = ''audit.jsonl'', fs_closed = False\<rparr>, ?d) = (s', fs', d')"
    by (rule prod_cases3)
  from audit_file_refines_log [OF *(1-3) len *(4) run] show ?thesis
    unfolding Let_def run snd_conv by blast
qed

subsection \<open>A write that fails after its line has reached the file\<close>

text \<open>Where the bytes of an append reach the disk whole, its line is in the file whatever the call answers.\<close>

lemma write_line:
  assumes "holds_lines p d" and "fits env" and "f_write F (calls d) = WriteAll None"
  shows "\<exists>d'. FileSink_Write F False env (\<lparr>fs_path = p, fs_closed = False\<rparr>, d) =
      (f_sync F (calls d + 1), \<lparr>fs_path = p, fs_closed = False\<rparr>, d') \<and>
    holds_lines p d' \<and> envelopes_at p d' = envelopes_at p d @ [env] \<and> calls d' = calls d + 2 \<and>
    (\<forall>q. q \<noteq> p \<longrightarrow> files d' q = files d q)"
proof -
  obtain line where line: "marshal_envelope env = Some line"
    using assms(2) by (auto simp: fits_def split: option.splits)
  define d' where "d' = tick (tick (set_file p (Some (content p d @ line @ [newline])) d))"
  have "append_line F p (line @ [newline]) d = (f_sync F (calls d + 1), d')"
    using assms(3) by (simp add: append_line_def d'_def)
  moreover have "content p d' = lines_of (envelopes_at p d @ [env])"
    using assms(1) line by (simp add: d'_def holds_lines_def lines_of_snoc)
  then have "holds_lines p d' \<and> envelopes_at p d' = envelopes_at p d @ [env]"
    using assms(1,2) by (intro holds_linesI) (simp_all add: holds_lines_def)
  moreover have "calls d' = calls d + 2" "\<forall>q. q \<noteq> p \<longrightarrow> files d' q = files d q" by (simp_all add: d'_def)
  ultimately show ?thesis using line by (intro exI [of _ d']) (simp add: FileSink_Write_def)
qed

text \<open>The envelope an emission builds, which fits a line.\<close>

definition emitted :: "ChainSink \<Rightarrow> time \<Rightarrow> Record \<Rightarrow> ChainEnvelope" where
  "emitted s now rec =
     (let ev = canonicalize (buildEvent now rec) in
      \<lparr>EnvSource = sk_source s, Sequence = lastSeq s + 1, PriorHash = priorTip s,
       Hash = (case computeHash (priorTip s) (lastSeq s + 1) ev of Inl e \<Rightarrow> '''' | Inr h \<Rightarrow> h), Event = ev\<rparr>)"

lemma emitted_simps [simp]:
  "Sequence (emitted s now rec) = lastSeq s + 1" "PriorHash (emitted s now rec) = priorTip s"
  "Event (emitted s now rec) = canonicalize (buildEvent now rec)" "EnvSource (emitted s now rec) = sk_source s"
  by (simp_all add: emitted_def Let_def)

lemma emitted_hash:
  assumes "digest_hex (priorTip s)"
  shows "computeHash (priorTip s) (lastSeq s + 1) (canonicalize (buildEvent now rec)) = Inr (Hash (emitted s now rec))"
  using computeHash_total [OF assms, of "lastSeq s + 1" "canonicalize (buildEvent now rec)"]
  by (auto simp: emitted_def Let_def)

lemma emitted_fits:
  assumes "digest_hex (priorTip s)" and "sk_source s = ''control''" and "length (canonicalize (buildEvent now rec)) < maxEventLen"
  shows "fits (emitted s now rec)"
  using event_fits_call [of "CallEmit False now rec"] assms computeHash_digest [OF emitted_hash [OF assms(1)]]
  by (simp add: fsink.event_fits_def call_event_def)

lemma emit_eq:
  assumes "digest_hex (priorTip s)"
  shows "ChainSink_Emit Write False now rec (s, w) =
    (case Write False (emitted s now rec) w of
       (Some e, w') \<Rightarrow> (Some (ErrAuditWriteFailed # e), s, w')
     | (None, w') \<Rightarrow> (None, s\<lparr>lastSeq := lastSeq s + 1, priorTip := Hash (emitted s now rec)\<rparr>, w'))"
proof -
  have eq: "\<lparr>EnvSource = sk_source s, Sequence = lastSeq s + 1, PriorHash = priorTip s, Hash = Hash (emitted s now rec),
      Event = canonicalize (buildEvent now rec)\<rparr> = emitted s now rec"
    by (intro ChainEnvelope.equality) simp_all
  show ?thesis by (simp add: ChainSink_Emit_def commitLocked_def emitted_hash [OF assms] Let_def eq)
qed

text \<open>Through the fan-in writer: a call that fails leaves the sink where it was.\<close>

lemma fanin_emit:
  assumes "holds_lines p d" and "digest_hex (priorTip s)" and "sk_source s = ''control''"
    and "f_write F (calls d) = WriteAll None" and "length (canonicalize (buildEvent now rec)) < maxEventLen"
  shows "\<exists>env d'. ChainSink_Emit (FanInWriter_Write (FileSink_Write F) pub) False now rec
       (s, (\<lparr>fs_path = p, fs_closed = False\<rparr>, d), n) =
       (case f_sync F (calls d + 1) of
          Some e \<Rightarrow> (Some (ErrAuditWriteFailed # e), s, (\<lparr>fs_path = p, fs_closed = False\<rparr>, d'), n)
        | None \<Rightarrow>
            (case pub n (toPublishWire env) of
               Some e \<Rightarrow> (Some (ErrAuditWriteFailed # e), s, (\<lparr>fs_path = p, fs_closed = False\<rparr>, d'), n + 1)
             | None \<Rightarrow> (None, s\<lparr>lastSeq := Sequence env, priorTip := Hash env\<rparr>,
                        (\<lparr>fs_path = p, fs_closed = False\<rparr>, d'), n + 1))) \<and>
     holds_lines p d' \<and> envelopes_at p d' = envelopes_at p d @ [env] \<and> Sequence env = lastSeq s + 1 \<and>
     Event env = canonicalize (buildEvent now rec)"
proof -
  from write_line [OF assms(1) emitted_fits [OF assms(2,3,5)] assms(4)] obtain d' where
    d': "FileSink_Write F False (emitted s now rec) (\<lparr>fs_path = p, fs_closed = False\<rparr>, d) =
      (f_sync F (calls d + 1), \<lparr>fs_path = p, fs_closed = False\<rparr>, d')"
    "holds_lines p d'" "envelopes_at p d' = envelopes_at p d @ [emitted s now rec]" by blast
  show ?thesis
    using d' by (intro exI [of _ "emitted s now rec"] exI [of _ d'])
      (simp add: emit_eq [OF assms(2)] FanInWriter_Write_def split: option.splits)
qed

text \<open>Two neighbours with one number are no chain.\<close>

lemma repeated_sequence:
  assumes "Sequence a = q" and "Sequence b = (q :: u64)"
  shows "ValidateChain (xs @ [a] @ [b]) \<noteq> None"
proof
  assume "ValidateChain (xs @ [a] @ [b]) = None"
  then have "check_envelope (length (xs @ [a])) (tip_hash (xs @ [a])) (tip_seq (xs @ [a])) b = None"
    using ValidateChain_snoc [of "xs @ [a]" b] by simp
  then have "Sequence b = Sequence a + 1" by (simp add: check_envelope_None)
  then show False using assms by simp
qed

text \<open>
  C14: a failed audit write that left its line behind breaks the trail. Take the composite sink of the
  daemon, the local file and the fan-in publisher, resumed at the end of a valid file. One event is
  refused after its line reached the file, because the synchronisation or the publisher failed; the
  next event is accepted; both are under 1 MiB less 512 bytes. The file now holds what it held, then
  the refused event and the accepted one, both under the number after the old tip, and the chain
  check that guards every later boot refuses it.
\<close>

theorem refused_write_breaks_chain:
  assumes "holds_lines p d" and "ValidateChain (envelopes_at p d) = None" and "readable F"
    and "\<And>k. f_write F k = WriteAll None"
    and "length (canonicalize (buildEvent t1 r1)) < maxEventLen" and "length (canonicalize (buildEvent t2 r2)) < maxEventLen"
    and "ChainSink_Emit (FanInWriter_Write (FileSink_Write F) pub) False t1 r1
      (ResumeChainSink ''control'' (chain_tip (envelopes_at p d)), (\<lparr>fs_path = p, fs_closed = False\<rparr>, d), n) = (Some e, sw1)"
    and "ChainSink_Emit (FanInWriter_Write (FileSink_Write F) pub) False t2 r2 sw1 = (None, s2, (fs2, d2), n2)"
  shows "\<exists>a b. fst (ReadChainFile F p d2) = Inr (envelopes_at p d @ [a, b]) \<and>
    Sequence a = tip_seq (envelopes_at p d) + 1 \<and> Sequence b = Sequence a \<and>
    Event a = canonicalize (buildEvent t1 r1) \<and> Event b = canonicalize (buildEvent t2 r2) \<and>
    ValidateChain (envelopes_at p d @ [a, b]) \<noteq> None"
proof -
  let ?s = "ResumeChainSink ''control'' (chain_tip (envelopes_at p d))" and ?fs = "\<lparr>fs_path = p, fs_closed = False\<rparr>"
  have s: "digest_hex (priorTip ?s)" "sk_source ?s = ''control''"
    using tip_digest [OF assms(2)] by (auto simp: ResumeChainSink_def chain_tip_def genesisTip_def tip_hash_def)
  from fanin_emit [OF assms(1) s assms(4,5), of pub n] assms(7) obtain a d1 n1 where
    a: "sw1 = (?s, (?fs, d1), n1)" "holds_lines p d1" "envelopes_at p d1 = envelopes_at p d @ [a]"
      "Sequence a = lastSeq ?s + 1" "Event a = canonicalize (buildEvent t1 r1)"
    by (auto split: option.splits)
  from fanin_emit [OF a(2) s assms(4,6), of pub n1] assms(8) obtain b where
    b: "holds_lines p d2" "envelopes_at p d2 = envelopes_at p d1 @ [b]" "Sequence b = lastSeq ?s + 1"
      "Event b = canonicalize (buildEvent t2 r2)"
    unfolding a(1) by (auto split: option.splits)
  have "lastSeq ?s = tip_seq (envelopes_at p d)"
    by (simp add: ResumeChainSink_def chain_tip_def genesisTip_def tip_seq_def)
  then show ?thesis
    using read_chain_holds [OF b(1) assms(3)] repeated_sequence [OF a(4) b(3), of "envelopes_at p d"] a(4,5) b(3,4)
    by (intro exI [of _ a] exI [of _ b]) (simp add: b(2) a(3))
qed

definition healthy :: faults where
  "healthy = \<lparr>f_write = (\<lambda>k. WriteAll None), f_sync = (\<lambda>k. None), f_open = (\<lambda>k. None), f_read = (\<lambda>k. None),
     f_meta = (\<lambda>k. None), f_join = (\<lambda>a b. a @ ''/'' @ b)\<rparr>"

definition demo_act :: Record where
  "demo_act = \<lparr>RcAction = ActionExec, RcChannel = ''gateway'', RcKey = ''k1'', RcCaller = ''alice'', RcTenant = ''acme'',
     RcReason = '''', RcRevokeOutcome = '''', RcWarmHit = False\<rparr>"

definition pub_once_down :: "nat \<Rightarrow> PublishWire \<Rightarrow> err option" where
  "pub_once_down n w = (if n = 0 then Some [Dynamic ''pipeline unavailable''] else None)"

lemma demo_act_length: "length (canonicalize (buildEvent 5000000000 demo_act)) < maxEventLen"
proof -
  have "json_bound (OCSFEvent_json (buildEvent 5000000000 demo_act)) < maxEventLen"
    by (simp add: demo_defs buildEvent_def demo_act_def classFor_def statusFor_def severityFor_def categoryFor_def
        activityCreate_def)
  then show ?thesis
    using length_print [of "OCSFEvent_json (buildEvent 5000000000 demo_act)"] by (simp add: canonicalize_def)
qed

theorem refused_write_breaks_chain_witness:
  "let W = FanInWriter_Write (FileSink_Write healthy) pub_once_down;
       (r1, sw1) = ChainSink_Emit W False 5000000000 demo_act
         (NewChainSink ''control'', (\<lparr>fs_path = ''a'', fs_closed = False\<rparr>, empty_disk), 0);
       (r2, s2, (fs2, d2), n2) = ChainSink_Emit W False 5000000000 demo_act sw1 in
   r1 \<noteq> None \<and> r2 = None \<and>
   (\<exists>a b. fst (ReadChainFile healthy ''a'' d2) = Inr [a, b] \<and> Sequence a = 1 \<and> Sequence b = 1 \<and> ValidateChain [a, b] \<noteq> None)"
proof -
  let ?W = "FanInWriter_Write (FileSink_Write healthy) pub_once_down" and ?fs = "\<lparr>fs_path = ''a'', fs_closed = False\<rparr>"
  let ?s = "NewChainSink ''control''"
  have e: "holds_lines ''a'' empty_disk" "envelopes_at ''a'' empty_disk = []"
    using holds_linesI [of "[]" "''a''" empty_disk] by (simp_all add: lines_of_def content_def empty_disk_def)
  have s: "digest_hex (priorTip ?s)" "sk_source ?s = ''control''" "?s = ResumeChainSink ''control'' (chain_tip [])"
    by (simp_all add: NewChainSink_def digest_hex_genesis ResumeChainSink_def chain_tip_def genesisTip_def)
  have h: "readable healthy" "\<And>k. f_write healthy k = WriteAll None" "\<And>k. f_sync healthy k = None"
    by (simp_all add: healthy_def readable_def)
  from fanin_emit [OF e(1) s(1,2) h(2) demo_act_length, of pub_once_down 0] obtain d1 where
    1: "ChainSink_Emit ?W False 5000000000 demo_act (?s, (?fs, empty_disk), 0) =
      (Some [ErrAuditWriteFailed, Dynamic ''pipeline unavailable''], ?s, (?fs, d1), 1)" "holds_lines ''a'' d1"
    by (auto simp: h(3) pub_once_down_def)
  from fanin_emit [OF 1(2) s(1,2) h(2) demo_act_length, of pub_once_down 1] obtain s2 d2 where
    2: "ChainSink_Emit ?W False 5000000000 demo_act (?s, (?fs, d1), 1) = (None, s2, (?fs, d2), 2)"
    by (auto simp: h(3) pub_once_down_def)
  from refused_write_breaks_chain [OF e(1) _ h(1,2) demo_act_length demo_act_length, of pub_once_down 0] 1(1) 2
  have "\<exists>a b. fst (ReadChainFile healthy ''a'' d2) = Inr [a, b] \<and> Sequence a = 1 \<and> Sequence b = 1 \<and> ValidateChain [a, b] \<noteq> None"
    by (simp add: e(2) s(3) tip_seq_def) metis
  with 1(1) 2 show ?thesis by simp
qed

subsection \<open>An event too long to be read back\<close>

text \<open>A file only grows.\<close>

lemma append_grows: "append_line F p line d = (r, d') \<Longrightarrow> \<exists>x. content p d' = content p d @ x"
  by (auto simp: append_line_def Let_def split: option.splits if_splits)

lemma write_grows:
  "FileSink_Write F c env (fs, d) = (r, fs', d') \<Longrightarrow> fs' = fs \<and> (\<exists>x. content (fs_path fs) d' = content (fs_path fs) d @ x)"
  by (auto simp: FileSink_Write_def dest: append_grows split: if_splits option.splits prod.splits)

lemma commit_grows:
  assumes "commitLocked (FileSink_Write F) c ev p (s, fs, d) = (r, s', fs', d')"
  shows "\<exists>x. content (fs_path fs) d' = content (fs_path fs) d @ x"
  using assms by (auto simp: commitLocked_def Let_def dest: write_grows split: sum.splits option.splits if_splits prod.splits)

lemma step_file_grows:
  "sink_step (FileSink_Write F) call (s, fs, d) = (r, s', fs', d') \<Longrightarrow> \<exists>x. content (fs_path fs) d' = content (fs_path fs) d @ x"
  by (cases call) (auto simp: ChainSink_Emit_def ChainSink_EmitChainBreak_def ChainSink_EmitAuthn_def
      dest: commit_grows split: if_splits)

lemma run_file_grows:
  "sink_run (FileSink_Write F) cs (s, fs, d) = (s', fs', d') \<Longrightarrow> \<exists>x. content (fs_path fs) d' = content (fs_path fs) d @ x"
proof (induction cs arbitrary: s fs d)
  case (Cons call cs)
  obtain r s1 fs1 d1 where st: "sink_step (FileSink_Write F) call (s, fs, d) = (r, s1, fs1, d1)"
    by (cases "sink_step (FileSink_Write F) call (s, fs, d)") auto
  with Cons.prems have "sink_run (FileSink_Write F) cs (s1, fs, d1) = (s', fs', d')" using step_sink [OF st] by simp
  from Cons.IH [OF this] step_file_grows [OF st] show ?case by auto
qed simp

text \<open>A line past the limit ends every scan of the file, wherever it stands.\<close>

lemma split_long:
  assumes "newline \<notin> set l"
  shows "\<exists>m \<in> set (split_lines acc (a @ l @ newline # b)). length l \<le> length m"
  using assms by (induction a arbitrary: acc) (auto simp: split_line)

lemma read_lines_long: "m \<in> set ls \<Longrightarrow> maxEnvelopeLine \<le> length m \<Longrightarrow> isl (read_lines ls)"
  by (induction ls) (auto split: option.split sum.split)

lemma last_line_long: "m \<in> set ls \<Longrightarrow> maxEnvelopeLine \<le> length m \<Longrightarrow> isl (lastNonEmptyLine found ls)"
  by (induction ls arbitrary: found) auto

lemma long_unreadable:
  assumes "content p d = a @ l @ newline # b" and "newline \<notin> set l" and "maxEnvelopeLine \<le> length l"
  shows "isl (fst (ReadTip F p d))" and "isl (fst (ReadChainFile F p d))"
proof -
  from split_long [OF assms(2), of "[]" a b] obtain m where
    m: "m \<in> set (split_lines [] (content p d))" "maxEnvelopeLine \<le> length m" using assms(1,3) by auto
  obtain c where "files d p = Some c" using assms(1) by (auto simp: content_def split: option.splits)
  then show "isl (fst (ReadTip F p d))" "isl (fst (ReadChainFile F p d))"
    using read_lines_long [OF m] last_line_long [OF m, of None]
    by (auto simp: ReadTip_def ReadChainFile_def content_def isl_def split: option.split)
qed

lemma emitted_line:
  "\<exists>l. marshal_envelope (emitted s now rec) = Some l \<and> length (canonicalize (buildEvent now rec)) \<le> length l \<and>
     newline \<notin> set l"
proof -
  let ?ev = "canonicalize (buildEvent now rec)" and ?q = "dec (unat (lastSeq s + 1))"
  define ms where "ms = [(''source'', json_quote (sk_source s)), (''sequence'', ?q), (''prior_hash'', json_quote (priorTip s)),
    (''hash'', json_quote (Hash (emitted s now rec))), (''event'', ?ev)]"
  have ev: "newline \<notin> set ?ev"
    unfolding canonicalize_def by (rule print_no_newline [OF json_ok_event])
  have "newline \<notin> set (json_quote t)" for t by (simp add: json_quote_def escape_no_newline)
  then have "newline \<notin> set (print_obj ms)"
    using ev number_no_newline [OF number_chars [OF dec_number]] by (intro obj_no_newline) (auto simp: ms_def)
  moreover have "length ?ev \<le> length (print_obj ms)" by (simp add: ms_def print_obj_def)
  ultimately show ?thesis by (simp add: marshal_envelope_def canonical_compact ms_def)
qed

text \<open>
  C33: the sink has no limit where the reader has one. Take an open audit file and an event whose text
  is 1 MiB or more, and let the disk work. The event is acknowledged; from then on, whatever is
  written behind it, neither the tip nor the chain of the file can be read, so that every later start
  of the daemon and every rotation refuse the file.
\<close>

theorem oversized_event_unreadable:
  assumes "maxEnvelopeLine \<le> length (canonicalize (buildEvent now rec))"
    and "digest_hex (priorTip s)" and "f_write F (calls d) = WriteAll None" and "f_sync F (calls d + 1) = None"
    and "ChainSink_Emit (FileSink_Write F) False now rec (s, \<lparr>fs_path = p, fs_closed = False\<rparr>, d) = (r, s1, fs1, d1)"
    and "sink_run (FileSink_Write F) cs (s1, fs1, d1) = (s2, fs2, d2)"
  shows "r = None \<and> isl (fst (ReadTip F' p d2)) \<and> isl (fst (ReadChainFile F' p d2))"
proof -
  obtain l where l: "marshal_envelope (emitted s now rec) = Some l" "maxEnvelopeLine \<le> length l" "newline \<notin> set l"
    using emitted_line [of s now rec] assms(1) by auto
  have "r = None \<and> fs1 = \<lparr>fs_path = p, fs_closed = False\<rparr> \<and> content p d1 = content p d @ l @ [newline]"
    using assms(3,4,5) by (auto simp: emit_eq [OF assms(2)] FileSink_Write_def l(1) append_line_def Let_def)
  moreover from this run_file_grows [OF assms(6)] obtain x where "content p d2 = content p d @ l @ newline # x" by auto
  ultimately show ?thesis using long_unreadable [OF _ l(3,2)] by blast
qed

text \<open>A revoke of a key name of sixty thousand bytes, each of which is written as six, three times.\<close>

definition demo_oversized :: Record where
  "demo_oversized = demo_act\<lparr>RcAction := ActionMCPKeyRevoke, RcKey := replicate 60000 (CHR ''<'')\<rparr>"

lemma length_escape_lt: "length (json_escape (replicate n (CHR ''<''))) = 6 * n"
  by (induction n) (simp_all add: json_escape.simps escape_rune_def escape_ascii_def hex_byte_def quote_bytes Let_def)

text \<open>The text of a value is at least as long as its strings.\<close>

fun json_strings :: "json \<Rightarrow> nat" where
  "json_strings (JStr s) = length (json_escape s)"
| "json_strings (JObj kvs) = sum_list (map (\<lambda>(k, v). json_strings v) kvs)"
| "json_strings _ = 0"

lemma commas_long: "sum_list (map length ts) \<le> length (commas ts)"
  by (induction ts rule: commas.induct) auto

lemma print_long: "json_strings v \<le> length (json_print v)"
proof (induction v rule: json_strings.induct)
  case (2 kvs)
  have "sum_list (map (\<lambda>(k, v). json_strings v) kvs)
      \<le> sum_list (map length (map (\<lambda>(k, v). json_quote k @ CHR '':'' # json_print v) kvs))"
    unfolding map_map by (rule sum_list_mono) (use 2 in \<open>fastforce intro: le_SucI trans_le_add2\<close>)
  then show ?case
    using commas_long [of "map (\<lambda>(k, v). json_quote k @ CHR '':'' # json_print v) kvs"]
    by (simp add: print_obj_def comp_def case_prod_unfold)
qed (simp_all add: json_quote_def)

lemma event_length:
  assumes "RcAction rec \<noteq> ActionExec"
  shows "3 * length (json_escape (RcKey rec)) \<le> length (canonicalize (buildEvent now rec))"
proof -
  have "3 * length (json_escape (RcKey rec)) \<le> json_strings (OCSFEvent_json (buildEvent now rec))"
    using assms by (simp add: buildEvent_def classFor_def classUIDAPIActivity_def classUIDEntityManagement_def
        event_json_defs Let_def json_escape.simps [of "[]"] split: prod.split)
  then show ?thesis unfolding canonicalize_def using print_long le_trans by blast
qed

theorem oversized_event_unreadable_witness:
  "let sw = (NewChainSink ''control'', \<lparr>fs_path = ''a'', fs_closed = False\<rparr>, empty_disk);
       (r, sw1) = ChainSink_Emit (FileSink_Write healthy) False 5000000000 demo_oversized sw;
       (s2, fs2, d2) = sink_run (FileSink_Write healthy) [CallEmit False 6000000000 demo_act] sw1 in
   r = None \<and> isl (fst (ReadTip healthy ''a'' d2)) \<and> isl (fst (ReadChainFile healthy ''a'' d2))"
proof -
  let ?sw = "(NewChainSink ''control'', \<lparr>fs_path = ''a'', fs_closed = False\<rparr>, empty_disk)"
  obtain r s1 fs1 d1 where
    1: "ChainSink_Emit (FileSink_Write healthy) False 5000000000 demo_oversized ?sw = (r, s1, fs1, d1)"
    by (cases "ChainSink_Emit (FileSink_Write healthy) False 5000000000 demo_oversized ?sw") auto
  obtain s2 fs2 d2 where
    2: "sink_run (FileSink_Write healthy) [CallEmit False 6000000000 demo_act] (s1, fs1, d1) = (s2, fs2, d2)"
    by (rule prod_cases3)
  have "maxEnvelopeLine \<le> length (canonicalize (buildEvent 5000000000 demo_oversized))"
    using event_length [of demo_oversized 5000000000]
    by (simp add: demo_oversized_def length_escape_lt maxEnvelopeLine_def)
  from oversized_event_unreadable [OF this _ _ _ 1 2, of healthy] show ?thesis
    unfolding Let_def 1 case_prod_conv 2 by (simp add: healthy_def NewChainSink_def digest_hex_genesis)
qed

end
