(* ===== verification/Audit_Rotate.thy ===== *)
theory Audit_Rotate
  imports Audit_File
begin

text \<open>
  The two tiers of the audit trail and the boot that runs over them: sealing the hot file into a cold
  segment (\<open>internal/audit/ocsf/rotate.go\<close>), the retention policy and its driver
  (\<open>internal/audit/retention\<close>), and the audit part of the daemon's start (\<open>cmd/ocu-controld/boot_rotation.go\<close>
  and \<open>main.go\<close>). Shown: whatever fails, and wherever a crash cuts it, a rotation loses no event; the
  deletion policy is exact; a decoupled tail is never repaired; and what becomes of the boots that
  follow a rotation.
\<close>

subsection \<open>Rotation\<close>

text \<open>A system call that fails answers its error; one that does not goes on.\<close>

definition syscall :: "(nat \<Rightarrow> err option) \<Rightarrow> (disk \<Rightarrow> 'a result \<times> disk) \<Rightarrow> disk \<Rightarrow> 'a result \<times> disk" where
  "syscall f k d = (case f (calls d) of Some e \<Rightarrow> (Inl e, tick d) | None \<Rightarrow> k (tick d))"

text \<open>Bytes arrive one after the other: a crash may leave any first part of them.\<close>

definition write_through :: "string \<Rightarrow> string \<Rightarrow> disk \<Rightarrow> disk" where
  "write_through p s d =
     d\<lparr>files := (files d)(p := Some s),
       past := past d @ map (\<lambda>n. (files d)(p := Some (take n s))) [0..<length s + 1]\<rparr>"

text \<open>
  \<open>io.Copy\<close> into the new file, then the synchronisation of the file and of its directory. The copy fails
  when a read or a write fails, after a first part has been copied, and when it wrote less than it read.
\<close>

definition copy_into :: "faults \<Rightarrow> string \<Rightarrow> string \<Rightarrow> disk \<Rightarrow> unit result \<times> disk" where
  "copy_into F dst c d =
     (let d1 = set_file dst (Some '''') d; a = f_write F (calls d1);
          d2 = tick (write_through dst (reached a c) d1) in
      case answer_err a of Some e \<Rightarrow> (Inl e, tick d2)
      | None \<Rightarrow>
          if length (reached a c) \<noteq> length c then (Inl [Dynamic ''short write''], tick d2)
          else case f_sync F (calls d2) of Some e \<Rightarrow> (Inl e, tick (tick d2))
          | None \<Rightarrow>
              syscall (f_meta F) (syscall (f_open F) (syscall (f_sync F) (\<lambda>d. (Inr (), d)))) (tick d2))"

definition copyAndSync :: "faults \<Rightarrow> string \<Rightarrow> string \<Rightarrow> disk \<Rightarrow> unit result \<times> disk" where
  "copyAndSync F src dst = syscall (f_open F) (\<lambda>d.
     case files d src of None \<Rightarrow> (Inl [Dynamic ''open hot file''], d)
     | Some c \<Rightarrow> syscall (f_open F) (\<lambda>d.
         if files d dst \<noteq> None then (Inl [Dynamic ''create sealed segment: file exists''], d)
         else copy_into F dst c d) d)"

fun envelopePrefix :: "ChainEnvelope list \<Rightarrow> ChainEnvelope list \<Rightarrow> bool" where
  "envelopePrefix [] want = True"
| "envelopePrefix (g # got) [] = False"
| "envelopePrefix (g # got) (w # want) = (Hash g = Hash w \<and> envelopePrefix got want)"

definition inspectExistingSegment :: "faults \<Rightarrow> string \<Rightarrow> ChainEnvelope list \<Rightarrow> disk \<Rightarrow> bool result \<times> disk" where
  "inspectExistingSegment F sealed envs = syscall (f_meta F) (\<lambda>d.
     if files d sealed = None then (Inr False, d)
     else case ReadChainFile F sealed d of
       (Inl e, d1) \<Rightarrow> (Inl (ErrSegmentExists # e), d1)
     | (Inr existing, d1) \<Rightarrow>
         if length existing < length envs \<and> envelopePrefix existing envs
         then syscall (f_meta F) (\<lambda>d. (Inr False, set_file sealed None d)) (tick d1)
         else if length existing \<noteq> length envs \<or> \<not> envelopePrefix existing envs then (Inl [ErrSegmentExists], d1)
         else case ValidateChain existing of
                Some e \<Rightarrow> (Inl (ErrSegmentExists # e), d1)
              | None \<Rightarrow> (Inr True, d1))"

definition segment_name :: "ChainEnvelope list \<Rightarrow> string" where
  "segment_name envs =
     EnvSource (hd envs) @ ''.'' @ pad 20 (unat (Sequence (hd envs))) @ ''-'' @
     pad 20 (unat (Sequence (last envs))) @ ''.jsonl''"

definition truncate_hot :: "faults \<Rightarrow> string \<Rightarrow> string \<Rightarrow> disk \<Rightarrow> string result \<times> disk" where
  "truncate_hot F path sealed = syscall (f_meta F) (\<lambda>d.
     if files d path = None then (Inl [Dynamic ''truncate hot file''], d)
     else (Inr sealed, set_file path (Some '''') d))"

text \<open>Reading the copy back, and sealing it.\<close>

definition verify_copy :: "faults \<Rightarrow> string \<Rightarrow> ChainEnvelope list \<Rightarrow> disk \<Rightarrow> unit result \<times> disk" where
  "verify_copy F sealed envs d =
     (case ReadChainFile F sealed d of
        (Inl e, d1) \<Rightarrow> (Inl e, d1)
      | (Inr coldEnvs, d1) \<Rightarrow>
          if length coldEnvs \<noteq> length envs then (Inl [Dynamic ''sealed segment length''], d1)
          else case ValidateChain coldEnvs of Some e \<Rightarrow> (Inl e, d1)
               | None \<Rightarrow> syscall (f_meta F) (\<lambda>d. (Inr (), d)) d1)"

definition discard :: "faults \<Rightarrow> string \<Rightarrow> disk \<Rightarrow> disk" where
  "discard F sealed d =
     (case f_meta F (calls d) of Some e \<Rightarrow> tick d | None \<Rightarrow> tick (set_file sealed None d))"

text \<open>Sealing into a name that is free, and into one that may be taken.\<close>

definition seal_copy :: "faults \<Rightarrow> string \<Rightarrow> string \<Rightarrow> ChainEnvelope list \<Rightarrow> disk \<Rightarrow> string result \<times> disk" where
  "seal_copy F path sealed envs d =
     (case copyAndSync F path sealed d of
        (Inl e, d1) \<Rightarrow> (Inl e, d1)
      | (Inr u, d1) \<Rightarrow>
          (case verify_copy F sealed envs d1 of
             (Inl e, d2) \<Rightarrow> (Inl e, discard F sealed d2)
           | (Inr u, d2) \<Rightarrow> truncate_hot F path sealed d2))"

definition seal_into :: "faults \<Rightarrow> string \<Rightarrow> string \<Rightarrow> ChainEnvelope list \<Rightarrow> disk \<Rightarrow> string result \<times> disk" where
  "seal_into F path sealed envs d =
     (case inspectExistingSegment F sealed envs d of
        (Inl e, d1) \<Rightarrow> (Inl e, d1)
      | (Inr resumable, d1) \<Rightarrow>
          if resumable then syscall (f_meta F) (truncate_hot F path sealed) d1
          else seal_copy F path sealed envs d1)"

definition RotateSegment :: "faults \<Rightarrow> string \<Rightarrow> string \<Rightarrow> disk \<Rightarrow> string result \<times> disk" where
  "RotateSegment F path coldDir d =
     (case ReadChainFile F path d of
        (Inl e, d1) \<Rightarrow> (Inl e, d1)
      | (Inr envs, d1) \<Rightarrow>
          if envs = [] then (Inl [ErrNothingToRotate], d1)
          else case ValidateChain envs of Some e \<Rightarrow> (Inl e, d1)
          | None \<Rightarrow> syscall (f_meta F) (seal_into F path (f_join F coldDir (segment_name envs)) envs) d1)"

definition ResumeTipAfterRotation :: "faults \<Rightarrow> string \<Rightarrow> string \<Rightarrow> disk \<Rightarrow> Tip result \<times> disk" where
  "ResumeTipAfterRotation F hotPath sealedPath d =
     (case ReadTip F hotPath d of
        (Inl e, d1) \<Rightarrow> (Inl e, d1)
      | (Inr hotTip, d1) \<Rightarrow>
          if \<not> Fresh hotTip then (Inr hotTip, d1)
          else case ReadTip F sealedPath d1 of
            (Inl e, d2) \<Rightarrow> (Inl e, d2)
          | (Inr sealedTip, d2) \<Rightarrow>
              if Fresh sealedTip then (Inl [ErrNothingToRotate], d2) else (Inr sealedTip, d2))"

subsection \<open>Retention\<close>

definition hour :: duration where "hour = 3600 * 1000000000"
definition year :: duration where "year = 365 * 24 * hour"
definition DefaultFloor :: duration where "DefaultFloor = 7 * year"
definition TenYearFloor :: duration where "TenYearFloor = 10 * year"
definition DefaultHotWindow :: duration where "DefaultHotWindow = 90 * 24 * hour"

record Config =
  CfFloor :: duration
  CfHotWindow :: duration

record Policy =
  po_floor :: duration
  po_hotWindow :: duration

definition NewPolicy :: "Config \<Rightarrow> Policy result" where
  "NewPolicy cfg =
     (let floor = (if CfFloor cfg = 0 then DefaultFloor else CfFloor cfg);
          hot = (if CfHotWindow cfg = 0 then DefaultHotWindow else CfHotWindow cfg) in
      if floor < DefaultFloor then Inl [ErrBelowFloor]
      else if hot \<le> 0 then Inl [ErrHotWindowInvalid]
      else if floor \<le> hot then Inl [ErrHotWindowTooLong]
      else Inr \<lparr>po_floor = floor, po_hotWindow = hot\<rparr>)"

definition Policy_ShouldRotate :: "Policy \<Rightarrow> time \<Rightarrow> time \<Rightarrow> bool" where
  "Policy_ShouldRotate p sealedAt now \<longleftrightarrow>
     \<not> (sealedAt = 0 \<or> now < sealedAt) \<and> po_hotWindow p \<le> time_Sub now sealedAt"

definition Policy_MayDelete :: "Policy \<Rightarrow> time \<Rightarrow> time \<Rightarrow> err option" where
  "Policy_MayDelete p writtenAt now =
     (if writtenAt = 0 then Some [ErrUnknownWriteTime]
      else if now < writtenAt then Some [ErrWriteTimeInFuture]
      else if time_Sub now writtenAt < po_floor p then Some [ErrWithinFloor]
      else None)"

record Result =
  Rotated :: bool
  SegmentPath :: string
  Events :: u64
  SegFirst :: u64
  SegLast :: u64

definition zeroResult :: Result where
  "zeroResult = \<lparr>Rotated = False, SegmentPath = '''', Events = 0, SegFirst = 0, SegLast = 0\<rparr>"

definition RotateIfDue ::
  "faults \<Rightarrow> Policy option \<Rightarrow> string \<Rightarrow> string \<Rightarrow> time \<Rightarrow> time \<Rightarrow> disk \<Rightarrow> Result result \<times> disk" where
  "RotateIfDue F policy hotPath coldDir sealedAt now d =
     (case policy of None \<Rightarrow> (Inl [Dynamic ''nil policy''], d)
      | Some p \<Rightarrow>
          if now < sealedAt then (Inl [ErrSealTimeInFuture], d)
          else if \<not> Policy_ShouldRotate p sealedAt now then (Inr zeroResult, d)
          else case RotateSegment F hotPath coldDir d of
            (Inl e, d1) \<Rightarrow> if ErrNothingToRotate \<in> set e then (Inr zeroResult, d1) else (Inl e, d1)
          | (Inr segment, d1) \<Rightarrow>
              (case ReadChainFile F segment d1 of
                 (Inl e, d2) \<Rightarrow> (Inl e, d2)
               | (Inr envs, d2) \<Rightarrow>
                   if envs = [] then (Inl [Dynamic ''sealed segment holds no events''], d2)
                   else (Inr \<lparr>Rotated = True, SegmentPath = segment, Events = of_nat (length envs),
                              SegFirst = Sequence (hd envs), SegLast = Sequence (last envs)\<rparr>, d2)))"

subsection \<open>The audit part of a boot\<close>

definition auditSinkNone :: "string \<Rightarrow> bool" where
  "auditSinkNone s \<longleftrightarrow> map to_lower s = ''none'' \<or> map to_lower s = ''null''"

text \<open>\<open>time.UnixMilli\<close>, and the first field of an event that is read.\<close>

definition time_UnixMilli :: "int \<Rightarrow> time" where
  "time_UnixMilli ms = ms * 1000000 + 62135596800 * nanosPerSecond"

definition time_field :: "int \<Rightarrow> string \<Rightarrow> string \<Rightarrow> json \<Rightarrow> int option" where
  "time_field x k t v = (if k = ''time'' then field_int64 v x else Some x)"

definition firstEventTime :: "faults \<Rightarrow> string \<Rightarrow> disk \<Rightarrow> time result \<times> disk" where
  "firstEventTime F path d =
     (case ReadChainFile F path d of
        (Inl e, d1) \<Rightarrow> (Inl e, d1)
      | (Inr envs, d1) \<Rightarrow>
          if envs = [] then (Inr 0, d1)
          else case decode_struct time_field 0 (Event (hd envs)) of
            None \<Rightarrow> (Inl [Dynamic ''read first event time''], d1)
          | Some ms \<Rightarrow>
              if ms = 0 then (Inl [Dynamic ''first event carries no time''], d1)
              else (Inr (time_UnixMilli ms), d1))"

definition rotateAuditAtBoot :: "faults \<Rightarrow> string \<Rightarrow> string \<Rightarrow> time \<Rightarrow> disk \<Rightarrow> Result result \<times> disk" where
  "rotateAuditAtBoot F auditPath coldDir now d =
     (if coldDir = '''' then (Inr zeroResult, d)
      else if auditSinkNone auditPath then (Inr zeroResult, d)
      else case firstEventTime F auditPath d of
        (Inl e, d1) \<Rightarrow> (Inl e, d1)
      | (Inr sealedAt, d1) \<Rightarrow>
          (case NewPolicy \<lparr>CfFloor = 0, CfHotWindow = 0\<rparr> of
             Inl e \<Rightarrow> (Inl e, d1)
           | Inr policy \<Rightarrow> RotateIfDue F (Some policy) auditPath coldDir sealedAt now d1))"

definition resumeTipAfterBootRotation :: "faults \<Rightarrow> string \<Rightarrow> Result \<Rightarrow> disk \<Rightarrow> Tip result \<times> disk" where
  "resumeTipAfterBootRotation F auditPath res d =
     (if \<not> Rotated res then ReadTip F auditPath d
      else ResumeTipAfterRotation F auditPath (SegmentPath res) d)"

text \<open>
  The writer of the daemon: a local one, and the fan-in over it where a central endpoint is
  configured. The endpoint's client is a parameter: its construction fails, or it answers publishes.
\<close>

datatype local_writer = NullWriter | FileWriter FileSink

type_synonym publisher = "nat \<Rightarrow> PublishWire \<Rightarrow> err option"

definition buildLocalAuditWriter :: "faults \<Rightarrow> string \<Rightarrow> disk \<Rightarrow> local_writer result \<times> disk" where
  "buildLocalAuditWriter F sink d =
     (if auditSinkNone sink then (Inr NullWriter, d)
      else case OpenFileSink F sink d of
        (Inl e, d1) \<Rightarrow> (Inl e, d1) | (Inr fs, d1) \<Rightarrow> (Inr (FileWriter fs), d1))"

fun local_Write :: "faults \<Rightarrow> (local_writer \<times> disk) event_writer" where
  "local_Write F c env (NullWriter, d) = (case NullSink_Write c env () of (e, u) \<Rightarrow> (e, NullWriter, d))"
| "local_Write F c env (FileWriter fs, d) =
     (case FileSink_Write F c env (fs, d) of (e, fs', d') \<Rightarrow> (e, FileWriter fs', d'))"

fun local_Close :: "faults \<Rightarrow> local_writer \<times> disk \<Rightarrow> err option \<times> local_writer \<times> disk" where
  "local_Close F (NullWriter, d) = (None, NullWriter, d)"
| "local_Close F (FileWriter fs, d) =
     (case FileSink_Close F (fs, d) of (e, fs', d') \<Rightarrow> (e, FileWriter fs', d'))"

definition auditWriter_Write :: "faults \<Rightarrow> publisher option \<Rightarrow> ((local_writer \<times> disk) \<times> nat) event_writer" where
  "auditWriter_Write F pub c env = (\<lambda>(w, n).
     case pub of
       None \<Rightarrow> (case local_Write F c env w of (e, w') \<Rightarrow> (e, w', n))
     | Some p \<Rightarrow> FanInWriter_Write (local_Write F) p c env (w, n))"

definition buildAuditWriter ::
  "faults \<Rightarrow> string \<Rightarrow> publisher result option \<Rightarrow> disk \<Rightarrow> (local_writer \<times> publisher option) result \<times> disk" where
  "buildAuditWriter F sink central d =
     (case buildLocalAuditWriter F sink d of
        (Inl e, d1) \<Rightarrow> (Inl e, d1)
      | (Inr w, d1) \<Rightarrow>
          (case central of
             None \<Rightarrow> (Inr (w, None), d1)
           | Some (Inl e) \<Rightarrow> (Inl e, snd (snd (local_Close F (w, d1))))
           | Some (Inr p) \<Rightarrow>
               (case NewFanInWriter (Some (local_Write F)) (Some p) of
                  Inl e \<Rightarrow> (Inl e, snd (snd (local_Close F (w, d1))))
                | Inr fan \<Rightarrow> (Inr (w, Some p), d1))))"

definition auditChainSource :: string where "auditChainSource = ''control''"

definition verifyAuditChainFile :: "faults \<Rightarrow> string \<Rightarrow> disk \<Rightarrow> unit result \<times> disk" where
  "verifyAuditChainFile F path d =
     (case ReadChainFile F path d of
        (Inl e, d1) \<Rightarrow> (Inl e, d1)
      | (Inr envs, d1) \<Rightarrow>
          (case ValidateChain envs of Some e \<Rightarrow> (Inl e, d1) | None \<Rightarrow> (Inr (), d1)))"

definition buildResumedChainSink ::
  "faults \<Rightarrow> publisher option \<Rightarrow> ctx \<Rightarrow> time \<Rightarrow> string \<Rightarrow> Result \<Rightarrow> (local_writer \<times> disk) \<times> nat \<Rightarrow>
     ChainSink result \<times> (local_writer \<times> disk) \<times> nat" where
  "buildResumedChainSink F pub c now path rotated = (\<lambda>((w, d), n).
     if auditSinkNone path then (Inr (NewChainSink auditChainSource), (w, d), n)
     else case verifyAuditChainFile F path d of
       (Inl e, d1) \<Rightarrow> (Inl e, (w, d1), n)
     | (Inr u, d1) \<Rightarrow>
         (case resumeTipAfterBootRotation F path rotated d1 of
            (Inl e, d2) \<Rightarrow>
              if ErrTipDecoupled \<in> set e then
                (case ChainSink_EmitChainBreak (auditWriter_Write F pub) c now ChainBreakUnreadable
                        (NewChainSink auditChainSource, (w, d2), n) of
                   (Some e, s, st) \<Rightarrow> (Inl e, st)
                 | (None, s, st) \<Rightarrow> (Inr s, st))
              else (Inl e, (w, d2), n)
          | (Inr tip, d2) \<Rightarrow> (Inr (ResumeChainSink auditChainSource tip), (w, d2), n)))"

text \<open>Rotate, open the writer, resume the chain, in the order of \<open>run\<close>.\<close>

definition audit_boot ::
  "faults \<Rightarrow> publisher result option \<Rightarrow> ctx \<Rightarrow> time \<Rightarrow> string \<Rightarrow> string \<Rightarrow> disk \<Rightarrow>
     (ChainSink \<times> local_writer \<times> publisher option) result \<times> disk" where
  "audit_boot F central c now auditSink coldDir d =
     (case rotateAuditAtBoot F auditSink coldDir now d of
        (Inl e, d1) \<Rightarrow> (Inl e, d1)
      | (Inr rotated, d1) \<Rightarrow>
          (case buildAuditWriter F auditSink central d1 of
             (Inl e, d2) \<Rightarrow> (Inl e, d2)
           | (Inr (w, pub), d2) \<Rightarrow>
               (case buildResumedChainSink F pub c now auditSink rotated ((w, d2), 0) of
                  (Inl e, (w', d3), n) \<Rightarrow> (Inl e, snd (snd (local_Close F (w', d3))))
                | (Inr s, (w', d3), n) \<Rightarrow> (Inr (s, w', pub), d3))))"

subsection \<open>A rotation loses no event\<close>

text \<open>Every state of the files between two disks, the last one included, satisfies a predicate.\<close>

definition through :: "((string \<Rightarrow> string option) \<Rightarrow> bool) \<Rightarrow> disk \<Rightarrow> disk \<Rightarrow> bool" where
  "through P d d' \<longleftrightarrow> P (files d') \<and> (\<exists>fls. past d' = past d @ fls \<and> list_all P fls)"

lemma through_refl [simp]: "P (files d) \<Longrightarrow> through P d d"
  by (simp add: through_def)

lemma through_trans: "through P d d1 \<Longrightarrow> through P d1 d2 \<Longrightarrow> through P d d2"
  by (auto simp: through_def)

lemma through_tick [simp]: "through P d (tick d') = through P d d'" "through P (tick d) d' = through P d d'"
  by (simp_all add: through_def)

lemma through_set: "through P d d' \<Longrightarrow> P ((files d')(p := c)) \<Longrightarrow> through P d (set_file p c d')"
  by (auto simp: through_def set_file_def)

lemma syscallE:
  assumes "syscall f k d = (r, d')"
  obtains (fails) e where "r = Inl e" "d' = tick d" | (goes_on) "k (tick d) = (r, d')"
  using assms by (auto simp: syscall_def split: option.splits)

lemma read_chain_frame: "ReadChainFile F p d = (r, d') \<Longrightarrow> files d' = files d \<and> past d' = past d"
  by (auto simp: ReadChainFile_def split: option.splits sum.splits)

lemma read_chain_Inr:
  "ReadChainFile F p d = (Inr envs, d') \<Longrightarrow> (case files d p of None \<Rightarrow> envs = [] | Some c \<Rightarrow> read_lines (split_lines [] c) = Inr envs)"
  by (auto simp: ReadChainFile_def split: option.splits sum.splits)

lemma through_read: "ReadChainFile F p d1 = (r, d2) \<Longrightarrow> through P d d2 = through P d d1"
  using read_chain_frame by (fastforce simp: through_def)

lemma reached_take: "\<exists>n. reached a c = take n c"
  by (cases a) (auto intro: exI [of _ "length c"])

lemma write_through_through:
  assumes "through P d d1" and "\<And>n. P ((files d1)(p := Some (take n c)))"
  shows "through P d (write_through p (take m c) d1)"
proof -
  have "P ((files d1)(p := Some (take n (take m c))))" for n
    using assms(2) [of "min n m"] by (simp add: min.commute)
  then show ?thesis using assms by (auto simp: through_def write_through_def list_all_iff)
qed

lemma copy_into_through:
  assumes "copy_into F dst c d = (r, d')"
    and "P (files d)" and "\<And>n. P ((files d)(dst := Some (take n c)))"
  shows "through P d d' \<and> (\<forall>u. r = Inr u \<longrightarrow> files d' = (files d)(dst := Some c))"
proof -
  define d1 where "d1 = set_file dst (Some '''') d"
  obtain m where m: "reached (f_write F (calls d1)) c = take m c" using reached_take by blast
  define d2 where "d2 = write_through dst (take m c) d1"
  have "through P d d1" using assms(2) assms(3) [of 0] by (auto simp: d1_def intro!: through_set)
  then have t2: "through P d d2"
    using assms(3) by (auto simp: d2_def d1_def intro!: write_through_through)
  have f2: "files d2 = (files d)(dst := Some (take m c))" by (simp add: d2_def write_through_def d1_def)
  have full: "take m c = c" if "min (length c) m = length c" using that by simp
  have "syscall (f_meta F) (syscall (f_open F) (syscall (f_sync F) (\<lambda>d. (Inr (), d)))) (tick (tick d2)) = (r, d') \<Longrightarrow>
      through P d d' \<and> files d' = files d2"
    using t2 by (auto simp: syscall_def split: option.splits)
  note last = this
  note run = assms(1) [unfolded copy_into_def Let_def, folded d1_def, unfolded m, folded d2_def]
  consider e where "r = Inl e" "through P d d'"
    | "length (take m c) = length c"
      "syscall (f_meta F) (syscall (f_open F) (syscall (f_sync F) (\<lambda>d. (Inr (), d)))) (tick (tick d2)) = (r, d')"
    using run t2 by (cases "answer_err (f_write F (calls d1))"; cases "length (take m c) = length c";
        cases "f_sync F (calls (tick d2))") (auto simp del: length_take)
  then show ?thesis
  proof cases
    case 2
    then show ?thesis using last [OF 2(2)] f2 full by simp
  qed auto
qed

lemma copy_through:
  assumes "copyAndSync F src dst d = (r, d')" and "files d src = Some c"
    and "P (files d)" and "\<And>n. P ((files d)(dst := Some (take n c)))"
  shows "through P d d' \<and> (\<forall>u. r = Inr u \<longrightarrow> files d' = (files d)(dst := Some c))"
  using assms(1) unfolding copyAndSync_def
proof (cases rule: syscallE)
  case goes_on
  from goes_on [simplified assms(2) disk_simps option.case] show ?thesis
  proof (cases rule: syscallE)
    case goes_on
    then show ?thesis
      using copy_into_through [of F dst c "tick (tick d)" r d' P] assms(3,4) by (auto split: if_splits)
  qed (use assms(3) in auto)
qed (use assms(3) in auto)

text \<open>A file that reads as a valid chain with the hashes of the given envelopes.\<close>

definition archived :: "ChainEnvelope list \<Rightarrow> string option \<Rightarrow> bool" where
  "archived envs f =
     (case f of None \<Rightarrow> False
      | Some t \<Rightarrow> (case read_lines (split_lines [] t) of Inl e \<Rightarrow> False
                  | Inr envs' \<Rightarrow> map Hash envs' = map Hash envs \<and> ValidateChain envs' = None))"

lemma prefix_hashes: "envelopePrefix xs ys \<Longrightarrow> length xs = length ys \<Longrightarrow> map Hash xs = map Hash ys"
  by (induction xs ys rule: envelopePrefix.induct) auto

lemma inspect_cases:
  assumes "inspectExistingSegment F sealed envs d = (r, d')"
  obtains (same) "files d' = files d" "past d' = past d" "r = Inr True \<Longrightarrow> archived envs (files d sealed)"
    | (removed) "r = Inr False" "files d' = (files d)(sealed := None)" "past d' = past d @ [files d']"
  using assms unfolding inspectExistingSegment_def
proof (cases rule: syscallE)
  case goes_on
  show ?thesis
  proof (cases "files d sealed")
    case None
    with goes_on same show ?thesis by auto
  next
    case (Some t)
    obtain x d1 where x: "ReadChainFile F sealed (tick d) = (x, d1)" by (cases "ReadChainFile F sealed (tick d)")
    then have frame: "files d1 = files d" "past d1 = past d" using read_chain_frame by fastforce+
    show ?thesis
    proof (cases x)
      case (Inl e)
      with goes_on Some x frame same show ?thesis by auto
    next
      case (Inr existing)
      have read: "read_lines (split_lines [] t) = Inr existing"
        using read_chain_Inr [of F sealed "tick d" existing d1] x Inr Some by simp
      from goes_on [simplified Some x Inr disk_simps prod.case sum.case] show ?thesis
        using frame same removed read Some prefix_hashes [of existing envs]
        by (auto simp: archived_def syscall_def set_file_def split: if_splits option.splits)
    qed
  qed
qed (use same in auto)

definition rotation_state ::
  "string \<Rightarrow> string \<Rightarrow> string \<Rightarrow> ChainEnvelope list \<Rightarrow> (string \<Rightarrow> string option) \<Rightarrow> (string \<Rightarrow> string option) \<Rightarrow> bool" where
  "rotation_state path sealed hot envs fl0 fl \<longleftrightarrow>
     (\<forall>q. q \<noteq> path \<and> q \<noteq> sealed \<longrightarrow> fl q = fl0 q) \<and>
     (fl path = Some hot \<or> fl path = Some '''' \<and> archived envs (fl sealed))"


text \<open>What a rotation goes through, and what it has done when it answers a name.\<close>

definition rotation_run ::
  "string \<Rightarrow> string \<Rightarrow> string \<Rightarrow> ChainEnvelope list \<Rightarrow> (string \<Rightarrow> string option) \<Rightarrow> disk \<Rightarrow> string result \<times> disk \<Rightarrow> bool" where
  "rotation_run path sealed hot envs fl0 d = (\<lambda>(r, d').
     through (rotation_state path sealed hot envs fl0) d d' \<and>
     (\<forall>s. r = Inr s \<longrightarrow> s = sealed \<and> files d' path = Some '''' \<and> archived envs (files d' sealed)))"

lemma rotation_run_trans:
  "through (rotation_state path sealed hot envs fl0) d d1 \<Longrightarrow> rotation_run path sealed hot envs fl0 d1 rd \<Longrightarrow>
    rotation_run path sealed hot envs fl0 d rd"
  by (auto simp: rotation_run_def intro: through_trans)

lemma rotation_run_Inl:
  "through (rotation_state path sealed hot envs fl0) d d' \<Longrightarrow> rotation_run path sealed hot envs fl0 d (Inl e, d')"
  by (simp add: rotation_run_def)

lemma truncate_run:
  assumes "files d path = Some hot" and "archived envs (files d sealed)" and "path \<noteq> sealed"
    and "rotation_state path sealed hot envs fl0 (files d)"
  shows "rotation_run path sealed hot envs fl0 d (truncate_hot F path sealed d)"
  using assms by (auto simp: rotation_run_def truncate_hot_def syscall_def rotation_state_def
      intro!: through_set split: option.splits)

lemma seal_copy_run:
  assumes "files d path = Some hot" and "read_lines (split_lines [] hot) = Inr envs" and "ValidateChain envs = None"
    and "path \<noteq> sealed" and "rotation_state path sealed hot envs fl0 (files d)"
  shows "rotation_run path sealed hot envs fl0 d (seal_copy F path sealed envs d)"
proof -
  let ?P = "rotation_state path sealed hot envs fl0"
  have keep: "?P ((files d)(sealed := x))" for x
    using assms(1,4,5) by (simp add: rotation_state_def)
  obtain x d4 where x: "copyAndSync F path sealed d = (x, d4)" by (cases "copyAndSync F path sealed d")
  note copy = copy_through [where P = ?P, OF x assms(1) assms(5) keep]
  show ?thesis
  proof (cases x)
    case (Inl e)
    then show ?thesis using x copy by (simp add: seal_copy_def rotation_run_Inl)
  next
    case (Inr u)
    then have f4: "files d4 = (files d)(sealed := Some hot)" using copy by simp
    obtain y d5 where y: "verify_copy F sealed envs d4 = (y, d5)" by (cases "verify_copy F sealed envs d4")
    then have f5: "files d5 = files d4" "past d5 = past d4"
      by (auto simp: verify_copy_def syscall_def dest: read_chain_frame
          split: prod.splits sum.splits if_splits option.splits)
    have t5: "through ?P d d5" using copy f5 by (simp add: through_def)
    show ?thesis
    proof (cases y)
      case (Inl e)
      have "?P ((files d5)(sealed := None))" using keep [of None] f4 f5 by simp
      then have "through ?P d (discard F sealed d5)"
        using t5 through_set [of ?P d d5 sealed None] by (simp add: discard_def split: option.splits)
      then show ?thesis using x y Inr Inl by (simp add: seal_copy_def rotation_run_Inl)
    next
      case (Inr v)
      have "rotation_run path sealed hot envs fl0 d5 (truncate_hot F path sealed d5)"
        using t5 f4 f5 assms(1-4) by (intro truncate_run) (simp_all add: archived_def through_def)
      then show ?thesis using x y Inr \<open>x = Inr u\<close> rotation_run_trans [OF t5] by (simp add: seal_copy_def)
    qed
  qed
qed

lemma seal_into_run:
  assumes "files d path = Some hot" and "read_lines (split_lines [] hot) = Inr envs" and "ValidateChain envs = None"
    and "path \<noteq> sealed" and "rotation_state path sealed hot envs fl0 (files d)"
  shows "rotation_run path sealed hot envs fl0 d (seal_into F path sealed envs d)"
proof -
  let ?P = "rotation_state path sealed hot envs fl0"
  obtain y d3 where y: "inspectExistingSegment F sealed envs d = (y, d3)"
    by (cases "inspectExistingSegment F sealed envs d")
  have "through ?P d d3 \<and> files d3 path = Some hot \<and> (y = Inr True \<longrightarrow> archived envs (files d3 sealed))"
    using y
  proof (cases rule: inspect_cases)
    case same
    then show ?thesis using assms(1,5) by (simp add: through_def)
  next
    case removed
    then show ?thesis using assms(1,4,5) by (auto simp: through_def rotation_state_def)
  qed
  then have t3: "through ?P d d3" and hot: "files d3 path = Some hot"
    and arch: "y = Inr True \<Longrightarrow> archived envs (files d3 sealed)" by auto
  then have P3: "?P (files d3)" by (simp add: through_def)
  have "rotation_run path sealed hot envs fl0 d3 (syscall (f_meta F) (truncate_hot F path sealed) d3)" if "y = Inr True"
    using truncate_run [of "tick d3" path hot envs sealed fl0 F] hot arch [OF that] assms(4) P3
      rotation_run_trans [of path sealed hot envs fl0 d3 "tick d3"]
    by (auto simp: syscall_def rotation_run_Inl split: option.splits)
  then show ?thesis
    using y t3 rotation_run_trans [OF t3] seal_copy_run [OF hot assms(2-4) P3, of F]
    by (cases y) (auto simp: seal_into_def rotation_run_Inl)
qed

text \<open>
  C8: a rotation loses no event, whatever fails and wherever it is cut off. Take any hot file and any
  answers of the file system. In every state the files go through, and in the last one, no file but
  the hot one and the segment has changed, and the hot file still holds all its bytes, or it is empty
  and the segment reads as a valid chain with the same hashes. If the rotation succeeds, the hot file
  is empty and the segment is under the answered name.
\<close>

theorem rotation_keeps_events:
  assumes "files d path = Some hot" and "read_lines (split_lines [] hot) = Inr envs"
    and "path \<noteq> f_join F coldDir (segment_name envs)" and "RotateSegment F path coldDir d = (r, d')"
  shows "through (rotation_state path (f_join F coldDir (segment_name envs)) hot envs (files d)) d d' \<and>
    (\<forall>s. r = Inr s \<longrightarrow> s = f_join F coldDir (segment_name envs) \<and> files d' path = Some '''' \<and> archived envs (files d' s))"
proof -
  let ?sealed = "f_join F coldDir (segment_name envs)"
  let ?P = "rotation_state path ?sealed hot envs (files d)"
  have start: "?P (files d)" using assms(1) by (simp add: rotation_state_def)
  obtain x d1 where x: "ReadChainFile F path d = (x, d1)" by (cases "ReadChainFile F path d")
  then have f1: "files d1 = files d" and t1: "through ?P d d1"
    using read_chain_frame [OF x] through_read [OF x, of ?P d] start by simp_all
  have "rotation_run path ?sealed hot envs (files d) d (RotateSegment F path coldDir d)"
  proof (cases x)
    case (Inr y)
    then have y: "y = envs" using read_chain_Inr [of F path d y d1] x assms(1,2) by simp
    have "rotation_run path ?sealed hot envs (files d) d (seal_into F path ?sealed envs (tick d1))"
      if "ValidateChain envs = None"
      using seal_into_run [of "tick d1" path hot envs ?sealed "files d" F] that assms f1 start t1
        rotation_run_trans [of path ?sealed hot envs "files d" d "tick d1"] by simp
    then show ?thesis
      using x Inr y t1 by (auto simp: RotateSegment_def syscall_def rotation_run_Inl split: option.splits)
  qed (use x t1 in \<open>simp add: RotateSegment_def rotation_run_Inl\<close>)
  then show ?thesis using assms(4) by (auto simp: rotation_run_def)
qed

subsection \<open>A torn segment\<close>

definition faultless :: "faults \<Rightarrow> bool" where
  "faultless F \<longleftrightarrow> (\<forall>k. f_write F k = WriteAll None \<and> f_sync F k = None \<and> f_open F k = None \<and>
     f_read F k = None \<and> f_meta F k = None)"

lemma syscall_ok [simp]: "f (calls d) = None \<Longrightarrow> syscall f k d = k (tick d)"
  by (simp add: syscall_def)

lemma faultless_simps:
  assumes "faultless F"
  shows "f_write F k = WriteAll None" "f_sync F k = None" "f_open F k = None" "f_read F k = None" "f_meta F k = None"
    "readable F"
  using assms by (simp_all add: faultless_def readable_def)

lemma write_through_simps [simp]:
  "files (write_through p s d) = (files d)(p := Some s)" "calls (write_through p s d) = calls d"
  by (simp_all add: write_through_def)

lemma read_faultless:
  assumes "faultless F" and "files d p = Some t" and "read_lines (split_lines [] t) = Inr envs"
  shows "ReadChainFile F p d = (Inr envs, tick (tick d))"
  using assms by (simp add: ReadChainFile_def faultless_simps)

lemma past_simps [simp]:
  "past (tick d) = past d" "past (set_file p c d) = past d @ [(files d)(p := c)]"
  "past (write_through p s d) = past d @ map (\<lambda>n. (files d)(p := Some (take n s))) [0..<length s + 1]"
  by (simp_all add: tick_def set_file_def write_through_def)

text \<open>Without faults a rotation seals, through every first part of the copy.\<close>

lemma rotate_faultless:
  assumes "faultless F" and "files d path = Some hot" and "read_lines (split_lines [] hot) = Inr envs"
    and "envs \<noteq> []" and "ValidateChain envs = None" and "sealed = f_join F coldDir (segment_name envs)"
    and "files d sealed = None"
  shows "\<exists>d'. RotateSegment F path coldDir d = (Inr sealed, d') \<and>
    files d' = (files d)(sealed := Some hot, path := Some '''') \<and>
    (\<forall>n \<le> length hot. (files d)(sealed := Some (take n hot)) \<in> set (past d'))"
proof -
  have "sealed \<noteq> path" using assms(2,7) by auto
  then show ?thesis
    using assms
    by (auto simp: RotateSegment_def seal_into_def seal_copy_def copyAndSync_def copy_into_def verify_copy_def
        truncate_hot_def inspectExistingSegment_def read_faultless faultless_simps Let_def fun_upd_twist image_iff le_less)
qed

lemma brace_unreadable: "read_lines (split_lines [] ''{'') = Inl [Dynamic ''line is not a ChainEnvelope'']"
proof -
  have "unmarshal_envelope ''{'' = None" by code_simp
  then show ?thesis by (simp add: newline_byte drop_cr_def maxEnvelopeLine_def)
qed

lemma holds_files: "holds_lines p d \<Longrightarrow> envelopes_at p d \<noteq> [] \<Longrightarrow> files d p = Some (lines_of (envelopes_at p d))"
  by (cases "files d p") (simp_all add: holds_lines_def content_def lines_of_def envelopes_at_def)

lemma holds_read: "holds_lines p d \<Longrightarrow> read_lines (split_lines [] (lines_of (envelopes_at p d))) = Inr (envelopes_at p d)"
  by (simp add: holds_lines_def read_lines_of)

lemma lines_front: "list_all fits envs \<Longrightarrow> envs \<noteq> [] \<Longrightarrow> \<exists>rest. lines_of envs = CHR ''{'' # rest"
  by (cases envs) (auto simp: lines_of_def fits_def marshal_envelope_def print_obj_def split: option.splits)

text \<open>A segment that does not read is never replaced: the rotation fails and nothing changes.\<close>

lemma unreadable_segment_refused:
  assumes "files d path = Some hot" and "read_lines (split_lines [] hot) = Inr envs"
    and "files d (f_join F coldDir (segment_name envs)) = Some t" and "read_lines (split_lines [] t) = Inl e"
  shows "\<exists>e' d'. RotateSegment F path coldDir d = (Inl e', d') \<and> files d' = files d"
proof -
  have "\<exists>e' d'. inspectExistingSegment F (f_join F coldDir (segment_name envs)) envs d1 = (Inl e', d') \<and> files d' = files d1"
    if "files d1 = files d" for d1
    using that assms(3,4) by (auto simp: inspectExistingSegment_def syscall_def ReadChainFile_def split: option.splits)
  then have seal: "\<exists>e' d'. seal_into F path (f_join F coldDir (segment_name envs)) envs d1 = (Inl e', d') \<and> files d' = files d"
    if "files d1 = files d" for d1
    using that by (fastforce simp: seal_into_def)
  show ?thesis
    using assms(1,2) seal [of "tick (tick (tick d))"]
    by (auto simp: RotateSegment_def ReadChainFile_def syscall_def split: option.splits if_splits)
qed

text \<open>
  A crash inside a rotation's copy can block every later one. From a hot file the sink wrote and a
  free segment name, a rotation that meets no fault passes through a state in which the segment holds
  a torn line. From that state every later rotation fails, whatever the file system answers, and
  leaves all files as they are.
\<close>

theorem torn_segment_blocks_rotation:
  assumes "faultless F" and "holds_lines path d" and "envelopes_at path d \<noteq> []" and "ValidateChain (envelopes_at path d) = None"
    and "sealed = f_join F coldDir (segment_name (envelopes_at path d))" and "files d sealed = None"
  shows "(files d)(sealed := Some ''{'') \<in> set (past (snd (RotateSegment F path coldDir d))) \<and>
    (\<forall>F' d1. f_join F' = f_join F \<and> files d1 = (files d)(sealed := Some ''{'') \<longrightarrow>
      (\<exists>e d2. RotateSegment F' path coldDir d1 = (Inl e, d2) \<and> files d2 = files d1))"
proof -
  let ?envs = "envelopes_at path d" and ?hot = "lines_of (envelopes_at path d)"
  note hot = holds_files [OF assms(2,3)] holds_read [OF assms(2)]
  obtain rest where rest: "?hot = CHR ''{'' # rest"
    using lines_front [of ?envs] assms(2,3) by (auto simp: holds_lines_def)
  from rotate_faultless [OF assms(1) hot assms(3-6)] obtain d' where
    d': "RotateSegment F path coldDir d = (Inr sealed, d')"
      "\<And>n. n \<le> length ?hot \<Longrightarrow> (files d)(sealed := Some (take n ?hot)) \<in> set (past d')" by auto
  have "path \<noteq> sealed" using hot(1) assms(6) by auto
  then have "\<exists>e d2. RotateSegment F' path coldDir d1 = (Inl e, d2) \<and> files d2 = files d1"
    if "f_join F' = f_join F" "files d1 = (files d)(sealed := Some ''{'')" for F' d1
    using unreadable_segment_refused [of d1 path ?hot ?envs F' coldDir "''{''"] that hot brace_unreadable
    by (simp add: assms(5))
  then show ?thesis using d'(1) d'(2) [of 1] by (simp add: rest)
qed

definition demo_line :: ChainEnvelope where
  "demo_line = emitted (NewChainSink ''control'') 5000000000 demo_act"

definition demo_disk :: disk where
  "demo_disk = \<lparr>files = [''a'' \<mapsto> lines_of [demo_line]], calls = 0, past = []\<rparr>"

lemma demo_sink: "digest_hex (priorTip (NewChainSink ''control''))" "sk_source (NewChainSink ''control'') = ''control''"
  by (simp_all add: NewChainSink_def digest_hex_genesis)

lemma demo_disk_holds: "holds_lines ''a'' demo_disk" "envelopes_at ''a'' demo_disk = [demo_line]"
proof -
  have "list_all fits [demo_line]"
    using emitted_fits [OF demo_sink demo_act_length] by (simp add: demo_line_def)
  then show "holds_lines ''a'' demo_disk" "envelopes_at ''a'' demo_disk = [demo_line]"
    using holds_linesI [of "[demo_line]" "''a''" demo_disk] by (simp_all add: demo_disk_def content_def)
qed

lemma demo_line_valid: "ValidateChain [demo_line] = None"
  using emitted_hash [OF demo_sink(1), of 5000000000 demo_act] ValidateChain_snoc [of "[]" demo_line]
  by (simp add: check_envelope_None check_link_def demo_line_def NewChainSink_def)

lemma faultless_healthy: "faultless healthy"
  by (simp add: faultless_def healthy_def)

lemma demo_sealed: "f_join healthy ''c'' x \<noteq> ''a''"
  by (simp add: healthy_def)

theorem torn_segment_blocks_rotation_witness:
  "let sealed = f_join healthy ''c'' (segment_name [demo_line]); torn = (files demo_disk)(sealed := Some ''{'') in
   torn \<in> set (past (snd (RotateSegment healthy ''a'' ''c'' demo_disk))) \<and>
   (\<exists>e d2. RotateSegment healthy ''a'' ''c'' \<lparr>files = torn, calls = 0, past = []\<rparr> = (Inl e, d2) \<and> files d2 = torn)"
  using torn_segment_blocks_rotation [OF faultless_healthy demo_disk_holds(1), of _ "''c''"] demo_line_valid demo_sealed
  by (simp add: demo_disk_holds(2) Let_def) (simp add: demo_disk_def)

theorem rotation_keeps_events_witness:
  "let sealed = f_join healthy ''c'' (segment_name [demo_line]); (r, d') = RotateSegment healthy ''a'' ''c'' demo_disk in
   r = Inr sealed \<and> through (rotation_state ''a'' sealed (lines_of [demo_line]) [demo_line] (files demo_disk)) demo_disk d' \<and>
   files d' ''a'' = Some '''' \<and> archived [demo_line] (files d' sealed)"
proof -
  have f: "files demo_disk ''a'' = Some (lines_of [demo_line])" by (simp add: demo_disk_def)
  have r: "read_lines (split_lines [] (lines_of [demo_line])) = Inr [demo_line]"
    using holds_read [OF demo_disk_holds(1)] by (simp add: demo_disk_holds(2))
  let ?sealed = "f_join healthy ''c'' (segment_name [demo_line])"
  have n: "files demo_disk ?sealed = None" using demo_sealed by (simp add: demo_disk_def)
  obtain d' where d': "RotateSegment healthy ''a'' ''c'' demo_disk = (Inr ?sealed, d')"
    using rotate_faultless [OF faultless_healthy f r _ demo_line_valid refl n] by auto
  from rotation_keeps_events [OF f r demo_sealed [symmetric] d'] d' show ?thesis by simp
qed

subsection \<open>Boots\<close>

text \<open>A boot over a file that reads but is no valid chain aborts, whatever the outside answers.\<close>

lemma rotate_invalid:
  assumes "files d p = Some t" and "read_lines (split_lines [] t) = Inr envs" and "ValidateChain envs \<noteq> None"
  shows "\<exists>e d'. RotateSegment F p coldDir d = (Inl e, d') \<and> files d' = files d"
  using assms by (auto simp: RotateSegment_def ReadChainFile_def split: option.splits)

lemma first_event_frame: "firstEventTime F p d = (r, d') \<Longrightarrow> files d' = files d"
  by (auto simp: firstEventTime_def dest: read_chain_frame split: prod.splits sum.splits if_splits option.splits)

lemma boot_rotation_invalid:
  assumes "files d p = Some t" and "read_lines (split_lines [] t) = Inr envs" and "ValidateChain envs \<noteq> None"
  shows "files (snd (rotateAuditAtBoot F p coldDir now d)) = files d"
proof -
  have due: "files (snd (RotateIfDue F pol p coldDir at now d1)) = files d" if "files d1 = files d" for pol at d1
    using rotate_invalid [of d1 p t envs F coldDir] that assms(1-3)
    by (auto simp: RotateIfDue_def split: option.splits)
  obtain x d1 where x: "firstEventTime F p d = (x, d1)" by (cases "firstEventTime F p d")
  then have f1: "files d1 = files d" by (rule first_event_frame)
  show ?thesis using x f1 due [OF f1] by (simp add: rotateAuditAtBoot_def split: sum.split)
qed

lemma close_frame [simp]: "files (snd (snd (local_Close F (w, d)))) = files d"
  by (cases w) (auto simp: FileSink_Close_def split: prod.splits)

lemma writer_frame:
  assumes "files d p \<noteq> None"
  shows "files (snd (buildAuditWriter F p central d)) = files d"
  using assms by (auto simp: buildAuditWriter_def buildLocalAuditWriter_def OpenFileSink_def
      simp del: local_Close.simps split: sum.split option.split)

lemma boot_refuses_invalid:
  assumes "files d p = Some t" and "read_lines (split_lines [] t) = Inr envs" and "ValidateChain envs \<noteq> None"
    and "\<not> auditSinkNone p"
  shows "\<exists>e d'. audit_boot F central c now p coldDir d = (Inl e, d')"
proof -
  obtain x d1 where x: "rotateAuditAtBoot F p coldDir now d = (x, d1)" by (cases "rotateAuditAtBoot F p coldDir now d")
  have f1: "files d1 = files d" using boot_rotation_invalid [OF assms(1-3), of F coldDir now] x by simp
  obtain y d2 where y: "buildAuditWriter F p central d1 = (y, d2)" by (cases "buildAuditWriter F p central d1")
  have f2: "files d2 p = Some t" using writer_frame [of d1 p F central] y f1 assms(1) by simp
  have "\<exists>e st. buildResumedChainSink F pub c now p res ((w, d2), n) = (Inl e, st)" for pub res w n
    using f2 assms(2-4)
    by (auto simp: buildResumedChainSink_def verifyAuditChainFile_def ReadChainFile_def split: option.splits)
  note sink = this
  show ?thesis
  proof (cases "\<exists>res w pub. x = Inr res \<and> y = Inr (w, pub)")
    case True
    then obtain res w pub where r: "x = Inr res" "y = Inr (w, pub)" by blast
    obtain e w' d' n where "buildResumedChainSink F pub c now p res ((w, d2), 0) = (Inl e, (w', d'), n)"
      using sink [of pub res w 0] by auto
    then show ?thesis using x y r by (simp add: audit_boot_def)
  next
    case False
    then show ?thesis using x y by (auto simp: audit_boot_def split: sum.split)
  qed
qed

text \<open>A path that is free or holds a valid chain, and errors of the system that are not the package's own.\<close>

definition valid_at :: "string \<Rightarrow> disk \<Rightarrow> bool" where
  "valid_at p d =
     (case files d p of None \<Rightarrow> True
      | Some t \<Rightarrow> (case read_lines (split_lines [] t) of Inl e \<Rightarrow> False
                  | Inr envs \<Rightarrow> ValidateChain envs = None \<and> length envs < 2 ^ 64))"

definition os_errors :: "faults \<Rightarrow> bool" where
  "os_errors F \<longleftrightarrow> (\<forall>k e. f_open F k = Some e \<or> f_read F k = Some e \<longrightarrow> ErrTipDecoupled \<notin> set e)"

lemma read_tip_no_break:
  assumes "valid_at p d" and "os_errors F" and "ReadTip F p d = (r, d')"
  shows "files d' = files d \<and> (\<forall>e. r = Inl e \<longrightarrow> ErrTipDecoupled \<notin> set e)"
proof (cases "files d p")
  case None
  then show ?thesis using assms(2,3) by (auto simp: ReadTip_def os_errors_def split: option.splits)
next
  case (Some t)
  then obtain envs where "read_lines (split_lines [] t) = Inr envs" "ValidateChain envs = None" "length envs < 2 ^ 64"
    using assms(1) by (auto simp: valid_at_def split: sum.splits)
  from read_tip_valid [OF Some this, of F] show ?thesis
    using assms(2,3) by (auto simp: os_errors_def split: option.splits)
qed

lemma verify_valid:
  assumes "verifyAuditChainFile F p d = (Inr u, d')"
    and "\<And>t envs. files d p = Some t \<Longrightarrow> read_lines (split_lines [] t) = Inr envs \<Longrightarrow> length envs < 2 ^ 64"
  shows "valid_at p d'" and "files d' = files d"
proof -
  obtain x d1 where x: "ReadChainFile F p d = (x, d1)" by (cases "ReadChainFile F p d")
  then obtain envs where e: "x = Inr envs" "ValidateChain envs = None" "d' = d1"
    using assms(1) by (auto simp: verifyAuditChainFile_def split: sum.splits option.splits)
  have f: "files d1 = files d" using read_chain_frame [OF x] by simp
  then show "files d' = files d" using e(3) by simp
  show "valid_at p d'"
    using read_chain_Inr [of F p d envs d1] x e f assms(2) by (auto simp: valid_at_def split: option.splits)
qed

lemma resume_tip_no_break:
  assumes "valid_at p d" and "Rotated res \<Longrightarrow> valid_at (SegmentPath res) d" and "os_errors F"
    and "resumeTipAfterBootRotation F p res d = (r, d')"
  shows "files d' = files d \<and> (\<forall>e. r = Inl e \<longrightarrow> ErrTipDecoupled \<notin> set e)"
proof -
  obtain x d1 where x: "ReadTip F p d = (x, d1)" by (cases "ReadTip F p d")
  note hot = read_tip_no_break [OF assms(1,3) x]
  obtain y d2 where y: "ReadTip F (SegmentPath res) d1 = (y, d2)" by (cases "ReadTip F (SegmentPath res) d1")
  have "files d2 = files d1 \<and> (\<forall>e. y = Inl e \<longrightarrow> ErrTipDecoupled \<notin> set e)" if "Rotated res"
    using read_tip_no_break [OF _ assms(3) y] assms(2) [OF that] hot by (simp add: valid_at_def)
  then show ?thesis
    using assms(4) x y hot
    by (auto simp: resumeTipAfterBootRotation_def ResumeTipAfterRotation_def split: if_splits sum.splits)
qed

text \<open>
  C37: the marked re-anchor of a torn trail is never taken. As long as the errors of the operating
  system are not the package's own and no file holds \<open>2\<^sup>6\<^sup>4\<close> envelopes, resuming the chain at boot
  writes nothing at all: a tail that could not be resumed has already failed the check of the whole
  file, which aborts. A rotated boot reads its segment, which the rotation left valid.
\<close>

theorem chain_break_never_recorded:
  assumes "os_errors F" and "Rotated res \<Longrightarrow> valid_at (SegmentPath res) d"
    and "\<And>t envs. files d p = Some t \<Longrightarrow> read_lines (split_lines [] t) = Inr envs \<Longrightarrow> length envs < 2 ^ 64"
    and "buildResumedChainSink F pub c now p res ((w, d), n) = (r, (w', d'), n')"
  shows "w' = w \<and> n' = n \<and> files d' = files d"
proof (cases "auditSinkNone p")
  case True
  then show ?thesis using assms(4) by (simp add: buildResumedChainSink_def)
next
  case False
  obtain x d1 where x: "verifyAuditChainFile F p d = (x, d1)" by (cases "verifyAuditChainFile F p d")
  show ?thesis
  proof (cases x)
    case (Inl e)
    then have "files d1 = files d"
      using x by (auto simp: verifyAuditChainFile_def dest: read_chain_frame split: prod.splits sum.splits option.splits)
    then show ?thesis using assms(4) x False Inl by (simp add: buildResumedChainSink_def)
  next
    case (Inr u)
    note v = verify_valid [OF x [unfolded Inr] assms(3)]
    obtain y d2 where y: "resumeTipAfterBootRotation F p res d1 = (y, d2)"
      by (cases "resumeTipAfterBootRotation F p res d1")
    have seg: "Rotated res \<Longrightarrow> valid_at (SegmentPath res) d1" using assms(2) v(2) by (simp add: valid_at_def)
    from resume_tip_no_break [OF v(1) seg assms(1) y] assms(4) x y False Inr v(2) show ?thesis
      by (auto simp: buildResumedChainSink_def split: sum.splits)
  qed
qed

theorem chain_break_never_recorded_witness:
  "let res = \<lparr>Rotated = True, SegmentPath = ''a'', Events = 1, SegFirst = 1, SegLast = 1\<rparr>;
       (r, (w, d'), n) = buildResumedChainSink healthy None False 5 ''b'' res ((NullWriter, demo_disk), 0) in
   w = NullWriter \<and> n = 0 \<and> files d' = files demo_disk"
proof -
  let ?res = "\<lparr>Rotated = True, SegmentPath = ''a'', Events = 1, SegFirst = 1, SegLast = 1\<rparr>"
  obtain r w d' n where eq: "buildResumedChainSink healthy None False 5 ''b'' ?res ((NullWriter, demo_disk), 0) = (r, (w, d'), n)"
    by (metis surj_pair)
  have "os_errors healthy" by (simp add: os_errors_def healthy_def)
  moreover have "valid_at ''a'' demo_disk"
    using holds_read [OF demo_disk_holds(1)] demo_line_valid
    by (simp add: valid_at_def demo_disk_def demo_disk_holds(2) [unfolded demo_disk_def])
  moreover have "files demo_disk ''b'' = None" by (simp add: demo_disk_def)
  ultimately show ?thesis
    using chain_break_never_recorded [OF _ _ _ eq] eq by (simp add: Let_def)
qed

text \<open>What a rotating boot leaves: an empty hot file, and a segment with the events that were in it.\<close>

lemma rotated_boot:
  assumes "holds_lines p d" and "p \<noteq> f_join F coldDir (segment_name (envelopes_at p d))"
    and "rotateAuditAtBoot F p coldDir now d = (Inr res, dr)" and "Rotated res"
  shows "files dr p = Some ''''" and "SegmentPath res = f_join F coldDir (segment_name (envelopes_at p d))"
    and "archived (envelopes_at p d) (files dr (SegmentPath res))" and "envelopes_at p d \<noteq> []"
proof -
  let ?envs = "envelopes_at p d"
  obtain x d1 where x: "firstEventTime F p d = (x, d1)" by (cases "firstEventTime F p d")
  have f1: "files d1 = files d" using first_event_frame [OF x] .
  from assms(3,4) x obtain at pol where due: "RotateIfDue F (Some pol) p coldDir at now d1 = (Inr res, dr)"
    by (auto simp: rotateAuditAtBoot_def zeroResult_def split: if_splits sum.splits)
  obtain y d2 where y: "RotateSegment F p coldDir d1 = (y, d2)" by (cases "RotateSegment F p coldDir d1")
  with due assms(4) obtain s where s: "y = Inr s" "SegmentPath res = s" "files dr = files d2"
    by (auto simp: RotateIfDue_def zeroResult_def dest: read_chain_frame split: if_splits sum.splits prod.splits)
  obtain z d3 where z: "ReadChainFile F p d1 = (z, d3)" by (cases "ReadChainFile F p d1")
  with y s(1) obtain envs where e: "z = Inr envs" "envs \<noteq> []" by (auto simp: RotateSegment_def split: sum.splits if_splits)
  obtain hot where hot: "files d1 p = Some hot"
    using read_chain_Inr [of F p d1 envs d3] z e by (cases "files d1 p") auto
  have read: "read_lines (split_lines [] hot) = Inr ?envs"
    using assms(1) hot f1 holds_read [OF assms(1)] by (simp add: holds_lines_def content_def)
  then show "?envs \<noteq> []" using read_chain_Inr [of F p d1 envs d3] z e hot by simp
  from rotation_keeps_events [OF hot read assms(2) y] s
  show "files dr p = Some ''''" "SegmentPath res = f_join F coldDir (segment_name ?envs)"
    "archived ?envs (files dr (SegmentPath res))" by auto
qed

lemma read_empty: "read_lines (split_lines [] '''') = Inr []" by simp

lemma default_policy: "\<exists>pol. NewPolicy \<lparr>CfFloor = 0, CfHotWindow = 0\<rparr> = Inr pol"
  by (simp add: NewPolicy_def DefaultFloor_def DefaultHotWindow_def year_def hour_def)

text \<open>Resuming over an empty hot file: from the segment after a rotation, at genesis otherwise.\<close>

lemma resume_empty:
  assumes "faultless F" and "files d p = Some ''''" and "\<not> auditSinkNone p"
    and "Rotated res \<Longrightarrow> archived envs (files d (SegmentPath res))" and "envs \<noteq> []" and "length envs < 2 ^ 64"
  shows "\<exists>s d'. buildResumedChainSink F pub c now p res ((w, d), n) = (Inr s, (w, d'), n) \<and> files d' = files d \<and>
    s = (if Rotated res then \<lparr>sk_source = ''control'', lastSeq = of_nat (length envs), priorTip = tip_hash envs\<rparr>
         else NewChainSink ''control'')"
proof -
  have hot: "ReadTip F p d1 = (Inr genesisTip, tick (tick d1))" if "files d1 = files d" for d1
    using read_tip_valid [of d1 p "''''" "[]" F] that assms(1,2) by (simp add: faultless_simps chain_tip_def)
  have v: "verifyAuditChainFile F p d = (Inr (), tick (tick d))"
    using read_faultless [OF assms(1,2) read_empty] by (simp add: verifyAuditChainFile_def)
  show ?thesis
  proof (cases "Rotated res")
    case False
    then show ?thesis
      using v hot [of "tick (tick d)"] assms(3)
      by (simp add: buildResumedChainSink_def resumeTipAfterBootRotation_def ResumeChainSink_def genesisTip_def
          NewChainSink_def auditChainSource_def)
  next
    case True
    then obtain t envs' where seg: "files d (SegmentPath res) = Some t" "read_lines (split_lines [] t) = Inr envs'"
        "map Hash envs' = map Hash envs" "ValidateChain envs' = None"
      using assms(4) by (auto simp: archived_def split: option.splits sum.splits)
    then have len: "length envs' = length envs" by (metis length_map)
    then have ne: "envs' \<noteq> []" using assms(5) by auto
    have tip: "ReadTip F (SegmentPath res) d1 = (Inr (chain_tip envs'), tick (tick d1))" if "files d1 = files d" for d1
      using read_tip_valid [of d1 "SegmentPath res" t envs' F] that seg len assms(1,6) by (simp add: faultless_simps)
    have "Hash (last envs') = tip_hash envs"
      using seg(3) ne assms(5) by (metis last_map tip_hash_def)
    then show ?thesis
      using v hot [of "tick (tick d)"] tip [of "tick (tick (tick (tick d)))"] assms(3) True ne
        last_validated(2) [OF seg(4) ne] len
      by (simp add: buildResumedChainSink_def resumeTipAfterBootRotation_def ResumeTipAfterRotation_def
          ResumeChainSink_def genesisTip_def chain_tip_def auditChainSource_def)
  qed
qed

lemma writer_faultless:
  assumes "faultless F" and "files d p \<noteq> None" and "p \<noteq> ''''" and "\<not> auditSinkNone p"
  shows "buildAuditWriter F p None d = (Inr (FileWriter \<lparr>fs_path = p, fs_closed = False\<rparr>, None), tick d)"
  using assms by (auto simp: buildAuditWriter_def buildLocalAuditWriter_def OpenFileSink_def faultless_simps)

lemma archived_digest:
  assumes "archived envs f"
  shows "digest_hex (tip_hash envs)"
proof -
  obtain envs' where e: "map Hash envs' = map Hash envs" "ValidateChain envs' = None"
    using assms by (auto simp: archived_def split: option.splits sum.splits)
  then have "tip_hash envs' = tip_hash envs"
    by (metis (no_types, lifting) last_map map_is_Nil_conv tip_hash_def)
  then show ?thesis using tip_digest [OF e(2)] by simp
qed

text \<open>A boot over an empty hot file that does not rotate starts over at genesis.\<close>

lemma quiet_boot:
  assumes "faultless F" and "files d p = Some ''''" and "p \<noteq> ''''" and "\<not> auditSinkNone p" and "0 \<le> now"
  shows "\<exists>d'. audit_boot F None c now p coldDir d =
    (Inr (NewChainSink ''control'', FileWriter \<lparr>fs_path = p, fs_closed = False\<rparr>, None), d')"
proof -
  have read: "ReadChainFile F p d = (Inr [], tick (tick d))" by (rule read_faultless [OF assms(1,2) read_empty])
  obtain pol where pol: "NewPolicy \<lparr>CfFloor = 0, CfHotWindow = 0\<rparr> = Inr pol" using default_policy by blast
  have "\<exists>d1. rotateAuditAtBoot F p coldDir now d = (Inr zeroResult, d1) \<and> files d1 = files d"
    using read pol assms(4,5)
    by (simp add: rotateAuditAtBoot_def firstEventTime_def RotateIfDue_def Policy_ShouldRotate_def)
  then obtain d1 where d1: "rotateAuditAtBoot F p coldDir now d = (Inr zeroResult, d1)" "files d1 p = Some ''''"
    using assms(2) by auto
  have "\<not> Rotated zeroResult" by (simp add: zeroResult_def)
  then obtain d2 where "buildResumedChainSink F None c now p zeroResult
      ((FileWriter \<lparr>fs_path = p, fs_closed = False\<rparr>, tick d1), 0) =
      (Inr (NewChainSink ''control''), (FileWriter \<lparr>fs_path = p, fs_closed = False\<rparr>, d2), 0)"
    using resume_empty [of F "tick d1" p zeroResult "[demo_line]" None c now] assms(1,4) d1(2) by fastforce
  then show ?thesis using d1 writer_faultless [of F d1 p] assms(1,3,4) by (simp add: audit_boot_def)
qed

text \<open>
  C9: what follows a rotating boot. Take a daemon that boots over a valid file of envelopes and
  rotates it, with no fault anywhere. Its sink continues the sequence of the sealed segment. But a
  second boot before any event starts again at sequence one, silently; and as soon as one event has
  been recorded, every later boot is refused, under whatever answers and configuration, because the
  check of the hot file demands that it begin with sequence one.
\<close>

theorem boots_after_rotation:
  assumes "faultless F" and "holds_lines p d" and "length (envelopes_at p d) < 2 ^ 64"
    and "p \<noteq> ''''" and "\<not> auditSinkNone p" and "p \<noteq> f_join F coldDir (segment_name (envelopes_at p d))"
    and "rotateAuditAtBoot F p coldDir now d = (Inr res, dr)" and "Rotated res"
  shows "\<exists>s d1. audit_boot F None c now p coldDir d = (Inr (s, FileWriter \<lparr>fs_path = p, fs_closed = False\<rparr>, None), d1) \<and>
    lastSeq s = of_nat (length (envelopes_at p d)) \<and> priorTip s = tip_hash (envelopes_at p d) \<and>
    (\<forall>c' now' coldDir'. 0 \<le> now' \<longrightarrow>
      (\<exists>w d2. audit_boot F None c' now' p coldDir' d1 = (Inr (NewChainSink ''control'', w, None), d2))) \<and>
    (\<forall>t rec. length (canonicalize (buildEvent t rec)) < maxEventLen \<longrightarrow>
      (\<exists>s2 w2 d2. ChainSink_Emit (auditWriter_Write F None) False t rec
          (s, (FileWriter \<lparr>fs_path = p, fs_closed = False\<rparr>, d1), 0) = (None, s2, (w2, d2), 0) \<and>
        (\<forall>F' central c' now' coldDir'. \<exists>e d3. audit_boot F' central c' now' p coldDir' d2 = (Inl e, d3))))"
proof -
  let ?w = "FileWriter \<lparr>fs_path = p, fs_closed = False\<rparr>" and ?envs = "envelopes_at p d"
  note rot = rotated_boot [OF assms(2,6-8)]
  define s where "s = \<lparr>sk_source = ''control'', lastSeq = of_nat (length ?envs), priorTip = tip_hash ?envs\<rparr>"
  obtain d1 where d1: "buildResumedChainSink F None c now p res ((?w, tick dr), 0) = (Inr s, (?w, d1), 0)"
      "files d1 p = Some ''''"
    using resume_empty [of F "tick dr" p res ?envs None c now ?w 0] assms(1,3,5,8) rot by (auto simp: s_def)
  have boot: "audit_boot F None c now p coldDir d = (Inr (s, ?w, None), d1)"
    using assms(7) writer_faultless [of F dr p] rot(1) assms(1,4,5) d1(1) by (simp add: audit_boot_def)
  have empty: "holds_lines p d1" "envelopes_at p d1 = []"
    using holds_linesI [of "[]" p d1] d1(2) by (simp_all add: content_def lines_of_def)
  have "\<exists>s2 w2 d2. ChainSink_Emit (auditWriter_Write F None) False t rec (s, (?w, d1), 0) = (None, s2, (w2, d2), 0) \<and>
        (\<forall>F' central c' now' coldDir'. \<exists>e d3. audit_boot F' central c' now' p coldDir' d2 = (Inl e, d3))"
    if "length (canonicalize (buildEvent t rec)) < maxEventLen" for t rec
  proof -
    have dig: "digest_hex (priorTip s)" "sk_source s = ''control''"
      using archived_digest [OF rot(3)] by (simp_all add: s_def)
    from write_line [OF empty(1) emitted_fits [OF dig that], of F] assms(1) empty(2) obtain d2 where
      d2: "FileSink_Write F False (emitted s t rec) (\<lparr>fs_path = p, fs_closed = False\<rparr>, d1) =
          (None, \<lparr>fs_path = p, fs_closed = False\<rparr>, d2)" "holds_lines p d2" "envelopes_at p d2 = [emitted s t rec]"
      by (auto simp: faultless_simps)
    have "Sequence (emitted s t rec) \<noteq> 1"
      using assms(3) rot(4) by (simp add: s_def word_of_nat_eq_0_iff nat_dvd_not_less)
    then have bad: "ValidateChain (envelopes_at p d2) \<noteq> None"
      using ValidateChain_snoc [of "[]" "emitted s t rec"] d2(3) by (simp add: check_envelope_None)
    have "\<exists>e d3. audit_boot F' central c' now' p coldDir' d2 = (Inl e, d3)" for F' central c' now' coldDir'
      using boot_refuses_invalid [OF holds_files [OF d2(2)] holds_read [OF d2(2)] bad assms(5)] d2(3) by simp
    then show ?thesis using d2(1) by (simp add: emit_eq [OF dig(1)] auditWriter_Write_def)
  qed
  then show ?thesis
    using boot quiet_boot [OF assms(1) d1(2) assms(4,5)] by (intro exI [of _ s] exI [of _ d1]) (simp add: s_def, blast)
qed

text \<open>The time a rotation reads is the time the event was stamped with, to the millisecond.\<close>

lemma event_time:
  assumes "is_int64 (EvTime ev)"
  shows "decode_struct time_field 0 (canonicalize ev) = Some (EvTime ev)"
proof -
  let ?m = "map (\<lambda>(k, v). (k, json_print v, json_norm v))"
  let ?pre = "take 5 (event_fields ev)"
  let ?post = "drop 6 (event_fields ev) @
    omit_none (ChainBreak ev) ''chain_break'' (\<lambda>x. JObj [(''observed_prior_tip'', JStr x)])"
  have split: "event_fields ev @ omit_none (ChainBreak ev) ''chain_break'' (\<lambda>x. JObj [(''observed_prior_tip'', JStr x)]) =
      ?pre @ [(''time'', jint (EvTime ev))] @ ?post"
    by (simp add: event_fields_def)
  have pre: "decode_members time_field (?m ?pre) x = Some x" for x
    by (rule decode_members_skip) (auto simp: time_field_def event_fields_def)
  have post: "decode_members time_field (?m ?post) x = Some x" for x
    by (rule decode_members_skip)
      (auto simp: time_field_def event_fields_def omit_none_def omitempty_def split: option.splits if_splits)
  have "json_ok (JObj (?pre @ [(''time'', jint (EvTime ev))] @ ?post))"
    using json_ok_event [of ev] unfolding OCSFEvent_json_def split .
  from decode_struct_print [OF this, of time_field 0]
  have "decode_struct time_field 0 (canonicalize ev) =
      decode_members time_field (?m (?pre @ [(''time'', jint (EvTime ev))] @ ?post)) 0"
    unfolding canonicalize_def OCSFEvent_json_def split .
  also have "\<dots> = Some (EvTime ev)"
    unfolding map_append decode_members_append pre option.case
    using assms post [of "EvTime ev"] by (simp add: time_field_def decode_members_append)
  finally show ?thesis .
qed

lemma demo_line_time: "decode_struct time_field 0 (Event demo_line) = Some (- 62135596795000)"
proof -
  have t: "EvTime (buildEvent 5000000000 demo_act) = - 62135596795000"
    by (simp add: buildEvent_def demo_act_def Let_def UnixMilli_def nanosPerSecond_def wrap64_def)
  then have "is_int64 (EvTime (buildEvent 5000000000 demo_act))" by (simp add: int64_min_def int64_max_def)
  from event_time [OF this] t show ?thesis by (simp add: demo_line_def)
qed

lemma demo_rotates:
  "\<exists>res dr. rotateAuditAtBoot healthy ''a'' ''c'' (101 * 24 * hour) demo_disk = (Inr res, dr) \<and> Rotated res"
proof -
  let ?sealed = "f_join healthy ''c'' (segment_name [demo_line])"
  have f: "files demo_disk ''a'' = Some (lines_of [demo_line])" by (simp add: demo_disk_def)
  have r: "read_lines (split_lines [] (lines_of [demo_line])) = Inr [demo_line]"
    using holds_read [OF demo_disk_holds(1)] by (simp add: demo_disk_holds(2))
  have n: "files demo_disk ?sealed = None" using demo_sealed by (simp add: demo_disk_def)
  define d1 where "d1 = tick (tick demo_disk)"
  have first: "firstEventTime healthy ''a'' demo_disk = (Inr 5000000000, d1)"
    using read_faultless [OF faultless_healthy f r] demo_line_time
    by (simp add: firstEventTime_def d1_def time_UnixMilli_def nanosPerSecond_def)
  obtain d2 where d2: "RotateSegment healthy ''a'' ''c'' d1 = (Inr ?sealed, d2)"
      "files d2 = (files d1)(?sealed := Some (lines_of [demo_line]), ''a'' := Some '''')"
    using rotate_faultless [OF faultless_healthy _ r _ demo_line_valid refl, of d1 "''a''" "''c''"] f n
    by (auto simp: d1_def)
  have "files d2 ?sealed = Some (lines_of [demo_line])" using d2(2) demo_sealed by simp
  from read_faultless [OF faultless_healthy this r]
  have "\<exists>res dr. RotateIfDue healthy (Some \<lparr>po_floor = DefaultFloor, po_hotWindow = DefaultHotWindow\<rparr>) ''a'' ''c'' 5000000000
      (101 * 24 * hour) d1 = (Inr res, dr) \<and> Rotated res"
    using d2(1) by (simp add: RotateIfDue_def Policy_ShouldRotate_def hour_def DefaultHotWindow_def time_Sub_def int64_max_def int64_min_def)
  moreover have "NewPolicy \<lparr>CfFloor = 0, CfHotWindow = 0\<rparr> = Inr \<lparr>po_floor = DefaultFloor, po_hotWindow = DefaultHotWindow\<rparr>"
    by (simp add: NewPolicy_def DefaultFloor_def DefaultHotWindow_def year_def hour_def)
  ultimately show ?thesis using first by (simp add: rotateAuditAtBoot_def auditSinkNone_def to_lower_def)
qed

theorem boots_after_rotation_witness:
  "\<exists>s d1 s2 w2 d2. audit_boot healthy None False (101 * 24 * hour) ''a'' ''c'' demo_disk =
      (Inr (s, FileWriter \<lparr>fs_path = ''a'', fs_closed = False\<rparr>, None), d1) \<and> lastSeq s = 1 \<and>
    ChainSink_Emit (auditWriter_Write healthy None) False 5000000000 demo_act
      (s, (FileWriter \<lparr>fs_path = ''a'', fs_closed = False\<rparr>, d1), 0) = (None, s2, (w2, d2), 0) \<and>
    (\<exists>e d3. audit_boot healthy None False (102 * 24 * hour) ''a'' ''c'' d2 = (Inl e, d3))"
proof -
  obtain res dr where rot: "rotateAuditAtBoot healthy ''a'' ''c'' (101 * 24 * hour) demo_disk = (Inr res, dr)" "Rotated res"
    using demo_rotates by blast
  have *: "length (envelopes_at ''a'' demo_disk) < 2 ^ 64" "\<not> auditSinkNone ''a''"
      "''a'' \<noteq> f_join healthy ''c'' (segment_name (envelopes_at ''a'' demo_disk))"
    using demo_sealed [symmetric] by (simp_all add: demo_disk_holds(2) auditSinkNone_def to_lower_def)
  from boots_after_rotation [OF faultless_healthy demo_disk_holds(1) *(1) _ *(2,3) rot, of False]
  show ?thesis using demo_act_length by (simp add: demo_disk_holds(2)) blast
qed

subsection \<open>Deletion\<close>

text \<open>
  C29: the retention policy admits a deletion exactly when the record has a write time and has been
  kept for the whole floor, at any distance of the two instants, and the floor is never under seven
  years of 365 days. A record that may be deleted was due for rotation before.
\<close>

theorem may_delete_exact:
  assumes "NewPolicy cfg = Inr p" and "CfFloor cfg \<le> int64_max"
  shows "(Policy_MayDelete p writtenAt now = None \<longleftrightarrow> writtenAt \<noteq> 0 \<and> po_floor p \<le> now - writtenAt) \<and>
    7 * 365 * 86400 * 1000000000 \<le> po_floor p \<and>
    (Policy_MayDelete p writtenAt now = None \<longrightarrow> Policy_ShouldRotate p writtenAt now)"
proof -
  have floor: "DefaultFloor \<le> po_floor p" "po_floor p \<le> int64_max" "po_hotWindow p < po_floor p"
    using assms by (auto simp: NewPolicy_def Let_def DefaultFloor_def year_def hour_def int64_max_def split: if_splits)
  then have "0 < po_floor p" by (simp add: DefaultFloor_def year_def hour_def)
  with floor show ?thesis
    by (auto simp: Policy_MayDelete_def Policy_ShouldRotate_def time_Sub_def DefaultFloor_def year_def hour_def
        int64_min_def)
qed

theorem may_delete_exact_witness:
  "\<exists>p. NewPolicy \<lparr>CfFloor = 0, CfHotWindow = 0\<rparr> = Inr p \<and> Policy_MayDelete p 1 (DefaultFloor + 1) = None \<and>
     Policy_MayDelete p 1 DefaultFloor \<noteq> None"
proof -
  define p where "p = \<lparr>po_floor = DefaultFloor, po_hotWindow = DefaultHotWindow\<rparr>"
  have p: "NewPolicy \<lparr>CfFloor = 0, CfHotWindow = 0\<rparr> = Inr p"
    by (simp add: NewPolicy_def DefaultFloor_def DefaultHotWindow_def year_def hour_def p_def)
  show ?thesis
    using p may_delete_exact [OF p, of 1 "DefaultFloor + 1"] may_delete_exact [OF p, of 1 DefaultFloor]
    by (simp add: p_def int64_max_def)
qed

end
