(* ===== verification/Sha256_Test.thy ===== *)
theory Sha256_Test
  imports Sha256
begin

text \<open>The defined hash on the one-block example message of the standard, evaluated by the kernel.\<close>

lemma sha256_abc:
  "hex_encode (sha256 ''abc'') = ''ba7816bf8f01cfea414140de5dae2223b00361a396177a9cb410ff61f20015ad''"
  by code_simp

end
