(* ===== verification/Admit_Gate.thy ===== *)
theory Admit_Gate
  imports Ctl_Prelude
begin

text \<open>
  The ingress shapers of \<open>internal/admit\<close>: the two-pool admission gate (\<open>admit.go\<close>), whose channels
  are counters of held slots, and the per-caller request limiter (\<open>rate.go\<close>), whose mutex makes
  each call one step. \<open>Acquire\<close> is a \<open>select\<close>: the model returns every outcome the select may
  choose at an instant, and no outcome when the call blocks.
\<close>

subsection \<open>The admission gate\<close>

datatype Class = ClassGeneral | ClassPriority

text \<open>A buffered channel of capacity \<open>cap\<close> used as a semaphore: the number of values in it.\<close>

record Gate =
  general_cap :: int
  general_held :: int
  reserved_cap :: int
  reserved_held :: int

definition NewGate :: "int \<Rightarrow> int \<Rightarrow> Gate" where
  "NewGate general reserved =
     \<lparr>general_cap = (if general < 0 then 0 else general), general_held = 0,
      reserved_cap = (if reserved < 0 then 0 else reserved), reserved_held = 0\<rparr>"

datatype slot = GeneralSlot | ReservedSlot

fun send_slot :: "slot \<Rightarrow> Gate \<Rightarrow> (slot option \<times> Gate) list" where
  "send_slot GeneralSlot g =
     (if general_held g < general_cap g
      then [(Some GeneralSlot, g\<lparr>general_held := general_held g + 1\<rparr>)] else [])"
| "send_slot ReservedSlot g =
     (if reserved_held g < reserved_cap g
      then [(Some ReservedSlot, g\<lparr>reserved_held := reserved_held g + 1\<rparr>)] else [])"

text \<open>
  \<open>Acquire\<close> runs in two phases. A priority request first tries the reserved pool without waiting
  (\<open>Acquire_fast\<close>); a request that is not admitted there waits in a \<open>select\<close>, which chooses among
  the cases that are ready at the instant it proceeds (\<open>Acquire_select\<close>): the slot taken, or \<open>None\<close>
  for the refusal on a done context. An empty list is a call that is still waiting.
\<close>

definition Acquire_fast :: "Class \<Rightarrow> Gate \<Rightarrow> (slot option \<times> Gate) list" where
  "Acquire_fast class g = (if class = ClassPriority then send_slot ReservedSlot g else [])"

definition Acquire_select :: "ctx \<Rightarrow> Class \<Rightarrow> Gate \<Rightarrow> (slot option \<times> Gate) list" where
  "Acquire_select c class g =
     (let ctx_done = (if c then [(None, g)] else []) in
      if class = ClassPriority
      then send_slot ReservedSlot g @ send_slot GeneralSlot g @ ctx_done
      else send_slot GeneralSlot g @ ctx_done)"

definition Gate_Acquire :: "ctx \<Rightarrow> Class \<Rightarrow> Gate \<Rightarrow> (slot option \<times> Gate) list" where
  "Gate_Acquire c class g =
     (case Acquire_fast class g of [] \<Rightarrow> Acquire_select c class g | xs \<Rightarrow> xs)"

text \<open>The returned release function takes the exact slot back.\<close>

fun Gate_release :: "slot \<Rightarrow> Gate \<Rightarrow> Gate" where
  "Gate_release GeneralSlot g = g\<lparr>general_held := general_held g - 1\<rparr>"
| "Gate_release ReservedSlot g = g\<lparr>reserved_held := reserved_held g - 1\<rparr>"

text \<open>The requests in flight, with the slot each one holds.\<close>

type_synonym holders = "(Class \<times> slot) list"

inductive gate_step :: "Gate \<times> holders \<Rightarrow> Gate \<times> holders \<Rightarrow> bool" where
  gs_admit: "(Some s, g') \<in> set (Gate_Acquire c cl g) \<Longrightarrow> gate_step (g, hs) (g', (cl, s) # hs)"
| gs_resume: "(Some s, g') \<in> set (Acquire_select c cl g) \<Longrightarrow> gate_step (g, hs) (g', (cl, s) # hs)"
| gs_refuse: "(None, g') \<in> set (Acquire_select c cl g) \<Longrightarrow> gate_step (g, hs) (g', hs)"
| gs_release: "gate_step (g, hs @ (cl, s) # hs') (Gate_release s g, hs @ hs')"

inductive gate_run :: "int \<Rightarrow> int \<Rightarrow> Gate \<times> holders \<Rightarrow> bool" for gen res where
  gr_init: "gate_run gen res (NewGate gen res, [])"
| gr_step: "gate_run gen res gh \<Longrightarrow> gate_step gh gh' \<Longrightarrow> gate_run gen res gh'"

definition holding :: "slot \<Rightarrow> holders \<Rightarrow> nat" where
  "holding s hs = length (filter (\<lambda>h. snd h = s) hs)"

definition priority_holders :: "holders \<Rightarrow> nat" where
  "priority_holders hs = length (filter (\<lambda>h. fst h = ClassPriority) hs)"

definition gate_inv :: "int \<Rightarrow> int \<Rightarrow> Gate \<times> holders \<Rightarrow> bool" where
  "gate_inv gen res gh \<longleftrightarrow> (case gh of (g, hs) \<Rightarrow>
     general_cap g = max gen 0 \<and> reserved_cap g = max res 0 \<and>
     general_held g = int (holding GeneralSlot hs) \<and> reserved_held g = int (holding ReservedSlot hs) \<and>
     general_held g \<le> general_cap g \<and> reserved_held g \<le> reserved_cap g \<and>
     (\<forall>h \<in> set hs. snd h = ReservedSlot \<longrightarrow> fst h = ClassPriority))"

lemma holding_simps [simp]:
  "holding s [] = 0" "holding s ((cl, s') # hs) = (if s' = s then 1 else 0) + holding s hs"
  "holding s (hs @ hs') = holding s hs + holding s hs'"
  by (simp_all add: holding_def)

lemma select_slot:
  assumes "(Some s, g') \<in> set (Acquire_select c cl g)"
  shows "(Some s, g') \<in> set (send_slot s g) \<and> (s = ReservedSlot \<longrightarrow> cl = ClassPriority)"
  using assms by (auto simp: Acquire_select_def Let_def split: if_splits)

lemma acquire_slot:
  assumes "(Some s, g') \<in> set (Gate_Acquire c cl g)"
  shows "(Some s, g') \<in> set (send_slot s g) \<and> (s = ReservedSlot \<longrightarrow> cl = ClassPriority)"
  using assms select_slot
  by (fastforce simp: Gate_Acquire_def Acquire_fast_def split: list.splits if_splits)

lemma select_refused: "(None, g') \<in> set (Acquire_select c cl g) \<Longrightarrow> c \<and> g' = g"
  by (auto simp: Acquire_select_def Let_def split: if_splits)

lemma gate_inv_admit:
  assumes "gate_inv gen res (g, hs)" and "(Some s, g') \<in> set (send_slot s g)"
    and "s = ReservedSlot \<longrightarrow> cl = ClassPriority"
  shows "gate_inv gen res (g', (cl, s) # hs)"
  using assms by (cases s) (auto simp: gate_inv_def split: if_splits)

lemma gate_step_inv: "gate_step gh gh' \<Longrightarrow> gate_inv gen res gh \<Longrightarrow> gate_inv gen res gh'"
proof (induction rule: gate_step.induct)
  case (gs_admit s g' c cl g hs)
  then show ?case using acquire_slot gate_inv_admit by blast
next
  case (gs_resume s g' c cl g hs)
  then show ?case using select_slot gate_inv_admit by blast
next
  case (gs_refuse g' c cl g hs)
  then show ?case using select_refused by blast
next
  case (gs_release g hs cl s hs')
  then show ?case by (cases s) (auto simp: gate_inv_def)
qed

lemma gate_run_inv: "gate_run gen res gh \<Longrightarrow> gate_inv gen res gh"
proof (induction rule: gate_run.induct)
  case gr_init
  show ?case by (simp add: gate_inv_def NewGate_def max_def)
qed (rule gate_step_inv)

text \<open>How the holders of the two pools count against the holders of the two classes.\<close>

lemma holding_by_class:
  assumes "\<forall>h \<in> set hs. snd h = ReservedSlot \<longrightarrow> fst h = ClassPriority"
  shows "holding ReservedSlot hs \<le> priority_holders hs"
    and "length (filter (\<lambda>h. fst h = ClassGeneral) hs) \<le> holding GeneralSlot hs"
    and "length hs = holding GeneralSlot hs + holding ReservedSlot hs"
proof -
  have step: "snd h = GeneralSlot \<or> snd h = ReservedSlot" for h :: "Class \<times> slot"
    by (cases "snd h") auto
  show "holding ReservedSlot hs \<le> priority_holders hs"
    using assms unfolding holding_def priority_holders_def
    by (induction hs) (simp_all add: le_SucI)
  show "length (filter (\<lambda>h. fst h = ClassGeneral) hs) \<le> holding GeneralSlot hs"
    using assms step unfolding holding_def by (induction hs) (auto simp: le_SucI)
  show "length hs = holding GeneralSlot hs + holding ReservedSlot hs"
  proof -
    have "(\<lambda>h :: Class \<times> slot. snd h = ReservedSlot) = (\<lambda>h. snd h \<noteq> GeneralSlot)"
      using step by fastforce
    then show ?thesis using sum_length_filter_compl [of "\<lambda>h. snd h = GeneralSlot" hs]
      by (simp add: holding_def)
  qed
qed

text \<open>
  C31: The kill-switch headroom: after any interleaving of admissions, refusals and releases, while
  fewer priority requests are in flight than there are reserved slots, a priority request is
  admitted at once and by a reserved slot, whatever the general pool holds and even on a done
  context.
\<close>

theorem priority_never_starved:
  assumes "gate_run gen res (g, hs)" and "int (priority_holders hs) < res"
  shows "Gate_Acquire c ClassPriority g = [(Some ReservedSlot, g\<lparr>reserved_held := reserved_held g + 1\<rparr>)]"
proof -
  have inv: "gate_inv gen res (g, hs)" by (rule gate_run_inv [OF assms(1)])
  then have "holding ReservedSlot hs \<le> priority_holders hs"
    by (intro holding_by_class) (simp add: gate_inv_def)
  then have "reserved_held g < reserved_cap g" using inv assms(2) by (simp add: gate_inv_def)
  then show ?thesis by (simp add: Gate_Acquire_def Acquire_fast_def)
qed

lemma full_gate_run:
  "gate_run 1 1 (\<lparr>general_cap = 1, general_held = 1, reserved_cap = 1, reserved_held = 0\<rparr>,
      [(ClassGeneral, GeneralSlot)])"
  by (rule gr_step [OF gr_init], rule gs_admit [where c = False])
    (simp add: Gate_Acquire_def Acquire_fast_def Acquire_select_def NewGate_def)

theorem priority_never_starved_witness:
  "Gate_Acquire False ClassGeneral \<lparr>general_cap = 1, general_held = 1, reserved_cap = 1, reserved_held = 0\<rparr> = []
   \<and> Gate_Acquire False ClassPriority \<lparr>general_cap = 1, general_held = 1, reserved_cap = 1, reserved_held = 0\<rparr>
     = [(Some ReservedSlot, \<lparr>general_cap = 1, general_held = 1, reserved_cap = 1, reserved_held = 1\<rparr>)]"
  using priority_never_starved [OF full_gate_run, of False]
  by (simp add: priority_holders_def Gate_Acquire_def Acquire_fast_def Acquire_select_def)

text \<open>
  The gate bounds concurrency: in every run at most \<open>general + reserved\<close> requests are in
  flight, at most \<open>general\<close> of them are of the general class, and when all of them are released
  the gate is as it was built.
\<close>

theorem gate_bounds:
  assumes "gate_run gen res (g, hs)"
  shows "int (length hs) \<le> max gen 0 + max res 0
    \<and> int (length (filter (\<lambda>h. fst h = ClassGeneral) hs)) \<le> max gen 0
    \<and> (hs = [] \<longrightarrow> g = NewGate gen res)"
proof -
  have inv: "gate_inv gen res (g, hs)" by (rule gate_run_inv [OF assms])
  then have "\<forall>h \<in> set hs. snd h = ReservedSlot \<longrightarrow> fst h = ClassPriority" by (simp add: gate_inv_def)
  from holding_by_class [OF this] inv show ?thesis
    by (auto simp: gate_inv_def NewGate_def)
qed

theorem gate_bounds_witness:
  "int (length [(ClassGeneral, GeneralSlot)]) \<le> max 1 0 + max 1 0"
  using gate_bounds [OF full_gate_run] by blast

subsection \<open>The per-caller limiter\<close>

record callerState =
  floor_at :: time
  spent :: int

record Limiter =
  lim_cap :: int
  lim_window :: duration
  lim_state :: "string \<rightharpoonup> callerState"

definition NewLimiter :: "int \<Rightarrow> duration \<Rightarrow> Limiter" where
  "NewLimiter cap window =
     \<lparr>lim_cap = cap, lim_window = (if window \<le> 0 then 1 else window), lim_state = Map.empty\<rparr>"

text \<open>\<open>Time.Truncate\<close> rounds down to a multiple of the duration since the zero time.\<close>

definition Truncate :: "duration \<Rightarrow> time \<Rightarrow> time" where
  "Truncate d t = (if d \<le> 0 then t else t - t mod d)"

definition open_window :: "time \<Rightarrow> callerState option \<Rightarrow> callerState" where
  "open_window winStart st =
     (case st of
        None \<Rightarrow> \<lparr>floor_at = winStart, spent = 0\<rparr>
      | Some cs \<Rightarrow> if floor_at cs < winStart then cs\<lparr>floor_at := winStart, spent := 0\<rparr> else cs)"

definition Limiter_Allow :: "time \<Rightarrow> string \<Rightarrow> Limiter \<Rightarrow> bool \<times> Limiter" where
  "Limiter_Allow now caller l =
     (if lim_cap l \<le> 0 then (True, l)
      else let cs = open_window (Truncate (lim_window l) now) (lim_state l caller) in
        if lim_cap l \<le> spent cs
        then (False, l\<lparr>lim_state := (lim_state l)(caller \<mapsto> cs)\<rparr>)
        else (True, l\<lparr>lim_state := (lim_state l)(caller \<mapsto> cs\<lparr>spent := spent cs + 1\<rparr>)\<rparr>))"

text \<open>A sequence of calls \<open>(caller, clock reading)\<close> and how many were admitted for one caller.\<close>

fun allow_run :: "string \<Rightarrow> (string \<times> time) list \<Rightarrow> Limiter \<Rightarrow> nat" where
  "allow_run who [] l = 0"
| "allow_run who ((caller, now) # calls) l =
     (case Limiter_Allow now caller l of (ok, l') \<Rightarrow>
        (if ok \<and> caller = who then 1 else 0) + allow_run who calls l')"

lemma allow_frame [frame_simps]:
  "lim_cap (snd (Limiter_Allow now caller l)) = lim_cap l"
  "lim_window (snd (Limiter_Allow now caller l)) = lim_window l"
  "who \<noteq> caller \<Longrightarrow> lim_state (snd (Limiter_Allow now caller l)) who = lim_state l who"
  by (simp_all add: Limiter_Allow_def Let_def)

lemma allow_in_window:
  assumes "0 < lim_cap l" and "lim_state l who = Some cs" and "Truncate (lim_window l) now \<le> floor_at cs"
  shows "fst (Limiter_Allow now who l) \<longleftrightarrow> spent cs < lim_cap l"
    and "lim_state (snd (Limiter_Allow now who l)) who =
      Some (if spent cs < lim_cap l then cs\<lparr>spent := spent cs + 1\<rparr> else cs)"
  using assms by (auto simp: Limiter_Allow_def open_window_def Let_def)

text \<open>
  C35: Once a caller's window is open, no sequence of clock readings that does not pass that window,
  setbacks across earlier windows included, and no traffic of other callers changes the caller's
  allowance: of its \<open>n\<close> calls exactly the remaining allowance, or all \<open>n\<close> if that is fewer, are
  admitted.
\<close>

theorem limiter_allowance_exact:
  assumes "0 < lim_cap l" and "lim_state l who = Some cs" and "0 \<le> spent cs" and "spent cs \<le> lim_cap l"
    and "\<forall>x \<in> set calls. fst x = who \<longrightarrow> Truncate (lim_window l) (snd x) \<le> floor_at cs"
  shows "allow_run who calls l =
    min (nat (lim_cap l - spent cs)) (length (filter (\<lambda>x. fst x = who) calls))"
  using assms
proof (induction who calls l arbitrary: cs rule: allow_run.induct)
  case (2 who caller now calls l)
  obtain ok l' where call: "Limiter_Allow now caller l = (ok, l')" by fastforce
  have frame: "lim_cap l' = lim_cap l" "lim_window l' = lim_window l"
    using allow_frame(1,2) [of now caller l] call by simp_all
  show ?case
  proof (cases "caller = who")
    case True
    note step = allow_in_window [OF "2.prems"(1,2), of now]
    have "Truncate (lim_window l) now \<le> floor_at cs" using "2.prems"(5) True by simp
    with step call True have ok: "ok \<longleftrightarrow> spent cs < lim_cap l"
      and st: "lim_state l' who = Some (if spent cs < lim_cap l then cs\<lparr>spent := spent cs + 1\<rparr> else cs)"
      by simp_all
    have "allow_run who calls l' =
      min (nat (lim_cap l - (if ok then spent cs + 1 else spent cs)))
        (length (filter (\<lambda>x. fst x = who) calls))"
      using "2.IH" [OF call [symmetric], of "if ok then cs\<lparr>spent := spent cs + 1\<rparr> else cs"]
        "2.prems" ok st frame by (cases ok) simp_all
    then show ?thesis using call True ok "2.prems"(4) by (cases ok) auto
  next
    case False
    then have "lim_state l' who = Some cs"
      using allow_frame(3) [of who caller now l] call "2.prems"(2) by simp
    with False show ?thesis
      using "2.IH" [OF call [symmetric], of cs] "2.prems" frame call by simp
  qed
qed simp

theorem limiter_allowance_exact_witness:
  "allow_run ''a'' [(''a'', 125), (''b'', 999), (''a'', 7), (''a'', 110)]
     (snd (Limiter_Allow 120 ''a'' (NewLimiter 3 60))) = 2"
proof -
  define l where "l = snd (Limiter_Allow 120 ''a'' (NewLimiter 3 60))"
  have "lim_cap l = 3" "lim_window l = 60" "lim_state l ''a'' = Some \<lparr>floor_at = 120, spent = 1\<rparr>"
    by (simp_all add: l_def Limiter_Allow_def NewLimiter_def open_window_def Truncate_def)
  then show ?thesis
    unfolding l_def [symmetric]
    using limiter_allowance_exact [of l "''a''" "\<lparr>floor_at = 120, spent = 1\<rparr>"
        "[(''a'', 125), (''b'', 999), (''a'', 7), (''a'', 110)]"]
    by (simp add: Truncate_def)
qed

end
