(* ===== verification/Registry.thy ===== *)
theory Registry
  imports Sha256 MemStore Ctl_World
begin

text \<open>
  The registry of \<open>internal/registry/registry.go\<close>: the derivation of a reservation key from the
  caller and a host-minted handle (with the handle of \<open>internal/lifecycle/manager.go\<close>), and the
  custodian, the only component that calls the mutators of the store. SHA-256 is the defined
  function; where the source relies on its collision resistance the lemmas name the collision.
\<close>

subsection \<open>Keys\<close>

text \<open>The opaque key: its field is unexported and \<open>DeriveKey\<close> is the only producer.\<close>

datatype RKey = RKey (RKey_String: string)

definition RKey_IsZero :: "RKey \<Rightarrow> bool" where
  "RKey_IsZero k \<longleftrightarrow> RKey_String k = ''''"

definition keyVersion :: string where "keyVersion = ''ocu-key-v1''"

definition key_preimage :: "Identity \<Rightarrow> string \<Rightarrow> string" where
  "key_preimage owner handle =
     lp_field keyVersion @ lp_field (Tenant owner) @ lp_field (Caller owner) @ lp_field handle"

definition DeriveKey :: "Identity \<Rightarrow> string \<Rightarrow> RKey" where
  "DeriveKey owner handle = RKey (hex_encode (sha256 (key_preimage owner handle)))"

definition handleVersion :: string where "handleVersion = ''ocu-h-v1''"

definition handle_preimage :: "string \<Rightarrow> string" where
  "handle_preimage hint = lp_field handleVersion @ lp_field hint"

definition mintHandle :: "string \<Rightarrow> string" where
  "mintHandle hint = hex_encode (sha256 (handle_preimage hint))"

subsection \<open>The custodian\<close>

definition Custodian_Reserve ::
  "'s Store \<Rightarrow> 'x clockctx_scheme \<Rightarrow> (nat \<Rightarrow> ctx) \<Rightarrow> RKey \<Rightarrow> Identity \<Rightarrow> ('s, 'e) world \<Rightarrow> SessionRow result \<times> ('s, 'e) world" where
  "Custodian_Reserve S E cx key owner w =
     st_call cx (\<lambda>c. Reserve S (e_now E (step w)) c (RKey_String key) owner) w"

definition Custodian_Commit ::
  "'s Store \<Rightarrow> (nat \<Rightarrow> ctx) \<Rightarrow> RKey \<Rightarrow> Identity \<Rightarrow> ('s, 'e) world \<Rightarrow> SessionRow result \<times> ('s, 'e) world" where
  "Custodian_Commit S cx key owner = st_call cx (\<lambda>c. Commit S c (RKey_String key) owner)"

definition Custodian_BindContainerName ::
  "'s Store \<Rightarrow> (nat \<Rightarrow> ctx) \<Rightarrow> RKey \<Rightarrow> Identity \<Rightarrow> string \<Rightarrow> string \<Rightarrow> ('s, 'e) world \<Rightarrow> SessionRow result \<times> ('s, 'e) world" where
  "Custodian_BindContainerName S cx key owner containerName sockDirRoot =
     st_call cx (\<lambda>c. BindContainerName S c (RKey_String key) owner containerName sockDirRoot)"

definition Custodian_Release ::
  "'s Store \<Rightarrow> (nat \<Rightarrow> ctx) \<Rightarrow> RKey \<Rightarrow> Identity \<Rightarrow> ('s, 'e) world \<Rightarrow> SessionRow result \<times> ('s, 'e) world" where
  "Custodian_Release S cx key owner = st_call cx (\<lambda>c. Release S c (RKey_String key) owner)"

definition Custodian_ReleaseRow ::
  "'s Store \<Rightarrow> (nat \<Rightarrow> ctx) \<Rightarrow> SessionRow \<Rightarrow> ('s, 'e) world \<Rightarrow> SessionRow result \<times> ('s, 'e) world" where
  "Custodian_ReleaseRow S cx r = st_call cx (\<lambda>c. Release S c (Key r) (Owner r))"

definition Custodian_ForceReleaseRow ::
  "'s Store \<Rightarrow> (nat \<Rightarrow> ctx) \<Rightarrow> SessionRow \<Rightarrow> ('s, 'e) world \<Rightarrow> SessionRow result \<times> ('s, 'e) world" where
  "Custodian_ForceReleaseRow S cx r = st_call cx (\<lambda>c. Release S c (Key r) (Owner r))"

definition Custodian_LookupForCaller ::
  "'s Store \<Rightarrow> (nat \<Rightarrow> ctx) \<Rightarrow> RKey \<Rightarrow> Identity \<Rightarrow> ('s, 'e) world \<Rightarrow> SessionRow result \<times> ('s, 'e) world" where
  "Custodian_LookupForCaller S cx key owner w =
     (case st_read cx (\<lambda>c. LookupSession S c (RKey_String key)) w of
        (Inl e, w') \<Rightarrow> (if errors_is e ErrReservationNotFound then Inl [ErrNotOwned] else Inl e, w')
      | (Inr r, w') \<Rightarrow> (if Owner r \<noteq> owner then Inl [ErrNotOwned] else Inr r, w'))"

definition Custodian_ReservedAndActiveKeys ::
  "'s Store \<Rightarrow> (nat \<Rightarrow> ctx) \<Rightarrow> string list \<Rightarrow> ('s, 'e) world \<Rightarrow> SessionRow list result \<times> ('s, 'e) world" where
  "Custodian_ReservedAndActiveKeys S cx ord w =
     (case LiveLister S of
        None \<Rightarrow> (Inl [ErrEnumerationUnsupported], w)
      | Some lister \<Rightarrow> st_read cx (lister ord) w)"

definition Custodian_EnrichedLiveSessions ::
  "'s Store \<Rightarrow> (nat \<Rightarrow> ctx) \<Rightarrow> string list \<Rightarrow> ('s, 'e) world \<Rightarrow> EnrichedSessionRow list result \<times> ('s, 'e) world" where
  "Custodian_EnrichedLiveSessions S cx ord w =
     (case EnrichedLister S of
        None \<Rightarrow> (Inl [ErrEnumerationUnsupported], w)
      | Some lister \<Rightarrow> st_read cx (lister ord) w)"

definition Custodian_RecordActivation ::
  "'s Store \<Rightarrow> (nat \<Rightarrow> ctx) \<Rightarrow> RKey \<Rightarrow> Caps \<Rightarrow> time \<Rightarrow> ('s, 'e) world \<Rightarrow> err option \<times> ('s, 'e) world" where
  "Custodian_RecordActivation S cx key cp at w =
     (case ActivationRecorder S of
        None \<Rightarrow> (Some [ErrEnumerationUnsupported], w)
      | Some recorder \<Rightarrow> st_call cx (\<lambda>c. recorder c (RKey_String key) cp at) w)"

definition Custodian_TouchActivity ::
  "'s Store \<Rightarrow> (nat \<Rightarrow> ctx) \<Rightarrow> RKey \<Rightarrow> time \<Rightarrow> ('s, 'e) world \<Rightarrow> err option \<times> ('s, 'e) world" where
  "Custodian_TouchActivity S cx key now w =
     (case ActivityToucher S of
        None \<Rightarrow> (Some [ErrEnumerationUnsupported], w)
      | Some toucher \<Rightarrow> st_call cx (\<lambda>c. toucher c (RKey_String key) now) w)"

subsection \<open>Keys name one caller's session\<close>

text \<open>A Go string is shorter than \<open>2^63\<close> bytes.\<close>

abbreviation go_string :: "string \<Rightarrow> bool" where
  "go_string s \<equiv> length s < 2 ^ 63"

lemma key_preimage_inject:
  assumes "go_string (Tenant a)" "go_string (Caller a)" "go_string h"
    and "go_string (Tenant b)" "go_string (Caller b)" "go_string h'"
    and "key_preimage a h = key_preimage b h'"
  shows "a = b \<and> h = h'"
proof -
  have len: "go_string s \<Longrightarrow> length s < 2 ^ 64" for s by simp
  from assms(7) have "lp_field (Tenant a) @ lp_field (Caller a) @ lp_field h
      = lp_field (Tenant b) @ lp_field (Caller b) @ lp_field h'"
    by (simp add: key_preimage_def)
  note t = lp_field_append_inject [OF len [OF assms(1)] len [OF assms(4)] this]
  note c = lp_field_append_inject [OF len [OF assms(2)] len [OF assms(5)] conjunct2 [OF t]]
  have "lp_field h @ [] = lp_field h' @ []" using c by simp
  note h = lp_field_append_inject [OF len [OF assms(3)] len [OF assms(6)] this]
  from t c h show ?thesis by simp
qed

lemma mintHandle_inject:
  assumes "go_string h" "go_string h'" and "mintHandle h = mintHandle h'"
  shows "h = h' \<or> sha256_collision (handle_preimage h) (handle_preimage h')"
proof (cases "handle_preimage h = handle_preimage h'")
  case True
  then have "lp_field h @ [] = lp_field h' @ []" by (simp add: handle_preimage_def)
  then show ?thesis using lp_field_append_inject [of h h' "[]" "[]"] assms(1,2) by simp
next
  case False
  then show ?thesis using assms(3) by (simp add: mintHandle_def sha256_collision_def)
qed

text \<open>
  C5: Session namespaces are isolated by the key derivation: if two callers, each naming a session
  by a hint of its choice, ever reach the same reservation key, then they are the same caller
  with the same hint, or two different byte strings with the same SHA-256 digest have been found.
  No crafted hint, tenant or caller name can straddle a field boundary.
\<close>

theorem session_key_isolation:
  assumes "go_string (Tenant a)" "go_string (Caller a)" "go_string (Tenant b)" "go_string (Caller b)"
    and "go_string hint" and "go_string hint'"
    and "DeriveKey a (mintHandle hint) = DeriveKey b (mintHandle hint')"
  shows "(a = b \<and> hint = hint')
    \<or> sha256_collision (key_preimage a (mintHandle hint)) (key_preimage b (mintHandle hint'))
    \<or> sha256_collision (handle_preimage hint) (handle_preimage hint')"
proof (cases "key_preimage a (mintHandle hint) = key_preimage b (mintHandle hint')")
  case True
  have "go_string (mintHandle h)" for h by (simp add: mintHandle_def)
  with key_preimage_inject [OF assms(1,2) _ assms(3,4) _ True]
  have "a = b" "mintHandle hint = mintHandle hint'" by blast+
  with mintHandle_inject [OF assms(5,6)] show ?thesis by blast
next
  case False
  with assms(7) show ?thesis by (simp add: DeriveKey_def sha256_collision_def)
qed

theorem session_key_isolation_witness:
  "DeriveKey owner_ta (mintHandle ''s'') = DeriveKey owner_ta (mintHandle ''s'')
   \<and> (owner_ta = owner_ta \<and> ''s'' = ''s''
      \<or> sha256_collision (key_preimage owner_ta (mintHandle ''s'')) (key_preimage owner_ta (mintHandle ''s''))
      \<or> sha256_collision (handle_preimage ''s'') (handle_preimage ''s''))"
  using session_key_isolation [of owner_ta owner_ta "''s''" "''s''"] by simp

lemma DeriveKey_not_zero: "\<not> RKey_IsZero (DeriveKey ow h)"
proof -
  have "length (hex_encode (sha256 (key_preimage ow h))) = 64" by simp
  then have "hex_encode (sha256 (key_preimage ow h)) \<noteq> ''''" by (metis length_0_conv zero_neq_numeral)
  then show ?thesis by (simp add: RKey_IsZero_def DeriveKey_def)
qed

subsection \<open>Lookups disclose nothing\<close>

context store_contract
begin

lemma lookup_for_caller_ok:
  assumes "inv (store w)" and "Custodian_LookupForCaller S cx key ow w = (Inr r, w')"
  shows "row (store w) (RKey_String key) = Some r \<and> Owner r = ow \<and> w' = w\<lparr>step := Suc (step w)\<rparr>"
  using assms lookup_ok [OF assms(1)]
  by (auto simp: Custodian_LookupForCaller_def st_read_def split: sum.splits if_splits)

lemma lookup_for_caller_err:
  assumes "inv (store w)" and "Custodian_LookupForCaller S cx key ow w = (Inl e, w')"
  shows "(e = [ErrNotOwned] \<or> errors_is e ErrStoreUnavailable) \<and> w' = w\<lparr>step := Suc (step w)\<rparr>"
  using assms lookup_other [OF assms(1)]
  by (auto simp: Custodian_LookupForCaller_def st_read_def split: sum.splits if_splits)

end

context responsive_store
begin

lemma lookup_for_caller_iff:
  assumes "inv (store w)" and "\<not> cx (step w)"
  shows "Custodian_LookupForCaller S cx key ow w =
    ((case row (store w) (RKey_String key) of
        Some r \<Rightarrow> if Owner r = ow then Inr r else Inl [ErrNotOwned]
      | None \<Rightarrow> Inl [ErrNotOwned]), w\<lparr>step := Suc (step w)\<rparr>)"
proof (cases "row (store w) (RKey_String key)")
  case None
  from lookup_missing [OF assms None] obtain e where
    "LookupSession S (cx (step w)) (RKey_String key) (store w) = Inl e" "errors_is e ErrReservationNotFound"
    by blast
  then show ?thesis using None by (simp add: Custodian_LookupForCaller_def st_read_def)
next
  case (Some r)
  with lookup_succeeds [OF assms Some] show ?thesis
    by (simp add: Custodian_LookupForCaller_def st_read_def)
qed

end

text \<open>
  A caller learns nothing about sessions that are not its own: on any two stores that agree on
  the rows it owns, and differ arbitrarily elsewhere, every lookup it makes gives the same answer,
  so "exists but is not yours" and "does not exist" are one outcome, and a row it does get is its own.
\<close>

theorem lookup_noninterference:
  assumes "mem_inv (store w)" and "mem_inv (store w')" and "step w' = step w"
    and "\<And>k r. Owner r = ow \<Longrightarrow> rows (store w) k = Some r \<longleftrightarrow> rows (store w') k = Some r"
  shows "fst (Custodian_LookupForCaller memStore_ops cx key ow w) =
         fst (Custodian_LookupForCaller memStore_ops cx key ow w')
    \<and> (\<forall>r. fst (Custodian_LookupForCaller memStore_ops cx key ow w) = Inr r \<longrightarrow> Owner r = ow)"
proof (cases "cx (step w)")
  case True
  then show ?thesis
    using assms(3)
    by (simp add: Custodian_LookupForCaller_def st_read_def memStore_ops_def memStore_LookupSession_def ctxErr_def)
next
  case False
  let ?k = "RKey_String key"
  show ?thesis
    using assms(4) [of _ ?k] mem.lookup_for_caller_iff [of w cx key ow]
      mem.lookup_for_caller_iff [of w' cx key ow] assms(1-3) False
    by (cases "rows (store w) ?k"; cases "rows (store w') ?k") (auto split: if_splits)
qed

theorem lookup_noninterference_witness:
  "fst (Custodian_LookupForCaller memStore_ops (\<lambda>_. False) (RKey ''k1'') \<lparr>Tenant = ''t'', Caller = ''b''\<rparr>
      \<lparr>store = NewInMemory, step = 0, log = []\<rparr>)
   = fst (Custodian_LookupForCaller memStore_ops (\<lambda>_. False) (RKey ''k1'') \<lparr>Tenant = ''t'', Caller = ''b''\<rparr>
      \<lparr>store = demo_bound, step = 0, log = []\<rparr>)"
proof (rule conjunct1 [OF lookup_noninterference])
  fix k and r :: SessionRow
  assume "Owner r = \<lparr>Tenant = ''t'', Caller = ''b''\<rparr>"
  then show "rows (store \<lparr>store = NewInMemory, step = 0, log = []\<rparr>) k = Some r \<longleftrightarrow>
      rows (store \<lparr>store = demo_bound, step = 0, log = []\<rparr>) k = Some r"
    by (auto simp: demo_bound_rows NewInMemory_def split: if_splits)
qed (simp_all add: mem_inv_new mem_reachable_inv [OF demo_bound_reachable])

end
