(* ===== verification/Killswitch.thy ===== *)
theory Killswitch
  imports Control_Types Quota Registry
begin

text \<open>
  The kill-switch engine of \<open>internal/killswitch/killswitch.go\<close>: revoke of one session and of all,
  the lift of either, the operator quota override, and the force-kill of a row. The engine is
  written against the store interface; what holds for every store that meets the contract is
  proved in its locale, and the properties are stated for the in-memory store.
\<close>

subsection \<open>The engine\<close>

definition forceKill_sandbox :: "SessionRow \<Rightarrow> Sandbox" where
  "forceKill_sandbox r =
     \<lparr>SbName = Key r, RuntimeID = ContainerName r,
      SbEgress = \<lparr>EbName = Key r, EbFilesystemID = Key r\<rparr>,
      SbTier = TierRunc, SbAlive = False, SbSockDirRoot = ''''\<rparr>"

definition Engine_forceKillRow :: "'s Store \<Rightarrow> env \<Rightarrow> SessionRow \<Rightarrow> 's cworld \<Rightarrow> err option \<times> 's cworld" where
  "Engine_forceKillRow S E r w =
     (case force_kill E (forceKill_sandbox r) w of (a, w1) \<Rightarrow>
      if kill_failed a then (a, w1)
      else case Custodian_ForceReleaseRow S (e_ctx E) r w1 of
        (Inl e, w2) \<Rightarrow> (Some e, w2)
      | (Inr _, w2) \<Rightarrow> Gate_RefundConcurrent S E (Owner r) w2)"

definition Engine_forceKillKey :: "'s Store \<Rightarrow> env \<Rightarrow> string \<Rightarrow> 's cworld \<Rightarrow> err option \<times> 's cworld" where
  "Engine_forceKillKey S E key w =
     (case st_read (e_ctx E) (\<lambda>c. LookupSession S c key) w of
        (Inl e, w1) \<Rightarrow> (if errors_is e ErrReservationNotFound then None else Some e, w1)
      | (Inr r, w1) \<Rightarrow> if State r = StateReleased then (None, w1) else Engine_forceKillRow S E r w1)"

definition Engine_RevokeOne ::
  "'s Store \<Rightarrow> env \<Rightarrow> OperatorScope \<Rightarrow> string \<Rightarrow> string \<Rightarrow> 's cworld \<Rightarrow> err option \<times> 's cworld" where
  "Engine_RevokeOne S E scope key why w =
     (if \<not> OperatorScope_Valid scope then (Some [ErrScopeInvalid], w)
      else case emit E (operator_record ActionRevokeOne scope key why) w of
        (Some e, w1) \<Rightarrow> (Some e, w1)
      | (None, w1) \<Rightarrow>
          let entry = \<lparr>Scope = ScopeSession, DenyKey = key, Reason = why, Since = e_now E (step w1)\<rparr> in
          case st_call (e_ctx E) (\<lambda>c. SetDeny S c entry) w1 of
            (Some e, w2) \<Rightarrow> (Some e, w2)
          | (None, w2) \<Rightarrow> Engine_forceKillKey S E key w2)"

fun forceKillRows ::
  "'s Store \<Rightarrow> env \<Rightarrow> SessionRow list \<Rightarrow> err option \<Rightarrow> 's cworld \<Rightarrow> err option \<times> 's cworld" where
  "forceKillRows S E [] firstErr w = (firstErr, w)"
| "forceKillRows S E (r # rs) firstErr w =
     (case Engine_forceKillRow S E r w of (a, w1) \<Rightarrow>
        forceKillRows S E rs (if a \<noteq> None \<and> firstErr = None then a else firstErr) w1)"

definition Engine_RevokeAll ::
  "'s Store \<Rightarrow> env \<Rightarrow> OperatorScope \<Rightarrow> string \<Rightarrow> 's cworld \<Rightarrow> err option \<times> 's cworld" where
  "Engine_RevokeAll S E scope why w =
     (if \<not> OperatorScope_Valid scope then (Some [ErrScopeInvalid], w)
      else case emit E (operator_record ActionRevokeAll scope '''' why) w of
        (Some e, w1) \<Rightarrow> (Some e, w1)
      | (None, w1) \<Rightarrow>
          let entry = \<lparr>Scope = ScopeGlobal, DenyKey = '''', Reason = why, Since = e_now E (step w1)\<rparr> in
          case st_call (e_ctx E) (\<lambda>c. SetDeny S c entry) w1 of
            (Some e, w2) \<Rightarrow> (Some e, w2)
          | (None, w2) \<Rightarrow>
              (case Custodian_ReservedAndActiveKeys S (e_ctx E) (e_order E (step w2)) w2 of
                 (Inl e, w3) \<Rightarrow> (Some e, w3)
               | (Inr rs, w3) \<Rightarrow> forceKillRows S E rs None w3))"

definition Engine_ResumeAll ::
  "'s Store \<Rightarrow> env \<Rightarrow> OperatorScope \<Rightarrow> string \<Rightarrow> 's cworld \<Rightarrow> err option \<times> 's cworld" where
  "Engine_ResumeAll S E scope why w =
     (if \<not> OperatorScope_Valid scope then (Some [ErrScopeInvalid], w)
      else case emit E (operator_record ActionResumeGlobal scope '''' why) w of
        (Some e, w1) \<Rightarrow> (Some e, w1)
      | (None, w1) \<Rightarrow> st_call (e_ctx E) (\<lambda>c. ClearDeny S c ScopeGlobal '''') w1)"

definition Engine_LiftDeny ::
  "'s Store \<Rightarrow> env \<Rightarrow> OperatorScope \<Rightarrow> string \<Rightarrow> string \<Rightarrow> 's cworld \<Rightarrow> err option \<times> 's cworld" where
  "Engine_LiftDeny S E scope key why w =
     (if \<not> OperatorScope_Valid scope then (Some [ErrScopeInvalid], w)
      else if key = '''' then (Some [Dynamic ''lift-deny requires a session key''], w)
      else case emit E (operator_record ActionEditDenylist scope key why) w of
        (Some e, w1) \<Rightarrow> (Some e, w1)
      | (None, w1) \<Rightarrow> st_call (e_ctx E) (\<lambda>c. ClearDeny S c ScopeSession key) w1)"

definition Engine_OverrideQuota ::
  "'s Store \<Rightarrow> env \<Rightarrow> OperatorScope \<Rightarrow> QuotaKey \<Rightarrow> int \<Rightarrow> int \<Rightarrow> string \<Rightarrow> 's cworld \<Rightarrow> err option \<times> 's cworld" where
  "Engine_OverrideQuota S E scope key delta limit why w =
     (if \<not> OperatorScope_Valid scope then (Some [ErrScopeInvalid], w)
      else case emit E (operator_record ActionOverrideQuota scope '''' why) w of
        (Some e, w1) \<Rightarrow> (Some e, w1)
      | (None, w1) \<Rightarrow>
          (case st_call (e_ctx E) (\<lambda>c. Charge S c key delta limit) w1 of
             (Inl e, w2) \<Rightarrow> (Some e, w2) | (Inr _, w2) \<Rightarrow> (None, w2)))"

text \<open>The operator surface as data: one value per call, and its audit record.\<close>

datatype operator_op =
    OpRevokeOne string string | OpRevokeAll string | OpResumeAll string | OpLiftDeny string string
  | OpOverrideQuota QuotaKey int int string

fun run_op :: "'s Store \<Rightarrow> env \<Rightarrow> OperatorScope \<Rightarrow> operator_op \<Rightarrow> 's cworld \<Rightarrow> err option \<times> 's cworld" where
  "run_op S E scope (OpRevokeOne key why) = Engine_RevokeOne S E scope key why"
| "run_op S E scope (OpRevokeAll why) = Engine_RevokeAll S E scope why"
| "run_op S E scope (OpResumeAll why) = Engine_ResumeAll S E scope why"
| "run_op S E scope (OpLiftDeny key why) = Engine_LiftDeny S E scope key why"
| "run_op S E scope (OpOverrideQuota key d l why) = Engine_OverrideQuota S E scope key d l why"

fun op_record :: "OperatorScope \<Rightarrow> operator_op \<Rightarrow> Record" where
  "op_record scope (OpRevokeOne key why) = operator_record ActionRevokeOne scope key why"
| "op_record scope (OpRevokeAll why) = operator_record ActionRevokeAll scope '''' why"
| "op_record scope (OpResumeAll why) = operator_record ActionResumeGlobal scope '''' why"
| "op_record scope (OpLiftDeny key why) = operator_record ActionEditDenylist scope key why"
| "op_record scope (OpOverrideQuota key d l why) = operator_record ActionOverrideQuota scope '''' why"

subsection \<open>Nothing happens before its record\<close>

lemma refund_log: "log (snd (Gate_RefundConcurrent S E ow w)) = log w"
  using st_call_log [of "e_bg E" "\<lambda>cx. Charge S cx (conc_key ow) (- 1) 0" w]
  by (auto simp: Gate_RefundConcurrent_def split: prod.splits sum.splits)

lemma forceKillRow_log: "prefix (log w) (log (snd (Engine_forceKillRow S E r w)))"
proof -
  obtain a w1 where kill: "force_kill E (forceKill_sandbox r) w = (a, w1)" by fastforce
  have p1: "prefix (log w) (log w1)"
    using log_ext(1) kill by (metis force_kill_def snd_conv)
  obtain x w2 where rel: "Custodian_ForceReleaseRow S (e_ctx E) r w1 = (x, w2)" by fastforce
  have l2: "log w2 = log w1"
    using rel by (metis Custodian_ForceReleaseRow_def snd_conv st_call_log)
  show ?thesis
    using p1 l2 kill rel refund_log [of S E "Owner r" w2]
    by (auto simp: Engine_forceKillRow_def split: sum.split)
qed

lemma forceKillKey_log: "prefix (log w) (log (snd (Engine_forceKillKey S E k w)))"
  using forceKillRow_log [where w = "w\<lparr>step := Suc (step w)\<rparr>"]
  by (auto simp: Engine_forceKillKey_def st_read_def split: sum.split)

lemma forceKillRows_log: "prefix (log w) (log (snd (forceKillRows S E rs e w)))"
proof (induction S E rs e w rule: forceKillRows.induct)
  case (2 S E r rs firstErr w)
  obtain a w1 where kill: "Engine_forceKillRow S E r w = (a, w1)" by fastforce
  have "prefix (log w) (log w1)" using forceKillRow_log [of w S E r] kill by simp
  then show ?case using "2.IH" kill by (auto intro: prefix_order.trans)
qed simp

text \<open>What a call does once its record is accepted only extends the log.\<close>

lemma run_op_recorded:
  assumes "OperatorScope_Valid scope" and "e_emit E (step w) = None" and "\<forall>why. op \<noteq> OpLiftDeny '''' why"
  shows "prefix (log w @ [EvEmit (op_record scope op) None]) (log (snd (run_op S E scope op w)))"
proof -
  define w1 where "w1 = w\<lparr>step := Suc (step w), log := log w @ [EvEmit (op_record scope op) None]\<rparr>"
  have em: "emit E (op_record scope op) w = (None, w1)"
    using assms(2) by (simp add: emit_def ext_call_def w1_def)
  have call: "log v = log w1" if "st_call cx f w1 = (x, v)" for cx x v
    and f :: "ctx \<Rightarrow> 'a \<Rightarrow> 'c \<times> 'a"
    using st_call_log [of cx f w1] that by simp
  have "prefix (log w1) (log (snd (run_op S E scope op w)))"
  proof (cases op)
    case (OpRevokeOne key why)
    obtain y w2 where sd: "st_call (e_ctx E) (\<lambda>c. SetDeny S c
        \<lparr>Scope = ScopeSession, DenyKey = key, Reason = why, Since = e_now E (step w1)\<rparr>) w1 = (y, w2)"
      by fastforce
    then have "log w2 = log w1" using st_call_log by (metis snd_conv)
    then show ?thesis
      using OpRevokeOne em sd assms(1) forceKillKey_log [of w2 S E key]
      by (cases y) (simp_all add: Engine_RevokeOne_def)
  next
    case (OpRevokeAll why)
    obtain y w2 where sd: "st_call (e_ctx E) (\<lambda>c. SetDeny S c
        \<lparr>Scope = ScopeGlobal, DenyKey = '''', Reason = why, Since = e_now E (step w1)\<rparr>) w1 = (y, w2)"
      by fastforce
    then have l2: "log w2 = log w1" using st_call_log by (metis snd_conv)
    obtain rs w3 where en: "Custodian_ReservedAndActiveKeys S (e_ctx E) (e_order E (step w2)) w2 = (rs, w3)"
      by fastforce
    then have "log w3 = log w2"
      by (auto simp: Custodian_ReservedAndActiveKeys_def st_read_def split: option.splits)
    then show ?thesis
      using OpRevokeAll em sd en l2 assms(1) forceKillRows_log [of w3 S E _ None]
      by (cases y; cases rs) (simp_all add: Engine_RevokeAll_def)
  next
    case (OpResumeAll why)
    then show ?thesis using em assms(1) by (simp add: Engine_ResumeAll_def frame_simps)
  next
    case (OpLiftDeny key why)
    then show ?thesis using em assms(1,3) by (simp add: Engine_LiftDeny_def frame_simps)
  next
    case (OpOverrideQuota key d l why)
    obtain y w2 where ch: "st_call (e_ctx E) (\<lambda>c. Charge S c key d l) w1 = (y, w2)" by fastforce
    then have "log w2 = log w1" using st_call_log by (metis snd_conv)
    then show ?thesis
      using OpOverrideQuota em ch assms(1) by (cases y) (simp_all add: Engine_OverrideQuota_def)
  qed
  then show ?thesis by (simp add: w1_def)
qed

text \<open>
  C18: Every operator action is recorded first and fails closed. For each of the five calls of the
  engine, on any store and in any environment: a call that changed the store or reached any
  outside component appended its own audit record, with the actor stamped on the scope, as the
  first event, and the sink accepted it; if the sink refused the record, the refusal is the
  result, the store is untouched and nothing else was called; and a scope that was not minted
  by the operator seam gets nothing but the refusal.
\<close>

theorem operator_audit_first:
  "run_op S E scope op w = (r, w') \<longrightarrow>
     (w' = w \<and> r \<noteq> None)
   \<or> (\<exists>e. r = Some e \<and> log w' = log w @ [EvEmit (op_record scope op) (Some e)] \<and> store w' = store w)
   \<or> (OperatorScope_Valid scope \<and> (\<exists>rest. log w' = log w @ EvEmit (op_record scope op) None # rest))"
proof (cases "OperatorScope_Valid scope \<and> e_emit E (step w) = None \<and> (\<forall>why. op \<noteq> OpLiftDeny '''' why)")
  case True
  then have "prefix (log w @ [EvEmit (op_record scope op) None]) (log (snd (run_op S E scope op w)))"
    by (intro run_op_recorded) auto
  with True show ?thesis by (auto simp: prefix_def)
next
  case False
  then show ?thesis
    by (cases op)
      (auto simp: Engine_RevokeOne_def Engine_RevokeAll_def Engine_ResumeAll_def Engine_LiftDeny_def
        Engine_OverrideQuota_def emit_def ext_call_def)
qed

abbreviation demo_cworld :: "memStore \<Rightarrow> memStore cworld" where
  "demo_cworld m \<equiv> \<lparr>store = m, step = 0, log = []\<rparr>"

abbreviation demo_scope :: OperatorScope where
  "demo_scope \<equiv> OperatorSeam_Mint NewOperatorSeam \<lparr>Tenant = ''ops'', Caller = ''root''\<rparr>"

theorem operator_audit_first_witness:
  "log (snd (run_op memStore_ops (demo_env\<lparr>e_emit := \<lambda>_. Some [ErrAuditWriteFailed]\<rparr>) demo_scope (OpRevokeAll ''r'') (demo_cworld NewInMemory)))
     = [EvEmit (op_record demo_scope (OpRevokeAll ''r'')) (Some [ErrAuditWriteFailed])]
   \<and> store (snd (run_op memStore_ops (demo_env\<lparr>e_emit := \<lambda>_. Some [ErrAuditWriteFailed]\<rparr>) demo_scope (OpRevokeAll ''r'') (demo_cworld NewInMemory)))
     = NewInMemory"
proof -
  let ?E = "demo_env\<lparr>e_emit := \<lambda>_. Some [ErrAuditWriteFailed]\<rparr>"
  obtain r w' where run: "run_op memStore_ops ?E demo_scope (OpRevokeAll ''r'') (demo_cworld NewInMemory) = (r, w')"
    by fastforce
  have "log w' = [EvEmit (op_record demo_scope (OpRevokeAll ''r'')) (Some [ErrAuditWriteFailed])]"
    using run by (auto simp: Engine_RevokeAll_def OperatorScope_Valid_def OperatorSeam_Mint_def
        NewOperatorSeam_def emit_def ext_call_def)
  then show ?thesis
    using operator_audit_first [of memStore_ops ?E demo_scope "OpRevokeAll ''r''" "demo_cworld NewInMemory" r w'] run
    by auto
qed

subsection \<open>What a kill leaves behind, over any store that meets the contract\<close>

context store_contract
begin

abbreviation dead :: "'s \<Rightarrow> string \<Rightarrow> bool" where
  "dead s k \<equiv> \<forall>r. row s k = Some r \<longrightarrow> \<not> is_live r"

text \<open>A refund changes no row and no posture, whatever the store answers.\<close>

lemma refund_frame:
  assumes "inv (store w)" and "Gate_RefundConcurrent S E ow w = (a, w')"
  shows "inv (store w') \<and> row (store w') = row (store w) \<and> killed (store w') = killed (store w)
    \<and> denied (store w') = denied (store w)"
proof -
  obtain x s' where ch: "Charge S (e_bg E (step w)) (conc_key ow) (- 1) 0 (store w) = (x, s')" by fastforce
  have w': "store w' = s'"
    using assms(2) ch by (cases x) (auto simp: Gate_RefundConcurrent_def st_call_def)
  show ?thesis
  proof (cases x)
    case (Inl e)
    have "s' = store w" using charge_err [OF assms(1) ch [unfolded Inl]] .
    then show ?thesis using w' assms(1) by simp
  next
    case (Inr v)
    have "is_int64 (- 1)" by (simp add: int64_min_def int64_max_def)
    from charge_ok [OF assms(1) this ch [unfolded Inr]] w' show ?thesis by simp
  qed
qed

lemma forceKillRow_effect:
  assumes "inv (store w)" and "Engine_forceKillRow S E r w = (a, w')"
  shows "inv (store w') \<and> killed (store w') = killed (store w) \<and> denied (store w') = denied (store w)
    \<and> (row (store w') = row (store w) \<and> a \<noteq> None
       \<or> (\<exists>r0. row (store w) (Key r) = Some r0 \<and> Owner r0 = Owner r
            \<and> row (store w') = (row (store w))(Key r \<mapsto> r0\<lparr>State := StateReleased\<rparr>)))"
proof -
  obtain y s2 where rel: "Release S (e_ctx E (Suc (step w))) (Key r) (Owner r) (store w) = (y, s2)"
    by fastforce
  let ?w1 = "w\<lparr>step := Suc (step w), log := log w @ [EvForceKill (forceKill_sandbox r) (e_forcekill E (step w))]\<rparr>"
  let ?w2 = "?w1\<lparr>store := s2, step := Suc (Suc (step w))\<rparr>"
  have run: "(a, w') = (if kill_failed (e_forcekill E (step w)) then (e_forcekill E (step w), ?w1)
      else case y of Inl e \<Rightarrow> (Some e, ?w2) | Inr _ \<Rightarrow> Gate_RefundConcurrent S E (Owner r) ?w2)"
    unfolding assms(2) [symmetric]
    by (cases "kill_failed (e_forcekill E (step w))"; cases y)
      (simp_all add: Engine_forceKillRow_def force_kill_def ext_call_def Custodian_ForceReleaseRow_def
        st_call_def rel)
  show ?thesis
  proof (cases "kill_failed (e_forcekill E (step w))")
    case True
    then show ?thesis using run assms(1) by (cases "e_forcekill E (step w)") auto
  next
    case False
    show ?thesis
    proof (cases y)
      case (Inl e)
      have "s2 = store w" using release_err [OF assms(1) rel [unfolded Inl]] .
      then show ?thesis using run False Inl assms(1) by simp
    next
      case (Inr r')
      from release_ok [OF assms(1) rel [unfolded Inr]] obtain r0 where r0: "row (store w) (Key r) = Some r0"
        "Owner r0 = Owner r" "row s2 = (row (store w))(Key r \<mapsto> r0\<lparr>State := StateReleased\<rparr>)"
        and s2: "inv s2" "killed s2 = killed (store w)" "denied s2 = denied (store w)"
        by auto
      have "Gate_RefundConcurrent S E (Owner r) ?w2 = (a, w')" using run False Inr by simp
      from refund_frame [OF _ this] s2(1)
      have "inv (store w') \<and> row (store w') = row s2 \<and> killed (store w') = killed s2 \<and> denied (store w') = denied s2"
        by simp
      then show ?thesis using r0 s2 by simp
    qed
  qed
qed

lemma forceKillRow_dead_mono:
  assumes "inv (store w)" and "Engine_forceKillRow S E r w = (a, w')" and "dead (store w) k"
  shows "dead (store w') k"
  using forceKillRow_effect [OF assms(1,2)] assms(3) by (auto simp: is_live_iff split: if_splits)

lemma forceKillRows_effect:
  assumes "inv (store w)" and "forceKillRows S E rs e w = (a, w')"
  shows "inv (store w') \<and> killed (store w') = killed (store w) \<and> denied (store w') = denied (store w)
    \<and> (\<forall>k. dead (store w) k \<longrightarrow> dead (store w') k)
    \<and> (a = None \<longrightarrow> e = None \<and> (\<forall>r \<in> set rs. dead (store w') (Key r)))"
  using assms
proof (induction rs arbitrary: e w)
  case (Cons r rs)
  obtain b w1 where kill: "Engine_forceKillRow S E r w = (b, w1)" by fastforce
  note eff = forceKillRow_effect [OF Cons.prems(1) kill]
  from Cons.prems(2) kill
  have rest: "forceKillRows S E rs (if b \<noteq> None \<and> e = None then b else e) w1 = (a, w')" by simp
  have dead: "dead (store w1) (Key r)" if "b = None"
    using eff that by (auto simp: is_live_iff)
  note ih = Cons.IH [OF conjunct1 [OF eff] rest]
  then have frame: "inv (store w')" "killed (store w') = killed (store w1)" "denied (store w') = denied (store w1)"
    and mono: "\<And>k. dead (store w1) k \<Longrightarrow> dead (store w') k"
    and ok: "a = None \<Longrightarrow> (if b \<noteq> None \<and> e = None then b else e) = None"
      "a = None \<Longrightarrow> r' \<in> set rs \<Longrightarrow> dead (store w') (Key r')" for r'
    by blast+
  have "a = None \<longrightarrow> e = None \<and> (\<forall>r' \<in> set (r # rs). dead (store w') (Key r'))"
  proof
    assume a: "a = None"
    then have "e = None \<and> b = None" using ok(1) by (simp split: if_splits)
    moreover have "dead (store w') (Key r)" using mono dead calculation by blast
    ultimately show "e = None \<and> (\<forall>r' \<in> set (r # rs). dead (store w') (Key r'))"
      using ok(2) [OF a] by (metis set_ConsD)
  qed
  moreover have "\<forall>k. dead (store w) k \<longrightarrow> dead (store w') k"
    using forceKillRow_dead_mono [OF Cons.prems(1) kill] mono by blast
  ultimately show ?case using frame eff by metis
qed simp

lemma forceKillKey_effect:
  assumes "inv (store w)" and "Engine_forceKillKey S E k w = (a, w')"
  shows "inv (store w') \<and> killed (store w') = killed (store w) \<and> denied (store w') = denied (store w)
    \<and> (\<forall>k'. dead (store w) k' \<longrightarrow> dead (store w') k') \<and> (a = None \<longrightarrow> dead (store w') k)"
proof (cases "LookupSession S (e_ctx E (step w)) k (store w)")
  case (Inl e)
  then show ?thesis
    using assms lookup_not_found [OF assms(1) Inl]
    by (auto simp: Engine_forceKillKey_def st_read_def split: if_splits)
next
  case (Inr r)
  have row: "row (store w) k = Some r" and key: "Key r = k"
    using lookup_ok [OF assms(1) Inr] row_key [OF assms(1)] by blast+
  let ?w1 = "w\<lparr>step := Suc (step w)\<rparr>"
  show ?thesis
  proof (cases "State r = StateReleased")
    case True
    then show ?thesis using assms Inr row by (auto simp: Engine_forceKillKey_def st_read_def is_live_iff)
  next
    case False
    then have kill: "Engine_forceKillRow S E r ?w1 = (a, w')"
      using assms(2) Inr by (simp add: Engine_forceKillKey_def st_read_def)
    have "inv (store ?w1)" using assms(1) by simp
    from forceKillRow_effect [OF this kill] forceKillRow_dead_mono [OF this kill] key show ?thesis
      by (auto simp: is_live_iff)
  qed
qed

lemma revoke_one_effect:
  assumes "inv (store w)" and "Engine_RevokeOne S E scope key why w = (None, w')"
  shows "inv (store w') \<and> denied (store w') key \<and> dead (store w') key"
proof -
  define en where "en = \<lparr>Scope = ScopeSession, DenyKey = key, Reason = why, Since = e_now E (Suc (step w))\<rparr>"
  obtain y s2 where sd: "SetDeny S (e_ctx E (Suc (step w))) en (store w) = (y, s2)" by fastforce
  have "y = None"
    using assms(2) sd by (cases y) (auto simp: Engine_RevokeOne_def emit_def ext_call_def Let_def st_call_def
        en_def split: if_splits option.splits)
  define w2 where "w2 = w\<lparr>log := log w @ [EvEmit (operator_record ActionRevokeOne scope key why) None],
    store := s2, step := Suc (Suc (step w))\<rparr>"
  have w2: "store w2 = s2" by (simp add: w2_def)
  have kill: "Engine_forceKillKey S E key w2 = (None, w')"
    using assms(2) sd \<open>y = None\<close> by (auto simp: Engine_RevokeOne_def emit_def ext_call_def Let_def
        st_call_def en_def w2_def split: if_splits option.splits)
  have "inv (store w2)" "denied (store w2) key"
    using set_deny_ok [OF assms(1) sd [unfolded \<open>y = None\<close>]] w2 by (simp_all add: en_def)
  with forceKillKey_effect [OF this(1) kill] show ?thesis by simp
qed

lemma revoke_all_effect:
  assumes "inv (store w)" and "Engine_RevokeAll S E scope why w = (None, w')"
    and "dom (row (store w)) \<subseteq> set (e_order E (step w + 2))"
  shows "inv (store w') \<and> killed (store w') \<and> (\<forall>k. dead (store w') k)"
proof -
  define en where "en = \<lparr>Scope = ScopeGlobal, DenyKey = '''', Reason = why, Since = e_now E (Suc (step w))\<rparr>"
  obtain y s2 where sd: "SetDeny S (e_ctx E (Suc (step w))) en (store w) = (y, s2)" by fastforce
  have y: "y = None"
    using assms(2) sd by (cases y) (auto simp: Engine_RevokeAll_def emit_def ext_call_def Let_def st_call_def
        en_def split: if_splits option.splits)
  define w3 where "w3 = w\<lparr>log := log w @ [EvEmit (operator_record ActionRevokeAll scope '''' why) None],
    store := s2, step := Suc (Suc (Suc (step w)))\<rparr>"
  have w3: "store w3 = s2" by (simp add: w3_def)
  from assms(2) sd y obtain ls rs where ls: "LiveLister S = Some ls"
    and live: "ls (e_order E (Suc (Suc (step w)))) (e_ctx E (Suc (Suc (step w)))) s2 = Inr rs"
    and kill: "forceKillRows S E rs None w3 = (None, w')"
    by (auto simp: Engine_RevokeAll_def emit_def ext_call_def Let_def st_call_def st_read_def en_def w3_def
        Custodian_ReservedAndActiveKeys_def split: if_splits option.splits sum.splits)
  have s2: "inv s2" "killed s2" "row s2 = row (store w)"
    using set_deny_ok [OF assms(1) sd [unfolded y]] by (simp_all add: en_def)
  note eff = forceKillRows_effect [OF _ kill, unfolded w3, OF s2(1)]
  have "dead (store w') k" for k
  proof (cases "dead s2 k")
    case False
    then obtain r where r: "row s2 k = Some r" "is_live r" by auto
    have "r \<in> set rs"
      by (rule live_complete [OF s2(1) ls live _ r]) (use assms(3) s2(3) in simp)
    moreover have "Key r = k" by (rule row_key [OF s2(1) r(1)])
    ultimately show ?thesis using eff by blast
  qed (use eff in blast)
  with eff s2(2) show ?thesis by simp
qed

end

context store_contract
begin

lemma refund_ok:
  assumes "inv (store w)" and "0 \<le> cell (store w) (conc_key ow)" and "Gate_RefundConcurrent S E ow w = (None, w')"
  shows "inv (store w') \<and>
    cell (store w') = cell_upd cell_id (conc_key ow) (max 0 (cell (store w) (conc_key ow) - 1)) (cell (store w))"
proof -
  obtain x s' where ch: "Charge S (e_bg E (step w)) (conc_key ow) (- 1) 0 (store w) = (x, s')" by fastforce
  with assms(3) obtain v where "x = Inr v" and "store w' = s'"
    by (cases x) (auto simp: Gate_RefundConcurrent_def st_call_def)
  with charge_down [OF assms(1) _ _ assms(2), of "- 1"] ch show ?thesis by (simp add: int64_min_def)
qed

lemma forceKillRow_cells:
  assumes "inv (store w)" and "0 \<le> cell (store w) (conc_key (Owner r))"
    and "Engine_forceKillRow S E r w = (None, w')"
  shows "inv (store w') \<and> cell (store w') =
    cell_upd cell_id (conc_key (Owner r)) (max 0 (cell (store w) (conc_key (Owner r)) - 1)) (cell (store w))"
proof -
  obtain y s2 where rel: "Release S (e_ctx E (Suc (step w))) (Key r) (Owner r) (store w) = (y, s2)"
    by fastforce
  define w2 where "w2 = w\<lparr>log := log w @ [EvForceKill (forceKill_sandbox r) (e_forcekill E (step w))],
    store := s2, step := Suc (Suc (step w))\<rparr>"
  have nf: "\<not> kill_failed (e_forcekill E (step w))"
    using assms(3) by (cases "e_forcekill E (step w)")
      (auto simp: Engine_forceKillRow_def force_kill_def ext_call_def split: if_splits)
  obtain r' where y: "y = Inr r'" and refund: "Gate_RefundConcurrent S E (Owner r) w2 = (None, w')"
    using assms(3) nf rel
    by (cases y) (simp_all add: Engine_forceKillRow_def force_kill_def ext_call_def
        Custodian_ForceReleaseRow_def st_call_def w2_def)
  have "inv s2" and "cell s2 = cell (store w)" using release_ok [OF assms(1) rel [unfolded y]] by simp_all
  with refund_ok [OF _ _ refund] assms(2) show ?thesis by (simp add: w2_def)
qed

end

subsection \<open>The engine over the in-memory store\<close>

text \<open>
  C4: \<open>RevokeAll\<close> does what it says. When it reports success the kill-switch is engaged, not one row
  is live any more, RESERVED rows included, and every later reservation of any key by anybody is
  refused and changes nothing.
\<close>

theorem revoke_all_kills:
  assumes "mem_inv (store w)" and "Engine_RevokeAll memStore_ops E scope why w = (None, w')"
    and "dom (rows (store w)) \<subseteq> set (e_order E (step w + 2))"
  shows "mem_killed (store w') \<and> (\<forall>k r. rows (store w') k = Some r \<longrightarrow> State r = StateReleased)
    \<and> (\<exists>e. memStore_Reserve now c k ow (store w') = (Inl e, store w'))"
proof -
  note eff = mem.revoke_all_effect [OF assms]
  obtain x m' where res: "memStore_Reserve now c k ow (store w') = (x, m')" by fastforce
  then have "Reserve memStore_ops now c k ow (store w') = (x, m')" by (simp add: memStore_ops_def)
  with mem.reserve_ok [of "store w'" now c k ow _ m'] mem.reserve_err [of "store w'" now c k ow _ m'] eff
  have "\<exists>e. x = Inl e" "m' = store w'" by (cases x; auto)+
  with eff res show ?thesis by (auto simp: is_live_iff)
qed

text \<open>An active session, the operator, and the sweep that ends it.\<close>

definition demo_active :: memStore where
  "demo_active = snd (memStore_Commit False ''k1'' owner_ta demo_bound)"

lemma demo_active_rows:
  "rows demo_active =
     [''k1'' \<mapsto> \<lparr>Key = ''k1'', Owner = owner_ta, State = StateActive, ContainerName = ''c1'', SockDirRoot = ''''\<rparr>]"
  by (simp add: demo_active_def memStore_Commit_def demo_bound_rows fun_eq_iff Let_def)

lemma demo_active_reachable: "mem_reachable demo_active"
  unfolding demo_active_def
  by (rule mr_step [OF demo_bound_reachable st_commit]) (rule prod.collapse [symmetric])

lemmas demo_active_inv = mem_reachable_inv [OF demo_active_reachable]

abbreviation demo_kill_env :: env where
  "demo_kill_env \<equiv> demo_env\<lparr>e_order := \<lambda>_. [''k1'']\<rparr>"

lemma demo_revoke_all_runs:
  "fst (Engine_RevokeAll memStore_ops demo_kill_env demo_scope ''r'' (demo_cworld demo_active)) = None"
  by (simp add: Engine_RevokeAll_def OperatorScope_Valid_def OperatorSeam_Mint_def NewOperatorSeam_def
      emit_def ext_call_def demo_env_def st_call_def st_read_def memStore_ops_def memStore_SetDeny_def
      Custodian_ReservedAndActiveKeys_def memStore_LiveSessions_def demo_active_rows List.map_filter_def
      Engine_forceKillRow_def force_kill_def Custodian_ForceReleaseRow_def memStore_Release_def Let_def
      Gate_RefundConcurrent_def memStore_Charge_def)

theorem revoke_all_kills_witness:
  "\<exists>w'. Engine_RevokeAll memStore_ops demo_kill_env demo_scope ''r'' (demo_cworld demo_active) = (None, w')
     \<and> (\<forall>k r. rows (store w') k = Some r \<longrightarrow> State r = StateReleased)
     \<and> (\<exists>e. memStore_Reserve 0 False ''k2'' owner_ta (store w') = (Inl e, store w'))"
proof -
  obtain w' where run: "Engine_RevokeAll memStore_ops demo_kill_env demo_scope ''r'' (demo_cworld demo_active) = (None, w')"
    using demo_revoke_all_runs by (metis prod.collapse)
  with revoke_all_kills [OF _ run, of 0 False "''k2''" owner_ta] demo_active_inv show ?thesis
    by (auto simp: demo_active_rows)
qed

text \<open>
  C30: \<open>RevokeOne\<close>, when it reports success, leaves the session denylisted and dead, and no later
  reservation of its key succeeds.
\<close>

theorem revoke_one_kills:
  assumes "mem_inv (store w)" and "Engine_RevokeOne memStore_ops E scope key why w = (None, w')"
  shows "mem_denied (store w') key \<and> (\<forall>r. rows (store w') key = Some r \<longrightarrow> State r = StateReleased)
    \<and> (\<exists>e. memStore_Reserve now c key ow (store w') = (Inl e, store w'))"
proof -
  note eff = mem.revoke_one_effect [OF assms]
  obtain x m' where res: "memStore_Reserve now c key ow (store w') = (x, m')" by fastforce
  then have "Reserve memStore_ops now c key ow (store w') = (x, m')" by (simp add: memStore_ops_def)
  with mem.reserve_ok [of "store w'" now c key ow _ m'] mem.reserve_err [of "store w'" now c key ow _ m'] eff
  have "\<exists>e. x = Inl e" "m' = store w'" by (cases x; auto)+
  with eff res show ?thesis by (auto simp: is_live_iff)
qed

lemma demo_revoke_one_runs:
  "fst (Engine_RevokeOne memStore_ops demo_env demo_scope ''k1'' ''r'' (demo_cworld demo_active)) = None"
  by (simp add: Engine_RevokeOne_def OperatorScope_Valid_def OperatorSeam_Mint_def NewOperatorSeam_def
      emit_def ext_call_def demo_env_def st_call_def st_read_def memStore_ops_def memStore_SetDeny_def
      Engine_forceKillKey_def memStore_LookupSession_def demo_active_rows
      Engine_forceKillRow_def force_kill_def Custodian_ForceReleaseRow_def memStore_Release_def Let_def
      Gate_RefundConcurrent_def memStore_Charge_def)

theorem revoke_one_kills_witness:
  "\<exists>w'. Engine_RevokeOne memStore_ops demo_env demo_scope ''k1'' ''r'' (demo_cworld demo_active) = (None, w')
     \<and> mem_denied (store w') ''k1''
     \<and> (\<exists>e. memStore_Reserve 0 False ''k1'' owner_ta (store w') = (Inl e, store w'))"
proof -
  obtain w' where run: "Engine_RevokeOne memStore_ops demo_env demo_scope ''k1'' ''r'' (demo_cworld demo_active) = (None, w')"
    using demo_revoke_one_runs by (metis prod.collapse)
  with revoke_one_kills [OF _ run, of 0 False owner_ta] demo_active_inv show ?thesis by auto
qed

text \<open>
  C38: A reservation can slip past the kill-switch. \<open>Reserve\<close> reads the deny posture, releases the
  deny lock, and inserts the row afterwards; a whole \<open>RevokeAll\<close> fits between the two. The insert
  then succeeds although the kill-switch is engaged and the sweep is over, and \<open>Commit\<close>, which does
  not read the posture, makes the session ACTIVE. The comments of both functions exclude this.
\<close>

theorem reserve_slips_past_revoke_all:
  assumes "mem_inv (store w)" and "reserve_deny_check k (store w) = None"
    and "Engine_RevokeAll memStore_ops E scope why w = (None, w')"
    and "dom (rows (store w)) \<subseteq> set (e_order E (step w + 2))"
  shows "\<exists>r m1 r' m2. reserve_insert now k ow (store w') = (Inr r, m1)
    \<and> memStore_Commit False k ow m1 = (Inr r', m2)
    \<and> mem_killed m2 \<and> rows m2 k = Some r' \<and> State r' = StateActive"
proof -
  note eff = mem.revoke_all_effect [OF assms(1,3,4)]
  obtain x m1 where ins: "reserve_insert now k ow (store w') = (x, m1)" by fastforce
  have dead: "\<forall>r. rows (store w') k = Some r \<longrightarrow> State r = StateReleased"
    using eff by (simp add: is_live_iff)
  then have x: "x = Inr (reserved_row k ow)" and row: "rows m1 k = Some (reserved_row k ow)"
    and deny: "deny m1 = deny (store w')"
    using ins by (auto simp: reserve_insert_def Let_def split: option.splits if_splits)
  then have "memStore_Commit False k ow m1 =
      (Inr ((reserved_row k ow)\<lparr>State := StateActive\<rparr>),
       m1\<lparr>rows := (rows m1)(k \<mapsto> (reserved_row k ow)\<lparr>State := StateActive\<rparr>)\<rparr>)"
    by (simp add: memStore_Commit_def Let_def)
  then show ?thesis using ins x deny eff by auto
qed

theorem reserve_slips_past_revoke_all_witness:
  "\<exists>w' r m1 r' m2. Engine_RevokeAll memStore_ops demo_kill_env demo_scope ''r'' (demo_cworld demo_active) = (None, w')
    \<and> reserve_insert 0 ''k2'' owner_ta (store w') = (Inr r, m1)
    \<and> memStore_Commit False ''k2'' owner_ta m1 = (Inr r', m2)
    \<and> mem_killed m2 \<and> rows m2 ''k2'' = Some r' \<and> State r' = StateActive"
proof -
  obtain w' where run: "Engine_RevokeAll memStore_ops demo_kill_env demo_scope ''r'' (demo_cworld demo_active) = (None, w')"
    using demo_revoke_all_runs by (metis prod.collapse)
  have "deny demo_active = Map.empty"
    by (simp add: demo_active_def demo_bound_def memStore_mutator_defs memStore_Reserve_def
        reserve_insert_def reserve_deny_check_def NewInMemory_def Let_def)
  then have "reserve_deny_check ''k2'' (store (demo_cworld demo_active)) = None"
    by (simp add: reserve_deny_check_def)
  from reserve_slips_past_revoke_all [OF _ this run, of 0 owner_ta] demo_active_inv run show ?thesis
    by (auto simp: demo_active_rows)
qed

end
