(* ===== verification/Lifecycle.thy ===== *)
theory Lifecycle
  imports Control_Types Quota Registry
begin

text \<open>
  The create pipeline of \<open>internal/lifecycle\<close> (\<open>manager.go\<close>, \<open>stages.go\<close>, \<open>intent.go\<close>): the manager's
  configuration, the state threaded through the stages, the ten stages in their fixed order, the
  compensators they push, the unwind, the idempotent-create guard and \<open>Create\<close> itself. A compensator
  is a value of a datatype; the closures of the source that read the create state after the fact
  (the warm-pool disposal) get the state at the time of the unwind.
\<close>

subsection \<open>Configuration\<close>

record StorageScope =
  SsWorkspace :: string
  SsOrg :: string
  SsScope :: string
  SsIntent :: Intent
  SsDownloadable :: bool

text \<open>
  A collaborator that may be nil is a flag; its answers are the environment's. The configuration
  passed to \<open>NewManager\<close> has the same fields, with the allow-list as the operator wrote it.
\<close>

record Manager =
  mgr_limits :: Limits
  mgr_profile :: WorkloadProfile
  mgr_tier :: RuntimeTier
  defaultImage :: string
  allowedImages :: "string list"
  signer_wired :: bool
  push_wired :: bool
  storageScope :: StorageScope
  grantedIntents :: "Intent list"
  ticket_wired :: bool
  dialer_wired :: bool
  exec_wired :: bool
  execVerifyKey :: "string option"
  metrics_wired :: bool
  events_wired :: bool
  pool_wired :: bool
  claimer_wired :: bool

type_synonym ManagerDeps = Manager

definition NewManager :: "ManagerDeps \<Rightarrow> Manager" where
  "NewManager deps = deps\<lparr>allowedImages :=
     (if defaultImage deps \<noteq> '''' then [defaultImage deps] else [])
     @ filter (\<lambda>img. img \<noteq> '''') (allowedImages deps)\<rparr>"

record CreateInput =
  CiCaller :: AuthenticatedCaller
  SessionHint :: string
  CiImage :: string
  CiMount :: MountIntent
  CiEgress :: EgressPolicy
  CiResources :: Caps

subsection \<open>Mount intents\<close>

definition deriveMountIntent :: "bool \<Rightarrow> Intent" where
  "deriveMountIntent readOnly = (if readOnly then IntentRead else IntentWrite)"

type_synonym IntentCeiling = "Intent list"

definition NewIntentCeiling :: "Intent list \<Rightarrow> IntentCeiling" where
  "NewIntentCeiling intents = intents"

definition DefaultIntentCeiling :: IntentCeiling where
  "DefaultIntentCeiling = NewIntentCeiling [IntentRead, IntentWrite]"

definition IntentCeiling_Admits :: "IntentCeiling \<Rightarrow> Intent \<Rightarrow> bool" where
  "IntentCeiling_Admits c i \<longleftrightarrow> i \<in> set c"

definition hasStorageScope :: "MountIntent \<Rightarrow> bool" where
  "hasStorageScope mt \<longleftrightarrow> MtFilesystemID mt \<noteq> '''' \<or> MemoryStoreID mt \<noteq> ''''"

subsection \<open>The create state and the compensators\<close>

record createState =
  cs_in :: CreateInput
  cs_owner :: Identity
  cs_handle :: string
  cs_key :: RKey
  cs_row :: SessionRow
  cs_staged :: Staged
  cs_spec :: "SessionSpec option"
  cs_sandbox :: Sandbox
  cs_sockDirRoot :: string
  cs_unit :: "Unit option"
  claimAttempted :: bool
  reservedMark :: time
  storageToken :: string
  cs_pushed :: Pushed

abbreviation zero_identity :: Identity where
  "zero_identity \<equiv> \<lparr>Tenant = '''', Caller = ''''\<rparr>"

abbreviation zero_material :: HandoffMaterial where
  "zero_material \<equiv> \<lparr>ContainerInfoJSON = '''', ContainerInfoHostPath = '''', ContainerInfoGuestPath = '''',
     PublicKeyEd25519 = '''', PublicKeyHostPath = '''', PublicKeyGuestPath = '''', HostSockDir = '''',
     MountConfigGuestPath = ''''\<rparr>"

abbreviation zero_sandbox :: Sandbox where
  "zero_sandbox \<equiv> \<lparr>SbName = '''', RuntimeID = '''', SbEgress = \<lparr>EbName = '''', EbFilesystemID = ''''\<rparr>,
     SbTier = TierRunc, SbAlive = False, SbSockDirRoot = ''''\<rparr>"

definition new_createState :: "CreateInput \<Rightarrow> createState" where
  "new_createState inp =
     \<lparr>cs_in = inp, cs_owner = zero_identity, cs_handle = '''', cs_key = RKey '''',
      cs_row = reserved_row '''' zero_identity, cs_staged = \<lparr>Material = zero_material, StRoot = ''''\<rparr>,
      cs_spec = None, cs_sandbox = zero_sandbox, cs_sockDirRoot = '''', cs_unit = None,
      claimAttempted = False, reservedMark = 0, storageToken = '''',
      cs_pushed = \<lparr>PuPath = '''', PuGuestPath = ''''\<rparr>\<rparr>"

datatype compensator =
    CReceipt Receipt
  | CRelease RKey Identity
  | CUnstage Staged
  | CWarm Unit
  | CScrub Pushed
  | CForceKill Sandbox

definition note_metric :: "Manager \<Rightarrow> metric \<Rightarrow> 's cworld \<Rightarrow> 's cworld" where
  "note_metric m x w = (if metrics_wired m then note_event (EvMetric x) w else w)"

definition dispose_unit :: "env \<Rightarrow> Unit \<Rightarrow> 's cworld \<Rightarrow> err option \<times> 's cworld" where
  "dispose_unit E u = ext_call (e_dispose E) (EvDispose u)"

text \<open>Running a compensator under the detached context; its error is dropped by the unwind.\<close>

fun run_comp :: "'s Store \<Rightarrow> env \<Rightarrow> Manager \<Rightarrow> createState \<Rightarrow> compensator \<Rightarrow> 's cworld \<Rightarrow> 's cworld" where
  "run_comp S E m st (CReceipt rc) w =
     (case Receipt_Apply S E rc w of (e, _, w1) \<Rightarrow>
        if e \<noteq> None then note_metric m IncQuotaRefundFailed w1 else w1)"
| "run_comp S E m st (CRelease key owner) w = snd (Custodian_Release S (e_bg E) key owner w)"
| "run_comp S E m st (CUnstage sg) w = snd (ext_call (e_unstage E) (EvUnstage sg) w)"
| "run_comp S E m st (CWarm u) w =
     (if claimAttempted st then snd (dispose_unit E u w) else note_event (EvPoolPut u) w)"
| "run_comp S E m st (CScrub p) w = snd (ext_call (e_scrub E) (EvScrub p) w)"
| "run_comp S E m st (CForceKill sb) w = snd (force_kill E sb w)"

definition unwind ::
  "'s Store \<Rightarrow> env \<Rightarrow> Manager \<Rightarrow> createState \<Rightarrow> compensator list \<Rightarrow> 's cworld \<Rightarrow> 's cworld" where
  "unwind S E m st comps w = foldl (\<lambda>w c. run_comp S E m st c w) w (rev comps)"

subsection \<open>Audit texts\<close>

definition reasonErrCap :: nat where "reasonErrCap = 200"

definition stageFailureReason :: "env \<Rightarrow> string \<Rightarrow> err \<Rightarrow> string" where
  "stageFailureReason E stage e =
     (let msg = e_errtext E e;
          msg' = (if reasonErrCap < length msg then take reasonErrCap msg @ ''...'' else msg)
      in ''stage-failed:'' @ stage @ '': '' @ msg')"

definition quotaRejectionReason :: "err \<Rightarrow> string" where
  "quotaRejectionReason e =
     (if errors_is e ErrStoreUnavailable then ''quota-rejection:store-unavailable''
      else if errors_is e ErrCreateRateDimension then ''quota-rejection:create-rate''
      else if errors_is e ErrConcurrentDimension then ''quota-rejection:concurrent-sessions''
      else ''quota-rejection'')"

definition create_record :: "Action \<Rightarrow> createState \<Rightarrow> string \<Rightarrow> bool \<Rightarrow> Record" where
  "create_record a st why warm =
     \<lparr>RcAction = a, RcChannel = Channel_String (AcChannel (CiCaller (cs_in st))),
      RcKey = RKey_String (cs_key st), RcCaller = Caller (cs_owner st), RcTenant = Tenant (cs_owner st),
      RcReason = why, RcRevokeOutcome = '''', RcWarmHit = warm\<rparr>"

definition emitCreateRejected :: "env \<Rightarrow> createState \<Rightarrow> string \<Rightarrow> 's cworld \<Rightarrow> err option \<times> 's cworld" where
  "emitCreateRejected E st cause = emit E (create_record ActionCreateRejected st cause False)"

subsection \<open>The stages\<close>

text \<open>A stage returns an error, or the compensator it owes (if any), with the updated state.\<close>

type_synonym 's stage_result = "compensator option result \<times> createState \<times> 's cworld"

definition stageResolveIdentity :: "createState \<Rightarrow> 's cworld \<Rightarrow> 's stage_result" where
  "stageResolveIdentity st w =
     (let owner = AcIdentity (CiCaller (cs_in st)) in
      if Caller owner = '''' \<or> Tenant owner = '''' then (Inl [ErrUnattested], st, w)
      else
        let handle = mintHandle (SessionHint (cs_in st));
            key = DeriveKey owner handle;
            st' = st\<lparr>cs_owner := owner, cs_handle := handle, cs_key := key\<rparr>
        in if RKey_IsZero key then (Inl [ErrUnattested], st', w) else (Inr None, st', w))"

definition stageAdmit :: "env \<Rightarrow> Manager \<Rightarrow> createState \<Rightarrow> 's cworld \<Rightarrow> 's stage_result" where
  "stageAdmit E m st w =
     (let decision = Decide (mgr_profile m) (mgr_tier m) in
      if \<not> Admitted decision then
        (case emitCreateRejected E st ''admission-rejection'' w of
           (Some e, w1) \<Rightarrow> (Inl e, st, w1)
         | (None, w1) \<Rightarrow> (Inl (RejectedError (RejReason decision)), st, w1))
      else (Inr None, st, w))"

definition stageQuotaCharge :: "'s Store \<Rightarrow> env \<Rightarrow> Manager \<Rightarrow> createState \<Rightarrow> 's cworld \<Rightarrow> 's stage_result" where
  "stageQuotaCharge S E m st w =
     (case Gate_ChargeCreate S E (mgr_limits m) (cs_owner st) w of
        (Inl e, w1) \<Rightarrow>
          (case emitCreateRejected E st (quotaRejectionReason e) w1 of
             (Some e', w2) \<Rightarrow> (Inl e', st, w2) | (None, w2) \<Rightarrow> (Inl e, st, w2))
      | (Inr rc, w1) \<Rightarrow> (Inr (Some (CReceipt rc)), st, w1))"

definition stageReserve :: "'s Store \<Rightarrow> env \<Rightarrow> createState \<Rightarrow> 's cworld \<Rightarrow> 's stage_result" where
  "stageReserve S E st w =
     (case Custodian_Reserve S E (e_ctx E) (cs_key st) (cs_owner st) w of
        (Inl e, w1) \<Rightarrow>
          (case emitCreateRejected E st ''killswitch-rejection'' w1 of
             (Some e', w2) \<Rightarrow> (Inl e', st, w2) | (None, w2) \<Rightarrow> (Inl e, st, w2))
      | (Inr r, w1) \<Rightarrow>
          (Inr (Some (CRelease (cs_key st) (cs_owner st))),
           st\<lparr>cs_row := r, reservedMark := e_now E (step w1)\<rparr>, w1))"

definition warmEnabled :: "Manager \<Rightarrow> bool" where
  "warmEnabled m \<longleftrightarrow> pool_wired m \<and> claimer_wired m \<and> execVerifyKey m \<noteq> None"

definition warmProfile :: "Manager \<Rightarrow> CreateInput \<Rightarrow> Profile" where
  "warmProfile m inp =
     \<lparr>PrImageRef = CiImage inp, PrCPUCores = CPUCores (CiResources inp),
      PrMemoryBytes = MemoryBytes (CiResources inp),
      PrPidsLimit = (case PidsLimit (CiResources inp) of None \<Rightarrow> 0 | Some p \<Rightarrow> p),
      PrFUSE = (hasStorageScope (CiMount inp) \<and> signer_wired m \<and> push_wired m)\<rparr>"

definition stage_cold_handoff :: "env \<Rightarrow> Manager \<Rightarrow> createState \<Rightarrow> 's cworld \<Rightarrow> 's stage_result" where
  "stage_cold_handoff E m st w =
     (case ext_call (e_stage E) (EvStage (RKey_String (cs_key st)) (execVerifyKey m) [CiMount (cs_in st)]) w of
        (Inl e, w1) \<Rightarrow> (Inl e, st, w1)
      | (Inr sg, w1) \<Rightarrow> (Inr (Some (CUnstage sg)), st\<lparr>cs_staged := sg\<rparr>, w1))"

definition stageStageHandoff :: "env \<Rightarrow> Manager \<Rightarrow> createState \<Rightarrow> 's cworld \<Rightarrow> 's stage_result" where
  "stageStageHandoff E m st w =
     (if warmEnabled m then
        (case ext_call (e_poolget E) (EvPoolGet (warmProfile m (cs_in st))) w of
           (Some u, w1) \<Rightarrow>
             (case UnHandoff u of
                None \<Rightarrow> stage_cold_handoff E m st (snd (dispose_unit E u w1))
              | Some sg \<Rightarrow> (Inr (Some (CWarm u)), st\<lparr>cs_unit := Some u, cs_staged := sg\<rparr>, w1))
         | (None, w1) \<Rightarrow> stage_cold_handoff E m st w1)
      else stage_cold_handoff E m st w)"

definition mint_request :: "Manager \<Rightarrow> createState \<Rightarrow> StorageMintReq" where
  "mint_request m st =
     \<lparr>MqSessionKey = RKey_String (cs_key st), MqFilesystemID = MtFilesystemID (CiMount (cs_in st)),
      MqWorkspace = SsWorkspace (storageScope m), MqOrg = SsOrg (storageScope m),
      MqScope = SsScope (storageScope m), MqIntent = deriveMountIntent (ReadOnly (CiMount (cs_in st))),
      MqDownloadable = SsDownloadable (storageScope m)\<rparr>"

definition stageMintStorageJWT :: "env \<Rightarrow> Manager \<Rightarrow> createState \<Rightarrow> 's cworld \<Rightarrow> 's stage_result" where
  "stageMintStorageJWT E m st w =
     (if \<not> signer_wired m then (Inr None, st, w)
      else if \<not> hasStorageScope (CiMount (cs_in st)) then (Inr None, st, w)
      else if \<not> IntentCeiling_Admits (grantedIntents m) (deriveMountIntent (ReadOnly (CiMount (cs_in st))))
      then (Inl [ErrIntentOutsideCeiling], st, w)
      else case ext_call (e_mint E) (EvMint (mint_request m st)) w of
        (Inl e, w1) \<Rightarrow> (Inl e, st, w1)
      | (Inr tok, w1) \<Rightarrow>
          let st' = st\<lparr>storageToken := tok\<rparr> in
          if ticket_wired m then
            (case ext_call (e_ticket E) (EvTicket (RKey_String (cs_key st'))) w1 of
               (Some e, w2) \<Rightarrow> (Inl e, st', w2) | (None, w2) \<Rightarrow> (Inr None, st', w2))
          else (Inr None, st', w1))"

definition stageRenderPushMount :: "env \<Rightarrow> Manager \<Rightarrow> createState \<Rightarrow> 's cworld \<Rightarrow> 's stage_result" where
  "stageRenderPushMount E m st w =
     (if \<not> signer_wired m \<or> \<not> push_wired m then (Inr None, st, w)
      else if \<not> hasStorageScope (CiMount (cs_in st)) then (Inr None, st, w)
      else case ext_call (e_render E) (EvRender [CiMount (cs_in st)] [storageToken st]) w of
        (Inl e, w1) \<Rightarrow> (Inl e, st, w1)
      | (Inr cfg, w1) \<Rightarrow>
          (case ext_call (e_push E) (EvPush (cs_staged st) cfg) w1 of
             (Inl e, w2) \<Rightarrow> (Inl e, st, w2)
           | (Inr p, w2) \<Rightarrow> (Inr (Some (CScrub p)), st\<lparr>cs_pushed := p\<rparr>, w2)))"

definition SchemaV1Alpha :: string where "SchemaV1Alpha = ''v1alpha''"

definition session_spec :: "createState \<Rightarrow> SessionSpec" where
  "session_spec st =
     \<lparr>SchemaVersion = SchemaV1Alpha, SpName = RKey_String (cs_key st), SpOwner = cs_owner st,
      SpImage = CiImage (cs_in st), SpMounts = [CiMount (cs_in st)], SpEgress = CiEgress (cs_in st),
      SpResources = CiResources (cs_in st),
      SpHandoff = (if PuPath (cs_pushed st) \<noteq> ''''
                   then (Material (cs_staged st))\<lparr>MountConfigGuestPath := PuGuestPath (cs_pushed st)\<rparr>
                   else Material (cs_staged st))\<rparr>"

definition stageMaterialize :: "env \<Rightarrow> Manager \<Rightarrow> createState \<Rightarrow> 's cworld \<Rightarrow> 's stage_result" where
  "stageMaterialize E m st w =
     (case cs_unit st of
        Some u \<Rightarrow>
          let st1 = st\<lparr>claimAttempted := True\<rparr> in
          (case ext_call (e_claim E) (EvClaim u (RKey_String (cs_key st)) (execVerifyKey m) (CiEgress (cs_in st))) w of
             (Inl e, w1) \<Rightarrow> (Inl e, st1, snd (dispose_unit E u w1))
           | (Inr (sb, mat), w1) \<Rightarrow>
               (Inr (Some (CForceKill sb)),
                st1\<lparr>cs_sandbox := sb, cs_staged := (cs_staged st)\<lparr>Material := mat\<rparr>,
                    cs_sockDirRoot := SbSockDirRoot sb\<rparr>, w1))
      | None \<Rightarrow>
          let spec = session_spec st; st1 = st\<lparr>cs_spec := Some spec\<rparr> in
          (case ext_call (e_materialize E) (EvMaterialize spec) w of
             (Inl e, w1) \<Rightarrow> (Inl e, st1, w1)
           | (Inr sb, w1) \<Rightarrow> (Inr (Some (CForceKill sb)), st1\<lparr>cs_sandbox := sb\<rparr>, w1)))"

definition stageCommit :: "'s Store \<Rightarrow> env \<Rightarrow> Manager \<Rightarrow> createState \<Rightarrow> 's cworld \<Rightarrow> 's stage_result" where
  "stageCommit S E m st w =
     (case Custodian_Commit S (e_ctx E) (cs_key st) (cs_owner st) w of
        (Inl e, w1) \<Rightarrow> (Inl e, st, w1)
      | (Inr r, w1) \<Rightarrow>
          let st' = st\<lparr>cs_row := r\<rparr> in
          (case emit E (create_record ActionCreateCommit st' '''' (cs_unit st' \<noteq> None)) w1 of
             (Some e, w2) \<Rightarrow> (Inl e, st', w2)
           | (None, w2) \<Rightarrow>
               let w3 = snd (Custodian_RecordActivation S (e_ctx E) (cs_key st')
                          (CiResources (cs_in st')) (e_now E (step w2)) w2)
               in (Inr None, st', note_metric m (ObserveStart (e_now E (step w3) - reservedMark st')) w3)))"

definition stageBind :: "'s Store \<Rightarrow> env \<Rightarrow> createState \<Rightarrow> 's cworld \<Rightarrow> 's stage_result" where
  "stageBind S E st w =
     (let containerName = (if RuntimeID (cs_sandbox st) = '''' then ''ocu-sess-'' @ RKey_String (cs_key st)
                           else RuntimeID (cs_sandbox st))
      in case Custodian_BindContainerName S (e_ctx E) (cs_key st) (cs_owner st) containerName
                (cs_sockDirRoot st) w of
           (Inl e, w1) \<Rightarrow> (Inl e, st, w1)
         | (Inr r, w1) \<Rightarrow> (Inr None, st\<lparr>cs_row := r\<rparr>, w1))"

subsection \<open>The pipeline\<close>

datatype stage_fn =
    FResolveIdentity | FAdmit | FQuotaCharge | FReserve | FStageHandoff | FMintStorageJWT
  | FRenderPushMount | FMaterialize | FCommit | FBind

record stage =
  stage_name :: string
  stage_run :: stage_fn
  emitsOwnRejection :: bool

definition manager_stages :: "stage list" where
  "manager_stages =
    [\<lparr>stage_name = ''resolveIdentity'', stage_run = FResolveIdentity, emitsOwnRejection = False\<rparr>,
     \<lparr>stage_name = ''admit'', stage_run = FAdmit, emitsOwnRejection = True\<rparr>,
     \<lparr>stage_name = ''quotaCharge'', stage_run = FQuotaCharge, emitsOwnRejection = True\<rparr>,
     \<lparr>stage_name = ''reserve'', stage_run = FReserve, emitsOwnRejection = True\<rparr>,
     \<lparr>stage_name = ''stageHandoff'', stage_run = FStageHandoff, emitsOwnRejection = False\<rparr>,
     \<lparr>stage_name = ''mintStorageJWT'', stage_run = FMintStorageJWT, emitsOwnRejection = False\<rparr>,
     \<lparr>stage_name = ''renderPushMount'', stage_run = FRenderPushMount, emitsOwnRejection = False\<rparr>,
     \<lparr>stage_name = ''materialize'', stage_run = FMaterialize, emitsOwnRejection = False\<rparr>,
     \<lparr>stage_name = ''commit'', stage_run = FCommit, emitsOwnRejection = False\<rparr>,
     \<lparr>stage_name = ''bindContainerName'', stage_run = FBind, emitsOwnRejection = False\<rparr>]"

fun run_stage :: "'s Store \<Rightarrow> env \<Rightarrow> Manager \<Rightarrow> stage_fn \<Rightarrow> createState \<Rightarrow> 's cworld \<Rightarrow> 's stage_result" where
  "run_stage S E m FResolveIdentity st w = stageResolveIdentity st w"
| "run_stage S E m FAdmit st w = stageAdmit E m st w"
| "run_stage S E m FQuotaCharge st w = stageQuotaCharge S E m st w"
| "run_stage S E m FReserve st w = stageReserve S E st w"
| "run_stage S E m FStageHandoff st w = stageStageHandoff E m st w"
| "run_stage S E m FMintStorageJWT st w = stageMintStorageJWT E m st w"
| "run_stage S E m FRenderPushMount st w = stageRenderPushMount E m st w"
| "run_stage S E m FMaterialize st w = stageMaterialize E m st w"
| "run_stage S E m FCommit st w = stageCommit S E m st w"
| "run_stage S E m FBind st w = stageBind S E st w"

fun run_stages ::
  "'s Store \<Rightarrow> env \<Rightarrow> Manager \<Rightarrow> stage list \<Rightarrow> compensator list \<Rightarrow> createState \<Rightarrow> 's cworld \<Rightarrow>
   SessionRow result \<times> createState \<times> 's cworld" where
  "run_stages S E m [] comps st w = (Inr (cs_row st), st, w)"
| "run_stages S E m (s # ss) comps st w =
     (case run_stage S E m (stage_run s) st w of
        (Inl e, st', w1) \<Rightarrow>
          let w2 = (if \<not> emitsOwnRejection s \<and> Caller (cs_owner st') \<noteq> ''''
                    then snd (emitCreateRejected E st' (stageFailureReason E (stage_name s) e) w1)
                    else w1)
          in (Inl e, st', unwind S E m st' comps w2)
      | (Inr None, st', w1) \<Rightarrow> run_stages S E m ss comps st' w1
      | (Inr (Some c), st', w1) \<Rightarrow> run_stages S E m ss (comps @ [c]) st' w1)"

definition publishEvent :: "env \<Rightarrow> Manager \<Rightarrow> SessionState \<Rightarrow> string \<Rightarrow> 's cworld \<Rightarrow> 's cworld" where
  "publishEvent E m newState key w =
     (if \<not> events_wired m then w
      else note_event (EvPublish \<lparr>LeKey = key, LeState = newState, LeAt = e_now E (step w)\<rparr>) w)"

text \<open>The idempotent-create guard: \<open>Some\<close> row when the caller's own ACTIVE session is resumed.\<close>

definition tryResume ::
  "'s Store \<Rightarrow> env \<Rightarrow> Manager \<Rightarrow> createState \<Rightarrow> 's cworld \<Rightarrow> SessionRow option result \<times> createState \<times> 's cworld" where
  "tryResume S E m st w =
     (case stageResolveIdentity st w of
        (Inl e, st', w1) \<Rightarrow> (Inl e, st', w1)
      | (Inr _, st', w1) \<Rightarrow>
          (case Custodian_LookupForCaller S (e_ctx E) (cs_key st') (cs_owner st') w1 of
             (Inl e, w2) \<Rightarrow> (if errors_is e ErrNotOwned then Inr None else Inl e, st', w2)
           | (Inr r, w2) \<Rightarrow>
               if State r \<noteq> StateActive then (Inr None, st', w2)
               else case emit E (create_record ActionCreateResume st' '''' False) w2 of
                 (Some e, w3) \<Rightarrow> (Inl e, st', w3)
               | (None, w3) \<Rightarrow> (Inr (Some r), st', publishEvent E m StateActive (Key r) w3)))"

definition Manager_Create ::
  "'s Store \<Rightarrow> env \<Rightarrow> Manager \<Rightarrow> CreateInput \<Rightarrow> 's cworld \<Rightarrow> SessionRow result \<times> 's cworld" where
  "Manager_Create S E m inp0 w =
     (let inp = (if CiImage inp0 = '''' then inp0\<lparr>CiImage := defaultImage m\<rparr> else inp0) in
      if CiImage inp = '''' then (Inl [ErrInvalidArgument], w)
      else if CiImage inp \<notin> set (allowedImages m) then (Inl [ErrInvalidArgument], w)
      else case tryResume S E m (new_createState inp) w of
        (Inl e, _, w1) \<Rightarrow> (Inl e, w1)
      | (Inr (Some r), _, w1) \<Rightarrow> (Inr r, w1)
      | (Inr None, st, w1) \<Rightarrow>
          (case run_stages S E m manager_stages [] st w1 of
             (Inl e, _, w2) \<Rightarrow> (Inl e, w2)
           | (Inr r, _, w2) \<Rightarrow> (Inr r, publishEvent E m StateActive (Key r) (note_metric m IncCreate w2))))"

end
