(* ===== verification/Lifecycle_Create.thy ===== *)
theory Lifecycle_Create
  imports Lifecycle Killswitch
begin

text \<open>
  The create pipeline leaves nothing behind when it fails and delivers what it promises when it
  succeeds. The first part is about the log of outside calls and holds for any store: resources
  acquired and reclaimed, and rejection records. The second part is about the store, for every
  store that meets the contract. The properties combine the two for the in-memory store.
\<close>

subsection \<open>Resources and records in the log\<close>

datatype resource = RSandbox Sandbox | RStaged Staged | RUnit Unit | RConfig Pushed

fun acquired :: "event \<Rightarrow> resource set" where
  "acquired (EvMaterialize _ (Inr sb)) = {RSandbox sb}"
| "acquired (EvClaim _ _ _ _ (Inr (sb, _))) = {RSandbox sb}"
| "acquired (EvStage _ _ _ (Inr sg)) = {RStaged sg}"
| "acquired (EvPoolGet _ (Some u)) = {RUnit u}"
| "acquired (EvPush _ _ (Inr p)) = {RConfig p}"
| "acquired _ = {}"

fun reclaimed :: "event \<Rightarrow> resource set" where
  "reclaimed (EvForceKill sb _) = {RSandbox sb}"
| "reclaimed (EvUnstage sg _) = {RStaged sg}"
| "reclaimed (EvPoolPut u) = {RUnit u}"
| "reclaimed (EvDispose u _) = {RUnit u}"
| "reclaimed (EvScrub p _) = {RConfig p}"
| "reclaimed _ = {}"

text \<open>The resources acquired and not yet handed to their reclaimer, in order of the calls.\<close>

fun held :: "resource set \<Rightarrow> event list \<Rightarrow> resource set" where
  "held R [] = R"
| "held R (ev # evs) = held ((R \<union> acquired ev) - reclaimed ev) evs"

lemma held_append [simp]: "held R (xs @ ys) = held (held R xs) ys"
  by (induction xs arbitrary: R) simp_all

lemma held_mono: "R \<subseteq> R' \<Longrightarrow> held R evs \<subseteq> held R' evs"
proof (induction evs arbitrary: R R')
  case (Cons ev evs)
  then have "(R \<union> acquired ev) - reclaimed ev \<subseteq> (R' \<union> acquired ev) - reclaimed ev" by blast
  then show ?case using Cons.IH by simp
qed simp

fun is_rejection :: "event \<Rightarrow> bool" where
  "is_rejection (EvEmit rec _) \<longleftrightarrow> RcAction rec = ActionCreateRejected"
| "is_rejection _ \<longleftrightarrow> False"

abbreviation rejections :: "event list \<Rightarrow> nat" where
  "rejections evs \<equiv> length (filter is_rejection evs)"

text \<open>\<open>w'\<close> is \<open>w\<close> after calls that satisfy \<open>P\<close>.\<close>

definition after_calls :: "'s cworld \<Rightarrow> (event list \<Rightarrow> bool) \<Rightarrow> 's cworld \<Rightarrow> bool" where
  "after_calls w P w' \<longleftrightarrow> (\<exists>evs. log w' = log w @ evs \<and> P evs)"

lemma after_calls_log: "log w' = log w @ evs \<Longrightarrow> after_calls w P w' \<longleftrightarrow> P evs"
  by (simp add: after_calls_def)

lemma after_calls_trans:
  "after_calls w P w1 \<Longrightarrow> after_calls w1 Q w2 \<Longrightarrow> (\<And>xs ys. P xs \<Longrightarrow> Q ys \<Longrightarrow> R (xs @ ys)) \<Longrightarrow> after_calls w R w2"
  unfolding after_calls_def by (metis append.assoc)

lemma after_calls_mono: "after_calls w P w' \<Longrightarrow> (\<And>evs. P evs \<Longrightarrow> Q evs) \<Longrightarrow> after_calls w Q w'"
  by (auto simp: after_calls_def)

subsection \<open>Store calls make no outside call\<close>

lemma custodian_log [frame_simps]:
  "log (snd (Custodian_Reserve S E cx k ow w)) = log w"
  "log (snd (Custodian_Commit S cx k ow w)) = log w"
  "log (snd (Custodian_BindContainerName S cx k ow n sd w)) = log w"
  "log (snd (Custodian_Release S cx k ow w)) = log w"
  "log (snd (Custodian_LookupForCaller S cx k ow w)) = log w"
  "log (snd (Custodian_RecordActivation S cx k cp t w)) = log w"
  by (auto simp: Custodian_Reserve_def Custodian_Commit_def Custodian_BindContainerName_def
      Custodian_Release_def Custodian_LookupForCaller_def Custodian_RecordActivation_def st_read_def
      frame_simps split: option.split sum.split)

lemma charge_create_log [frame_simps]: "log (snd (Gate_ChargeCreate S E L ow w)) = log w"
  by (auto simp: Gate_ChargeCreate_def refundOne_def st_call_def Let_def frame_simps split: prod.splits sum.splits)

lemma refund_cells_log: "log (snd (refund_cells S E cs e w)) = log w"
  by (induction S E cs e w rule: refund_cells.induct) (auto simp: st_call_def split: prod.splits sum.splits)

lemma receipt_apply_log: "Receipt_Apply S E rc w = (e, rc', w') \<Longrightarrow> log w' = log w"
  using refund_cells_log [of S E "rev (charged rc)" None w]
  by (auto simp: Receipt_Apply_def split: if_splits prod.splits)

lemma store_call_log_eq:
  "Custodian_Reserve S E cx k ow w = (x, w1) \<Longrightarrow> log w1 = log w"
  "Custodian_Commit S cx k ow w = (x, w1) \<Longrightarrow> log w1 = log w"
  "Custodian_BindContainerName S cx k ow n sd w = (x, w1) \<Longrightarrow> log w1 = log w"
  "Custodian_LookupForCaller S cx k ow w = (x, w1) \<Longrightarrow> log w1 = log w"
  "Gate_ChargeCreate S E L ow w = (y, w1) \<Longrightarrow> log w1 = log w"
  by (metis custodian_log charge_create_log snd_conv)+

lemma emit_rejected_eq:
  "emitCreateRejected E st c w = (a, w1) \<longleftrightarrow>
     a = e_emit E (step w) \<and> w1 = w\<lparr>step := Suc (step w),
       log := log w @ [EvEmit (create_record ActionCreateRejected st c False) a]\<rparr>"
  by (simp add: emitCreateRejected_def emit_def ext_call_eq)

subsection \<open>The log of a stage and of the unwind\<close>

fun comp_res :: "compensator \<Rightarrow> resource set" where
  "comp_res (CUnstage sg) = {RStaged sg}"
| "comp_res (CWarm u) = {RUnit u}"
| "comp_res (CScrub p) = {RConfig p}"
| "comp_res (CForceKill sb) = {RSandbox sb}"
| "comp_res _ = {}"

fun gained :: "compensator option result \<Rightarrow> resource set" where
  "gained (Inr (Some c)) = comp_res c"
| "gained _ = {}"

fun own :: "stage_fn \<Rightarrow> bool" where
  "own FAdmit \<longleftrightarrow> True"
| "own FQuotaCharge \<longleftrightarrow> True"
| "own FReserve \<longleftrightarrow> True"
| "own _ \<longleftrightarrow> False"

lemma manager_stages_own: "s \<in> set manager_stages \<Longrightarrow> emitsOwnRejection s = own (stage_run s)"
  by (auto simp: manager_stages_def)

lemma create_record_action [simp]: "RcAction (create_record a st c h) = a"
  by (simp add: create_record_def)

text \<open>
  A stage takes no resource without handing over the compensator that gives it back, and writes a
  rejection record exactly when it refuses and is one of the stages that write their own.
\<close>

abbreviation stage_calls :: "stage_fn \<Rightarrow> compensator option result \<Rightarrow> event list \<Rightarrow> bool" where
  "stage_calls f x evs \<equiv> rejections evs = (if own f \<and> isl x then 1 else 0) \<and> (\<forall>R. held R evs \<subseteq> R \<union> gained x)"

lemma cold_handoff_calls:
  "stage_cold_handoff E m st w = (x, st', w') \<Longrightarrow> after_calls w (stage_calls FStageHandoff x) w'"
  by (auto simp: stage_cold_handoff_def ext_call_def after_calls_log split: sum.splits)

lemma quiet_then_stage:
  assumes "after_calls w (\<lambda>evs. rejections evs = 0 \<and> (\<forall>R. held R evs \<subseteq> R)) w1"
    and "after_calls w1 (stage_calls f x) w'"
  shows "after_calls w (stage_calls f x) w'"
proof (rule after_calls_trans [OF assms])
  fix xs ys
  assume xs: "rejections xs = 0 \<and> (\<forall>R. held R xs \<subseteq> R)" and ys: "stage_calls f x ys"
  have "held R (xs @ ys) \<subseteq> R \<union> gained x" for R
  proof -
    have "held (held R xs) ys \<subseteq> held R xs \<union> gained x" using ys by blast
    then show ?thesis using xs by auto
  qed
  then show "stage_calls f x (xs @ ys)" using xs ys by simp
qed

lemma handoff_calls:
  assumes "stageStageHandoff E m st w = (x, st', w')"
  shows "after_calls w (stage_calls FStageHandoff x) w'"
proof -
  define p where "p = warmProfile m (cs_in st)"
  define w1 where "w1 = snd (ext_call (e_poolget E) (EvPoolGet p) w)"
  have w1: "log w1 = log w @ [EvPoolGet p (e_poolget E (step w))]" by (simp add: w1_def frame_simps)
  show ?thesis
  proof (cases "warmEnabled m")
    case False
    then show ?thesis using assms cold_handoff_calls by (simp add: stageStageHandoff_def)
  next
    case True
    show ?thesis
    proof (cases "e_poolget E (step w)")
      case None
      then have "stage_cold_handoff E m st w1 = (x, st', w')"
        using assms True by (simp add: stageStageHandoff_def ext_call_def p_def w1_def)
      moreover have "after_calls w (\<lambda>evs. rejections evs = 0 \<and> (\<forall>R. held R evs \<subseteq> R)) w1"
        using w1 None by (simp add: after_calls_log)
      ultimately show ?thesis by (blast intro: quiet_then_stage cold_handoff_calls)
    next
      case (Some u)
      define w2 where "w2 = snd (dispose_unit E u w1)"
      have w2: "log w2 = log w1 @ [EvDispose u (e_dispose E (step w1))]"
        by (simp add: w2_def dispose_unit_def frame_simps)
      show ?thesis
      proof (cases "UnHandoff u")
        case None
        then have "stage_cold_handoff E m st w2 = (x, st', w')"
          using assms True Some by (simp add: stageStageHandoff_def ext_call_def p_def w1_def w2_def)
        moreover have "after_calls w (\<lambda>evs. rejections evs = 0 \<and> (\<forall>R. held R evs \<subseteq> R)) w2"
          using w1 w2 Some by (auto simp: after_calls_log)
        ultimately show ?thesis by (blast intro: quiet_then_stage cold_handoff_calls)
      next
        case hand: (Some sg)
        then have "x = Inr (Some (CWarm u)) \<and> w' = w1"
          using assms True Some by (simp add: stageStageHandoff_def ext_call_def p_def w1_def)
        then show ?thesis using w1 Some by (simp add: after_calls_log)
      qed
    qed
  qed
qed

lemma materialize_calls:
  assumes "stageMaterialize E m st w = (x, st', w')"
  shows "after_calls w (stage_calls FMaterialize x) w'"
  using assms
  by (auto simp: stageMaterialize_def ext_call_def dispose_unit_def after_calls_log Let_def
      split: option.splits sum.splits prod.splits)

lemma mint_calls:
  assumes "stageMintStorageJWT E m st w = (x, st', w')"
  shows "after_calls w (stage_calls FMintStorageJWT x) w'"
  using assms
  by (auto simp: stageMintStorageJWT_def ext_call_def after_calls_log Let_def
      split: option.splits sum.splits if_splits)

lemma render_calls:
  assumes "stageRenderPushMount E m st w = (x, st', w')"
  shows "after_calls w (stage_calls FRenderPushMount x) w'"
  using assms
  by (auto simp: stageRenderPushMount_def ext_call_def after_calls_log split: sum.splits if_splits)

lemma charge_calls:
  assumes "stageQuotaCharge S E m st w = (x, st', w')"
  shows "after_calls w (stage_calls FQuotaCharge x) w'"
  using assms
  by (auto simp: stageQuotaCharge_def emit_rejected_eq after_calls_log dest!: store_call_log_eq
      split: option.splits sum.splits prod.splits)

lemma reserve_calls:
  assumes "stageReserve S E st w = (x, st', w')"
  shows "after_calls w (stage_calls FReserve x) w'"
  using assms
  by (auto simp: stageReserve_def emit_rejected_eq after_calls_log dest!: store_call_log_eq
      split: option.splits sum.splits prod.splits)

lemma commit_calls:
  assumes "stageCommit S E m st w = (x, st', w')"
  shows "after_calls w (stage_calls FCommit x) w'"
  using assms
  by (auto simp: stageCommit_def emit_def ext_call_eq after_calls_log note_metric_def frame_simps Let_def
      dest!: store_call_log_eq split: option.splits sum.splits prod.splits)

lemma bind_calls:
  assumes "stageBind S E st w = (x, st', w')"
  shows "after_calls w (stage_calls FBind x) w'"
  using assms
  by (auto simp: stageBind_def after_calls_log Let_def dest!: store_call_log_eq
      split: sum.splits prod.splits)

lemma stage_log:
  assumes "run_stage S E m f st w = (x, st', w')"
  shows "after_calls w (stage_calls f x) w'"
proof (cases f)
  case FResolveIdentity
  then show ?thesis using assms by (auto simp: stageResolveIdentity_def after_calls_log Let_def split: if_splits)
next
  case FAdmit
  then show ?thesis
    using assms by (auto simp: stageAdmit_def emit_rejected_eq after_calls_log Let_def
        split: if_splits option.splits prod.splits)
next
  case FQuotaCharge
  then show ?thesis using assms charge_calls by (simp only: run_stage.simps)
next
  case FReserve
  then show ?thesis using assms reserve_calls by (simp only: run_stage.simps)
next
  case FStageHandoff
  then show ?thesis using assms handoff_calls by (simp only: run_stage.simps)
next
  case FMintStorageJWT
  then show ?thesis using assms mint_calls by (simp only: run_stage.simps)
next
  case FRenderPushMount
  then show ?thesis using assms render_calls by (simp only: run_stage.simps)
next
  case FMaterialize
  then show ?thesis using assms materialize_calls by (simp only: run_stage.simps)
next
  case FCommit
  then show ?thesis using assms commit_calls by (simp only: run_stage.simps)
next
  case FBind
  then show ?thesis using assms bind_calls by (simp only: run_stage.simps)
qed

text \<open>The compensator of a resource asks for its reclaim; none writes a record.\<close>

lemma run_comp_log:
  "after_calls w (\<lambda>evs. rejections evs = 0 \<and> (\<forall>R. held R evs \<subseteq> R - comp_res c)) (run_comp S E m st c w)"
proof (cases c)
  case (CReceipt rc)
  obtain e rc' w1 where ap: "Receipt_Apply S E rc w = (e, rc', w1)" by (metis surj_pair)
  then show ?thesis
    using CReceipt receipt_apply_log [OF ap] by (simp add: after_calls_def note_metric_def frame_simps)
qed (auto simp: after_calls_def dispose_unit_def force_kill_def frame_simps)

lemma unwind_log:
  "after_calls w (\<lambda>evs. rejections evs = 0 \<and> (\<forall>R. held R evs \<subseteq> R - \<Union>(comp_res ` set comps)))
     (unwind S E m st comps w)"
proof (induction comps arbitrary: w rule: rev_induct)
  case Nil
  then show ?case by (simp add: unwind_def after_calls_def)
next
  case (snoc c comps)
  define w1 where "w1 = run_comp S E m st c w"
  have step: "unwind S E m st (comps @ [c]) w = unwind S E m st comps w1"
    by (simp add: unwind_def w1_def)
  show ?case unfolding step
  proof (rule after_calls_trans [OF run_comp_log [of w c S E m st, folded w1_def] snoc.IH])
    fix xs ys
    assume xs: "rejections xs = 0 \<and> (\<forall>R. held R xs \<subseteq> R - comp_res c)"
      and ys: "rejections ys = 0 \<and> (\<forall>R. held R ys \<subseteq> R - \<Union>(comp_res ` set comps))"
    have "held R (xs @ ys) \<subseteq> R - \<Union>(comp_res ` set (comps @ [c]))" for R
    proof -
      have "held R xs \<subseteq> R - comp_res c" using xs by blast
      moreover have "held (held R xs) ys \<subseteq> held R xs - \<Union>(comp_res ` set comps)" using ys by blast
      ultimately show ?thesis by auto
    qed
    then show "rejections (xs @ ys) = 0 \<and> (\<forall>R. held R (xs @ ys) \<subseteq> R - \<Union>(comp_res ` set (comps @ [c])))"
      using xs ys by simp
  qed
qed

subsection \<open>The log of the pipeline\<close>

lemma stage_keeps_owner:
  assumes "run_stage S E m f st w = (x, st', w')" and "Caller (cs_owner st) \<noteq> ''''"
  shows "Caller (cs_owner st') \<noteq> ''''"
  using assms
  by (cases f) (auto simp: stageResolveIdentity_def stageAdmit_def stageQuotaCharge_def stageReserve_def
      stageStageHandoff_def stage_cold_handoff_def stageMintStorageJWT_def stageRenderPushMount_def
      stageMaterialize_def stageCommit_def stageBind_def Let_def
      split: if_splits option.splits sum.splits prod.splits)

text \<open>
  A pipeline that fails writes exactly one rejection record and holds nothing that was not held
  before; one that succeeds writes none.
\<close>

lemma run_stages_log:
  assumes "run_stages S E m ss comps st w = (x, st', w')" and "set ss \<subseteq> set manager_stages"
    and "Caller (cs_owner st) \<noteq> ''''"
  shows "after_calls w (\<lambda>evs. if isl x
      then rejections evs = 1 \<and> (\<forall>R. held (R \<union> \<Union>(comp_res ` set comps)) evs \<subseteq> R)
      else rejections evs = 0) w'"
  using assms
proof (induction ss arbitrary: comps st w)
  case Nil
  then show ?case by (auto simp: after_calls_def)
next
  case (Cons s ss)
  obtain y st1 w1 where stage: "run_stage S E m (stage_run s) st w = (y, st1, w1)" by (metis surj_pair)
  note calls = stage_log [OF stage]
  have owner: "Caller (cs_owner st1) \<noteq> ''''" using stage_keeps_owner [OF stage] Cons.prems(3) .
  have own: "emitsOwnRejection s = own (stage_run s)" using manager_stages_own Cons.prems(2) by simp
  show ?case
  proof (cases y)
    case (Inl e)
    define w2 where "w2 = (if own (stage_run s) then w1
      else snd (emitCreateRejected E st1 (stageFailureReason E (stage_name s) e) w1))"
    have fin: "x = Inl e \<and> w' = unwind S E m st1 comps w2"
      using Cons.prems(1) stage Inl own owner by (auto simp: w2_def Let_def)
    have "after_calls w (\<lambda>evs. rejections evs = 1 \<and> (\<forall>R. held R evs \<subseteq> R)) w2"
      using calls Inl by (cases "own (stage_run s)")
        (auto simp: w2_def after_calls_def emitCreateRejected_def emit_def frame_simps)
    then have "after_calls w (\<lambda>evs. rejections evs = 1 \<and> (\<forall>R. held (R \<union> \<Union>(comp_res ` set comps)) evs \<subseteq> R))
      (unwind S E m st1 comps w2)"
    proof (rule after_calls_trans [OF _ unwind_log [of w2 comps S E m st1]])
      fix xs ys
      assume xs: "rejections xs = 1 \<and> (\<forall>R. held R xs \<subseteq> R)"
        and ys: "rejections ys = 0 \<and> (\<forall>R. held R ys \<subseteq> R - \<Union>(comp_res ` set comps))"
      have "held (R \<union> \<Union>(comp_res ` set comps)) (xs @ ys) \<subseteq> R" for R
      proof -
        define Q where "Q = R \<union> \<Union>(comp_res ` set comps)"
        have "held (held Q xs) ys \<subseteq> held Q xs - \<Union>(comp_res ` set comps)" "held Q xs \<subseteq> Q"
          using xs ys by blast+
        then show ?thesis unfolding Q_def [symmetric] held_append by (auto simp: Q_def)
      qed
      then show "rejections (xs @ ys) = 1 \<and> (\<forall>R. held (R \<union> \<Union>(comp_res ` set comps)) (xs @ ys) \<subseteq> R)"
        using conjunct1 [OF xs] conjunct1 [OF ys] by simp
    qed
    then show ?thesis using fin by simp
  next
    case (Inr co)
    define comps1 where "comps1 = (case co of None \<Rightarrow> comps | Some c \<Rightarrow> comps @ [c])"
    have rest: "run_stages S E m ss comps1 st1 w1 = (x, st', w')"
      using Cons.prems(1) stage Inr by (simp add: comps1_def split: option.splits)
    have res: "\<Union>(comp_res ` set comps1) = \<Union>(comp_res ` set comps) \<union> gained y"
      using Inr by (cases co) (auto simp: comps1_def)
    have ih: "after_calls w1 (\<lambda>evs. if isl x
      then rejections evs = 1 \<and> (\<forall>R. held (R \<union> \<Union>(comp_res ` set comps1)) evs \<subseteq> R)
      else rejections evs = 0) w'"
      using Cons.IH [OF rest] Cons.prems(2) owner by simp
    show ?thesis
    proof (rule after_calls_trans [OF calls ih])
      fix xs ys
      assume xs: "stage_calls (stage_run s) y xs"
        and ys: "if isl x then rejections ys = 1 \<and> (\<forall>R. held (R \<union> \<Union>(comp_res ` set comps1)) ys \<subseteq> R)
          else rejections ys = 0"
      have "held (R \<union> \<Union>(comp_res ` set comps)) (xs @ ys) \<subseteq> R" if "isl x" for R
      proof -
        have "held (R \<union> \<Union>(comp_res ` set comps)) xs \<subseteq> R \<union> \<Union>(comp_res ` set comps1)"
          using xs res by blast
        from held_mono [OF this, of ys] ys that
        show ?thesis by (metis held_append order_trans)
      qed
      moreover have "rejections (xs @ ys) = (if isl x then 1 else 0)"
        using conjunct1 [OF xs] ys Inr by (cases "isl x") simp_all
      ultimately show "if isl x then rejections (xs @ ys) = 1 \<and> (\<forall>R. held (R \<union> \<Union>(comp_res ` set comps)) (xs @ ys) \<subseteq> R)
          else rejections (xs @ ys) = 0"
        by presburger
    qed
  qed
qed

subsection \<open>The create state along the pipeline\<close>

definition resolved :: "createState \<Rightarrow> bool" where
  "resolved st \<longleftrightarrow> (let owner = AcIdentity (CiCaller (cs_in st)) in
     Caller owner \<noteq> '''' \<and> Tenant owner \<noteq> '''' \<and> cs_owner st = owner \<and>
     cs_handle st = mintHandle (SessionHint (cs_in st)) \<and> cs_key st = DeriveKey owner (cs_handle st))"

lemma resolve_again: "resolved st \<Longrightarrow> stageResolveIdentity st w = (Inr None, st, w)"
  by (simp add: resolved_def stageResolveIdentity_def Let_def DeriveKey_not_zero)

lemma resolve_ok:
  "stageResolveIdentity st w = (Inr co, st', w') \<Longrightarrow> resolved st' \<and> w' = w \<and> cs_in st' = cs_in st"
  by (auto simp: resolved_def stageResolveIdentity_def Let_def split: if_splits)

fun resource_comp :: "compensator \<Rightarrow> bool" where
  "resource_comp (CReceipt _) \<longleftrightarrow> False"
| "resource_comp (CRelease _ _) \<longleftrightarrow> False"
| "resource_comp _ \<longleftrightarrow> True"

text \<open>A state that differs only in what the outside stages fill in.\<close>

definition same_session :: "createState \<Rightarrow> createState \<Rightarrow> bool" where
  "same_session st st' \<longleftrightarrow> cs_in st' = cs_in st \<and> cs_owner st' = cs_owner st \<and>
     cs_handle st' = cs_handle st \<and> cs_key st' = cs_key st"

lemma same_session_resolved: "same_session st st' \<Longrightarrow> resolved st \<Longrightarrow> resolved st'"
  by (simp add: same_session_def resolved_def)

fun outside_stage :: "stage_fn \<Rightarrow> bool" where
  "outside_stage FStageHandoff \<longleftrightarrow> True"
| "outside_stage FMintStorageJWT \<longleftrightarrow> True"
| "outside_stage FRenderPushMount \<longleftrightarrow> True"
| "outside_stage FMaterialize \<longleftrightarrow> True"
| "outside_stage _ \<longleftrightarrow> False"

lemma outside_stage_frame:
  assumes "run_stage S E m f st w = (x, st', w')" and "outside_stage f"
  shows "store w' = store w \<and> same_session st st' \<and> cs_row st' = cs_row st \<and> (\<forall>c. x = Inr (Some c) \<longrightarrow> resource_comp c)"
  using assms
  by (cases f) (auto simp: stageStageHandoff_def stage_cold_handoff_def stageMintStorageJWT_def
      stageRenderPushMount_def stageMaterialize_def Let_def same_session_def ext_call_def dispose_unit_def
      split: if_splits option.splits sum.splits prod.splits)

lemma store_stage_session:
  assumes "run_stage S E m f st w = (x, st', w')" and "f \<in> {FAdmit, FQuotaCharge, FReserve, FCommit, FBind}"
  shows "same_session st st'"
  using assms
  by (auto simp: stageAdmit_def stageQuotaCharge_def stageReserve_def stageCommit_def stageBind_def Let_def
      same_session_def split: if_splits option.splits sum.splits prod.splits)

lemma unwind_resources: "list_all resource_comp comps \<Longrightarrow> store (unwind S E m st comps w) = store w"
proof (induction comps arbitrary: w rule: rev_induct)
  case (snoc c comps)
  have "store (run_comp S E m st c w) = store w"
    using snoc.prems by (cases c) (simp_all add: dispose_unit_def force_kill_def frame_simps)
  then show ?case using snoc by (simp add: unwind_def)
qed (simp add: unwind_def)

lemma unwind_Cons: "unwind S E m st (c # comps) w = run_comp S E m st c (unwind S E m st comps w)"
  by (simp add: unwind_def)

lemma note_metric_store [frame_simps]: "store (note_metric m x w) = store w"
  by (simp add: note_metric_def frame_simps)

lemma admit_frame:
  assumes "stageAdmit E m st w = (x, st', w')"
  shows "store w' = store w \<and> st' = st \<and> (x = Inr co \<longrightarrow> co = None \<and> w' = w \<and> Admitted (Decide (mgr_profile m) (mgr_tier m)))"
  using assms by (auto simp: stageAdmit_def Let_def emit_rejected_eq split: if_splits option.splits prod.splits)

subsection \<open>The store along the pipeline\<close>

context store_contract
begin

abbreviation charged_cells :: "Identity \<Rightarrow> time \<Rightarrow> 's \<Rightarrow> QuotaKey \<Rightarrow> int" where
  "charged_cells ow t s \<equiv> cell_upd cell_id (conc_key ow) (cell s (conc_key ow) + 1)
     (cell_upd cell_id (rate_key ow t) (cell s (rate_key ow t) + 1) (cell s))"

abbreviation receipt_of :: "Identity \<Rightarrow> time \<Rightarrow> Charged list" where
  "receipt_of ow t \<equiv> [\<lparr>ChKey = rate_key ow t, Delta = 1\<rparr>, \<lparr>ChKey = conc_key ow, Delta = 1\<rparr>]"

abbreviation same_posture :: "'s \<Rightarrow> 's \<Rightarrow> bool" where
  "same_posture s0 s \<equiv> inv s \<and> killed s = killed s0 \<and> denied s = denied s0"

abbreviation cells_ok :: "'s \<Rightarrow> bool" where
  "cells_ok s \<equiv> \<forall>q. 0 \<le> cell s q \<and> cell s q < int64_max"

definition vacant :: "'s \<Rightarrow> string \<Rightarrow> bool" where
  "vacant s k \<longleftrightarrow> dead s k"

text \<open>What the compensators on the stack owe the store \<open>s\<close>, relative to the store \<open>s0\<close> before the create.\<close>

definition owed :: "'s \<Rightarrow> createState \<Rightarrow> compensator list \<Rightarrow> 's \<Rightarrow> bool" where
  "owed s0 st comps s \<longleftrightarrow> same_posture s0 s \<and>
     (comps = [] \<and> cell s = cell s0 \<and> row s = row s0 \<or>
      (\<exists>rc t. charged rc = receipt_of (cs_owner st) t \<and> cell s = charged_cells (cs_owner st) t s0 \<and>
         (comps = [CReceipt rc] \<and> row s = row s0 \<or>
          (\<exists>rest r. comps = CReceipt rc # CRelease (cs_key st) (cs_owner st) # rest \<and> list_all resource_comp rest \<and>
             row s = (row s0)(RKey_String (cs_key st) \<mapsto> r) \<and> Owner r = cs_owner st \<and>
             vacant s0 (RKey_String (cs_key st))))))"

definition restored :: "'s \<Rightarrow> createState \<Rightarrow> 's \<Rightarrow> bool" where
  "restored s0 st s \<longleftrightarrow> same_posture s0 s \<and> cell s = cell s0 \<and>
     (row s = row s0 \<or>
      (\<exists>r. row s = (row s0)(RKey_String (cs_key st) \<mapsto> r) \<and> Owner r = cs_owner st \<and> State r = StateReleased \<and>
         vacant s0 (RKey_String (cs_key st))))"

end

context responsive_store
begin

lemma cells_put_back:
  "cell_upd cell_id rk (cell s rk) (cell_upd cell_id ck (cell s ck)
     (cell_upd cell_id ck u (cell_upd cell_id rk v (cell s)))) = cell s"
proof
  fix p
  have "cell_id p = cell_id rk \<Longrightarrow> cell s p = cell s rk" "cell_id p = cell_id ck \<Longrightarrow> cell s p = cell s ck"
    by (rule cell_cong, assumption)+
  then show "cell_upd cell_id rk (cell s rk) (cell_upd cell_id ck (cell s ck)
     (cell_upd cell_id ck u (cell_upd cell_id rk v (cell s)))) p = cell s p"
    by (auto simp: cell_upd_def)
qed

lemma run_receipt:
  assumes "same_posture s0 (store w)" and "cells_ok s0" and "\<forall>n. \<not> e_bg E n"
    and "charged rc = receipt_of ow t" and "cell (store w) = charged_cells ow t s0"
  shows "same_posture s0 (store (run_comp S E m st (CReceipt rc) w))
    \<and> cell (store (run_comp S E m st (CReceipt rc) w)) = cell s0
    \<and> row (store (run_comp S E m st (CReceipt rc) w)) = row (store w)"
proof -
  obtain e rc' w1 where ap: "Receipt_Apply S E rc w = (e, rc', w1)" by (metis surj_pair)
  have inv: "inv (store w)" using assms(1) by blast
  have c: "cell (store w) (rate_key ow t) = cell s0 (rate_key ow t) + 1"
    "cell (store w) (conc_key ow) = cell s0 (conc_key ow) + 1"
    by (simp_all add: assms(5))
  have z: "0 \<le> cell s0 (rate_key ow t)" "0 \<le> cell s0 (conc_key ow)" using assms(2) by blast+
  have nn: "0 \<le> cell (store w) (rate_key ow t)" "0 \<le> cell (store w) (conc_key ow)"
    using z c by simp_all
  note r = receipt_apply [OF inv assms(4) nn assms(3) [rule_format] assms(3) [rule_format] ap]
  have "max 0 (cell (store w) (rate_key ow t) - 1) = cell s0 (rate_key ow t)"
    "max 0 (cell (store w) (conc_key ow) - 1) = cell s0 (conc_key ow)"
    using z c by simp_all
  with r assms(5) have "cell (store w1) = cell s0" by (simp only: cells_put_back)
  moreover have "run_comp S E m st (CReceipt rc) w = w1" using ap r by simp
  ultimately show ?thesis using r assms(1) by simp
qed

lemma run_release:
  assumes "inv (store w)" and "\<forall>n. \<not> e_bg E n" and "row (store w) (RKey_String k) = Some r" and "Owner r = ow"
  shows "same_posture (store w) (store (run_comp S E m st (CRelease k ow) w))
    \<and> cell (store (run_comp S E m st (CRelease k ow) w)) = cell (store w)
    \<and> row (store (run_comp S E m st (CRelease k ow) w)) =
        (row (store w))(RKey_String k \<mapsto> r\<lparr>State := StateReleased\<rparr>)"
proof -
  have bg: "\<not> e_bg E (step w)" using assms(2) by blast
  obtain r' s' where rel: "Release S (e_bg E (step w)) (RKey_String k) ow (store w) = (Inr r', s')"
    using release_succeeds [OF assms(1) bg assms(3,4)] by blast
  then have "store (run_comp S E m st (CRelease k ow) w) = s'"
    by (simp add: Custodian_Release_def st_call_def)
  then show ?thesis using release_ok [OF assms(1) rel] assms(3) by auto
qed

text \<open>The unwind pays every debt.\<close>

lemma unwind_restores:
  assumes "owed s0 st comps (store w)" and "cells_ok s0" and "\<forall>n. \<not> e_bg E n"
  shows "restored s0 st (store (unwind S E m st' comps w))"
proof -
  have post: "same_posture s0 (store w)" using assms(1) unfolding owed_def by blast
  from assms(1) consider
      (none) "comps = []" "cell (store w) = cell s0" "row (store w) = row s0"
    | (receipt) rc t where "charged rc = receipt_of (cs_owner st) t"
        "cell (store w) = charged_cells (cs_owner st) t s0" "comps = [CReceipt rc]" "row (store w) = row s0"
    | (release) rc t rest r where "charged rc = receipt_of (cs_owner st) t"
        "cell (store w) = charged_cells (cs_owner st) t s0"
        "comps = CReceipt rc # CRelease (cs_key st) (cs_owner st) # rest" "list_all resource_comp rest"
        "row (store w) = (row s0)(RKey_String (cs_key st) \<mapsto> r)" "Owner r = cs_owner st"
        "vacant s0 (RKey_String (cs_key st))"
    unfolding owed_def by blast
  then show ?thesis
  proof cases
    case none
    then show ?thesis using post by (simp add: restored_def unwind_def)
  next
    case receipt
    have un: "unwind S E m st' comps w = run_comp S E m st' (CReceipt rc) w"
      by (simp add: receipt(3) unwind_def)
    note paid = run_receipt [OF post assms(2,3) receipt(1,2), of m st', folded un]
    show ?thesis unfolding restored_def by (intro conjI disjI1) (use paid receipt(4) in simp_all)
  next
    case release
    define w1 where "w1 = unwind S E m st' rest w"
    define w2 where "w2 = run_comp S E m st' (CRelease (cs_key st) (cs_owner st)) w1"
    have w1: "store w1 = store w" using unwind_resources [OF release(4)] by (simp add: w1_def)
    have i1: "inv (store w1)" and at: "row (store w1) (RKey_String (cs_key st)) = Some r"
      using post w1 release(5) by simp_all
    note rel = run_release [OF i1 assms(3) at release(6), of m st', folded w2_def]
    have p2: "same_posture s0 (store w2)" and c2: "cell (store w2) = charged_cells (cs_owner st) t s0"
      and r2: "row (store w2) = (row s0)(RKey_String (cs_key st) \<mapsto> r\<lparr>State := StateReleased\<rparr>)"
      using rel w1 post release(2,5) by simp_all
    have un: "unwind S E m st' comps w = run_comp S E m st' (CReceipt rc) w2"
      by (simp add: release(3) unwind_Cons w1_def w2_def)
    note paid = run_receipt [OF p2 assms(2,3) release(1) c2, of m st', folded un]
    show ?thesis unfolding restored_def
      by (intro conjI disjI2 exI [of _ "r\<lparr>State := StateReleased\<rparr>"]) (use paid r2 release(6,7) in simp_all)
  qed
qed

end

text \<open>What a stage may rely on and what it must establish, by the number of stages still to run.\<close>

abbreviation push_comp :: "compensator list \<Rightarrow> compensator option \<Rightarrow> compensator list" where
  "push_comp comps co \<equiv> (case co of None \<Rightarrow> comps | Some c \<Rightarrow> comps @ [c])"

lemma stage_position:
  assumes "suffix (s # ss) manager_stages"
  shows "(stage_run s, length ss) \<in>
     {(FResolveIdentity, 9), (FAdmit, 8), (FQuotaCharge, 7), (FReserve, 6), (FStageHandoff, 5),
      (FMintStorageJWT, 4), (FRenderPushMount, 3), (FMaterialize, 2), (FCommit, 1), (FBind, 0)}"
proof -
  have fns: "map stage_run manager_stages = [FResolveIdentity, FAdmit, FQuotaCharge, FReserve, FStageHandoff,
      FMintStorageJWT, FRenderPushMount, FMaterialize, FCommit, FBind]"
    by (simp add: manager_stages_def)
  from assms obtain pre where "manager_stages = pre @ s # ss" by (auto simp: suffix_def)
  then have eq: "map stage_run pre @ stage_run s # map stage_run ss = [FResolveIdentity, FAdmit, FQuotaCharge, FReserve,
      FStageHandoff, FMintStorageJWT, FRenderPushMount, FMaterialize, FCommit, FBind]"
    using fns by (metis list.simps(9) map_append)
  have "length pre + Suc (length ss) = 10" using arg_cong [OF eq, of length] by simp
  then have "length ss = 9 \<or> length ss = 8 \<or> length ss = 7 \<or> length ss = 6 \<or> length ss = 5
    \<or> length ss = 4 \<or> length ss = 3 \<or> length ss = 2 \<or> length ss = 1 \<or> length ss = 0"
    by presburger
  moreover have "stage_run s = [FResolveIdentity, FAdmit, FQuotaCharge, FReserve,
      FStageHandoff, FMintStorageJWT, FRenderPushMount, FMaterialize, FCommit, FBind] ! (9 - length ss)"
  proof -
    have "9 - length ss = length (map stage_run pre)" using \<open>length pre + Suc (length ss) = 10\<close> by simp
    then show ?thesis unfolding eq [symmetric] by (simp only: nth_append_length)
  qed
  ultimately show ?thesis by (elim disjE) simp_all
qed

context store_contract
begin

definition row_progress :: "nat \<Rightarrow> SessionRow \<Rightarrow> bool" where
  "row_progress n r \<longleftrightarrow> State r = (if n \<le> 1 then StateActive else StateReserved) \<and>
     (ContainerName r \<noteq> '''' \<longleftrightarrow> n = 0)"

definition within_limits :: "Manager \<Rightarrow> 's \<Rightarrow> Identity \<Rightarrow> 's \<Rightarrow> bool" where
  "within_limits m s0 ow s \<longleftrightarrow> Admitted (Decide (mgr_profile m) (mgr_tier m)) \<and>
     cell s0 (conc_key ow) < ConcurrentSessionsPerTenant (mgr_limits m) \<and>
     (\<exists>t. cell s0 (rate_key ow t) < CreateRatePerCallerPerMin (mgr_limits m) \<and> cell s = charged_cells ow t s0)"

text \<open>Before the charge, between charge and reservation, and after it.\<close>

definition early :: "'s \<Rightarrow> compensator list \<Rightarrow> createState \<Rightarrow> 's \<Rightarrow> bool" where
  "early s0 comps st s \<longleftrightarrow> resolved st \<and> comps = [] \<and> owed s0 st comps s"

definition billed :: "Manager \<Rightarrow> 's \<Rightarrow> compensator list \<Rightarrow> createState \<Rightarrow> 's \<Rightarrow> bool" where
  "billed m s0 comps st s \<longleftrightarrow> resolved st \<and> length comps = 1 \<and> owed s0 st comps s \<and>
     within_limits m s0 (cs_owner st) s"

definition placed :: "Manager \<Rightarrow> 's \<Rightarrow> nat \<Rightarrow> compensator list \<Rightarrow> createState \<Rightarrow> 's \<Rightarrow> bool" where
  "placed m s0 n comps st s \<longleftrightarrow> resolved st \<and> 2 \<le> length comps \<and> owed s0 st comps s \<and>
     within_limits m s0 (cs_owner st) s \<and> \<not> killed s0 \<and> \<not> denied s0 (RKey_String (cs_key st)) \<and>
     row s (RKey_String (cs_key st)) = Some (cs_row st) \<and> row_progress n (cs_row st)"

definition pipe :: "Manager \<Rightarrow> 's \<Rightarrow> nat \<Rightarrow> compensator list \<Rightarrow> createState \<Rightarrow> 's \<Rightarrow> bool" where
  "pipe m s0 n comps st s \<longleftrightarrow>
     (if 8 < n then early s0 comps st s
      else if n = 8 then early s0 comps st s \<and> Admitted (Decide (mgr_profile m) (mgr_tier m))
      else if n = 7 then billed m s0 comps st s
      else placed m s0 n comps st s)"

lemma owed_session: "same_session st st' \<Longrightarrow> owed s0 st comps s \<Longrightarrow> owed s0 st' comps s"
  by (simp add: owed_def same_session_def)

lemma owed_late:
  assumes "owed s0 st comps s" and "2 \<le> length comps"
  obtains rc t rest r where "charged rc = receipt_of (cs_owner st) t"
    "cell s = charged_cells (cs_owner st) t s0" "comps = CReceipt rc # CRelease (cs_key st) (cs_owner st) # rest"
    "list_all resource_comp rest" "row s = (row s0)(RKey_String (cs_key st) \<mapsto> r)" "Owner r = cs_owner st"
    "vacant s0 (RKey_String (cs_key st))" "same_posture s0 s"
  using assms(1) unfolding owed_def
proof (elim conjE disjE exE)
  fix rc t rest r
  assume "charged rc = receipt_of (cs_owner st) t"
    "cell s = charged_cells (cs_owner st) t s0" "comps = CReceipt rc # CRelease (cs_key st) (cs_owner st) # rest"
    "list_all resource_comp rest" "row s = (row s0)(RKey_String (cs_key st) \<mapsto> r)" "Owner r = cs_owner st"
    "vacant s0 (RKey_String (cs_key st))" "inv s" "killed s = killed s0" "denied s = denied s0"
  then show thesis by (intro that conjI)
qed (use assms(2) in simp_all)

lemma owed_lateI:
  assumes "charged rc = receipt_of (cs_owner st) t" "cell s = charged_cells (cs_owner st) t s0"
    "list_all resource_comp rest" "row s = (row s0)(RKey_String (cs_key st) \<mapsto> r)" "Owner r = cs_owner st"
    "vacant s0 (RKey_String (cs_key st))" "same_posture s0 s"
  shows "owed s0 st (CReceipt rc # CRelease (cs_key st) (cs_owner st) # rest) s"
  unfolding owed_def
  by (intro conjI disjI2 exI [of _ rc] exI [of _ t] exI [of _ rest] exI [of _ r]) (use assms in simp_all)

lemma owed_push:
  assumes "owed s0 st comps s" and "2 \<le> length comps" and "resource_comp c"
  shows "owed s0 st (comps @ [c]) s"
proof -
  obtain rc t rest r where o: "charged rc = receipt_of (cs_owner st) t"
    "cell s = charged_cells (cs_owner st) t s0" "comps = CReceipt rc # CRelease (cs_key st) (cs_owner st) # rest"
    "list_all resource_comp rest" "row s = (row s0)(RKey_String (cs_key st) \<mapsto> r)" "Owner r = cs_owner st"
    "vacant s0 (RKey_String (cs_key st))" "same_posture s0 s"
    by (rule owed_late [OF assms(1,2)])
  have "list_all resource_comp (rest @ [c])" using o(4) assms(3) by simp
  from owed_lateI [OF o(1,2) this o(5-8)] o(3) show ?thesis by simp
qed

lemma owed_rows:
  assumes "owed s0 st comps s" and "2 \<le> length comps" and "same_posture s s'" and "cell s' = cell s"
    and "row s' = (row s)(RKey_String (cs_key st) \<mapsto> r)" and "Owner r = cs_owner st"
  shows "owed s0 st comps s'"
proof -
  obtain rc t rest r0 where o: "charged rc = receipt_of (cs_owner st) t"
    "cell s = charged_cells (cs_owner st) t s0" "comps = CReceipt rc # CRelease (cs_key st) (cs_owner st) # rest"
    "list_all resource_comp rest" "row s = (row s0)(RKey_String (cs_key st) \<mapsto> r0)" "Owner r0 = cs_owner st"
    "vacant s0 (RKey_String (cs_key st))" "same_posture s0 s"
    by (rule owed_late [OF assms(1,2)])
  have "row s' = (row s0)(RKey_String (cs_key st) \<mapsto> r)" using assms(5) o(5) by simp
  moreover have "same_posture s0 s'" using assms(3) o(8) by simp
  ultimately show ?thesis
    unfolding o(3) using owed_lateI [OF o(1) _ o(4) _ assms(6) o(7)] assms(4) o(2) by simp
qed

lemma owed_same:
  assumes "owed s0 st comps s" and "same_posture s s'" and "cell s' = cell s" and "row s' = row s"
  shows "owed s0 st comps s'"
  using assms unfolding owed_def by metis

lemma placed_outside:
  assumes "placed m s0 (Suc n) comps st (store w)" and "run_stage S E m f st w = (x, st', w')" and "outside_stage f"
    and "2 \<le> n"
  shows "owed s0 st comps (store w') \<and> (\<forall>co. x = Inr co \<longrightarrow> placed m s0 n (push_comp comps co) st' (store w'))"
proof -
  note frame = outside_stage_frame [OF assms(2,3)]
  then have st': "store w' = store w" "same_session st st'" "cs_row st' = cs_row st" by simp_all
  have same: "cs_owner st' = cs_owner st" "cs_key st' = cs_key st" using st'(2) by (simp_all add: same_session_def)
  have owed: "owed s0 st comps (store w)" and len: "2 \<le> length comps" and res: "resolved st"
    and prog: "row_progress (Suc n) (cs_row st)"
    using assms(1) by (simp_all add: placed_def)
  have "placed m s0 n (push_comp comps co) st' (store w')" if "x = Inr co" for co
  proof -
    have "owed s0 st' (push_comp comps co) (store w)"
    proof (cases co)
      case (Some c)
      then have "resource_comp c" using frame that by blast
      then show ?thesis using Some owed_session [OF st'(2) owed_push [OF owed len]] by simp
    qed (use owed_session [OF st'(2) owed] in simp)
    moreover have "2 \<le> length (push_comp comps co)" using len by (cases co) simp_all
    moreover have "resolved st'" using same_session_resolved [OF st'(2) res] .
    moreover have "row_progress n (cs_row st')" using prog assms(4) st'(3) by (simp add: row_progress_def)
    moreover note assms(1) [unfolded placed_def]
    ultimately show ?thesis unfolding placed_def same st'(1) st'(3) by blast
  qed
  then show ?thesis using owed st'(1) by metis
qed

end

context store_contract
begin

lemma owed_Nil: "owed s0 st [] s \<longleftrightarrow> same_posture s0 s \<and> cell s = cell s0 \<and> row s = row s0"
  by (simp add: owed_def)

lemma reserve_stage:
  assumes "billed m s0 comps st (store w)" and "stageReserve S E st w = (x, st', w')"
  shows "owed s0 st comps (store w') \<or> x \<noteq> Inl e"
    and "x = Inr co \<Longrightarrow> placed m s0 6 (push_comp comps co) st' (store w')"
proof -
  let ?k = "RKey_String (cs_key st)"
  have owed: "owed s0 st comps (store w)" and len: "length comps = 1" and res: "resolved st"
    and lim: "within_limits m s0 (cs_owner st) (store w)"
    using assms(1) by (simp_all add: billed_def)
  have i: "inv (store w)" using owed by (simp add: owed_def)
  obtain y s1 where call: "Reserve S (e_now E (step w)) (e_ctx E (step w)) ?k (cs_owner st) (store w) = (y, s1)"
    by fastforce
  show "owed s0 st comps (store w') \<or> x \<noteq> Inl e"
  proof (cases y)
    case (Inl e')
    have "s1 = store w" using reserve_err [OF i call [unfolded Inl]] .
    then have "store w' = store w"
      using assms(2) call Inl by (auto simp: stageReserve_def Custodian_Reserve_def st_call_def emit_rejected_eq
          split: option.splits prod.splits)
    then show ?thesis using owed by simp
  next
    case (Inr r)
    then show ?thesis
      using assms(2) call by (auto simp: stageReserve_def Custodian_Reserve_def st_call_def)
  qed
  show "placed m s0 6 (push_comp comps co) st' (store w')" if "x = Inr co"
  proof -
    from assms(2) call that obtain r where y: "y = Inr r" and co: "co = Some (CRelease (cs_key st) (cs_owner st))"
      and st': "cs_row st' = r" "same_session st st'" and w': "store w' = s1"
      by (cases y) (auto simp: stageReserve_def Custodian_Reserve_def st_call_def emit_rejected_eq same_session_def
          split: option.splits prod.splits)
    note ok = reserve_ok [OF i call [unfolded y]]
    from owed len obtain rc t where o: "charged rc = receipt_of (cs_owner st) t" "comps = [CReceipt rc]"
      "cell (store w) = charged_cells (cs_owner st) t s0" "row (store w) = row s0" "same_posture s0 (store w)"
      unfolding owed_def by auto
    have r: "r = reserved_row ?k (cs_owner st)" "row s1 = (row s0)(?k \<mapsto> r)" "same_posture s0 s1"
      "cell s1 = charged_cells (cs_owner st) t s0"
      using ok o(3-5) by simp_all
    have vac: "vacant s0 ?k" using ok o(4) unfolding vacant_def by metis
    have post: "\<not> killed s0" "\<not> denied s0 ?k" using ok o(5) by simp_all
    have "owed s0 st (CReceipt rc # CRelease (cs_key st) (cs_owner st) # []) s1"
      by (rule owed_lateI [OF o(1) r(4) _ r(2) _ vac r(3)]) (simp_all add: r(1))
    then have "owed s0 st' (push_comp comps co) s1" using owed_session [OF st'(2)] co o(2) by simp
    moreover have "resolved st'" using same_session_resolved [OF st'(2) res] .
    moreover have "within_limits m s0 (cs_owner st') s1"
      using lim st'(2) r(4) o(3) by (simp add: within_limits_def same_session_def)
    moreover have "row_progress 6 (cs_row st')" using st'(1) r(1) by (simp add: row_progress_def)
    ultimately show ?thesis
      using co o(2) r(2) st' w' post by (simp add: placed_def same_session_def)
  qed
qed

lemma commit_tail:
  assumes "stageCommit S E m st w = (x, st', w')" and "inv s1" and "y = Inr r"
    and "Commit S (e_ctx E (step w)) (RKey_String (cs_key st)) (cs_owner st) (store w) = (y, s1)"
  shows "same_posture s1 (store w') \<and> cell (store w') = cell s1 \<and> row (store w') = row s1
    \<and> same_session st st' \<and> cs_row st' = r \<and> (x = Inr co \<longrightarrow> co = None)"
proof -
  define w1 where "w1 = w\<lparr>store := s1, step := Suc (step w)\<rparr>"
  define st1 where "st1 = st\<lparr>cs_row := r\<rparr>"
  define rec where "rec = create_record ActionCreateCommit st1 '''' (cs_unit st1 \<noteq> None)"
  define w2 where "w2 = snd (emit E rec w1)"
  define w3 where "w3 = snd (Custodian_RecordActivation S (e_ctx E) (cs_key st1) (CiResources (cs_in st1)) (e_now E (step w2)) w2)"
  have w2: "store w2 = s1" by (simp add: w2_def w1_def emit_def frame_simps)
  have w3: "same_posture s1 (store w3) \<and> cell (store w3) = cell s1 \<and> row (store w3) = row s1"
  proof (cases "ActivationRecorder S")
    case (Some ar)
    obtain z s3 where act: "ar (e_ctx E (step w2)) (RKey_String (cs_key st1)) (CiResources (cs_in st1)) (e_now E (step w2)) s1 = (z, s3)"
      by fastforce
    then have "store w3 = s3" using Some w2 by (simp add: w3_def Custodian_RecordActivation_def st_call_def)
    then show ?thesis using record_ok [OF assms(2) Some act] by simp
  qed (simp add: w3_def Custodian_RecordActivation_def w2 assms(2))
  have run: "Custodian_Commit S (e_ctx E) (cs_key st) (cs_owner st) w = (Inr r, w1)"
    using assms(3,4) by (simp add: Custodian_Commit_def st_call_def w1_def)
  obtain a where em: "emit E rec w1 = (a, w2)" by (metis prod.collapse w2_def)
  have "st' = st1 \<and> (w' = w2 \<and> isl x \<or> store w' = store w3 \<and> x = Inr None)"
    using assms(1) run em by (cases a) (auto simp: stageCommit_def Let_def st1_def rec_def w3_def frame_simps)
  then show ?thesis using w2 w3 assms(2) by (auto simp: st1_def same_session_def)
qed

lemma commit_stage:
  assumes "placed m s0 2 comps st (store w)" and "stageCommit S E m st w = (x, st', w')"
  shows "owed s0 st comps (store w')" and "x = Inr co \<Longrightarrow> placed m s0 1 (push_comp comps co) st' (store w')"
proof -
  let ?k = "RKey_String (cs_key st)"
  have owed: "owed s0 st comps (store w)" and len: "2 \<le> length comps" and res: "resolved st"
    and lim: "within_limits m s0 (cs_owner st) (store w)" and rest: "\<not> killed s0" "\<not> denied s0 ?k"
    and at: "row (store w) ?k = Some (cs_row st)" and prog: "row_progress 2 (cs_row st)"
    using assms(1) by (simp_all add: placed_def)
  have i: "inv (store w)" using owed by (simp add: owed_def)
  obtain y s1 where call: "Commit S (e_ctx E (step w)) ?k (cs_owner st) (store w) = (y, s1)" by fastforce
  have fail: "store w' = store w \<and> isl x" if "y = Inl e" for e
    using assms(2) call that commit_err [OF i call [unfolded that]]
    by (auto simp: stageCommit_def Custodian_Commit_def st_call_def)
  have i1: "inv s1" using commit_err [OF i] commit_ok [OF i] call i by (cases y) blast+
  note fin = commit_tail [OF assms(2) i1 _ call]
  have new: "Owner r = cs_owner st \<and> row_progress 1 r \<and> same_posture (store w) s1 \<and> cell s1 = cell (store w)
      \<and> row s1 = (row (store w))(?k \<mapsto> r)" if "y = Inr r" for r
    using commit_ok [OF i call [unfolded that]] at prog by (auto simp: row_progress_def)
  have owed': "owed s0 st comps (store w')"
  proof (cases y)
    case (Inl e)
    then show ?thesis using fail owed by simp
  next
    case (Inr r)
    have p: "same_posture (store w) (store w')" "cell (store w') = cell (store w)"
      "row (store w') = (row (store w))(?k \<mapsto> r)" "Owner r = cs_owner st"
      using fin [OF Inr] new [OF Inr] by simp_all
    show ?thesis using owed_rows [OF owed len p] .
  qed
  then show "owed s0 st comps (store w')" .
  show "placed m s0 1 (push_comp comps co) st' (store w')" if "x = Inr co"
  proof (cases y)
    case (Inl e)
    then show ?thesis using fail that by (simp add: isl_def)
  next
    case (Inr r)
    note d = fin [OF Inr] and n = new [OF Inr]
    have st': "same_session st st'" "cs_row st' = r" "co = None" using d that by simp_all
    have "within_limits m s0 (cs_owner st') (store w')"
      using lim st'(1) d n by (simp add: within_limits_def same_session_def)
    then show ?thesis
      using owed_session [OF st'(1) owed'] same_session_resolved [OF st'(1) res] len rest st' d n
      by (simp add: placed_def same_session_def)
  qed
qed

end

context store_contract
begin

lemma bind_stage:
  assumes "placed m s0 1 comps st (store w)" and "stageBind S E st w = (x, st', w')"
  shows "owed s0 st comps (store w')" and "x = Inr co \<Longrightarrow> placed m s0 0 (push_comp comps co) st' (store w')"
proof -
  let ?k = "RKey_String (cs_key st)"
  define n where "n = (if RuntimeID (cs_sandbox st) = '''' then ''ocu-sess-'' @ ?k else RuntimeID (cs_sandbox st))"
  have named: "n \<noteq> ''''" by (simp add: n_def)
  have owed: "owed s0 st comps (store w)" and len: "2 \<le> length comps" and res: "resolved st"
    and lim: "within_limits m s0 (cs_owner st) (store w)" and rest: "\<not> killed s0" "\<not> denied s0 ?k"
    and at: "row (store w) ?k = Some (cs_row st)" and prog: "row_progress 1 (cs_row st)"
    using assms(1) by (simp_all add: placed_def)
  have i: "inv (store w)" using owed by (simp add: owed_def)
  obtain y s1 where call: "BindContainerName S (e_ctx E (step w)) ?k (cs_owner st) n (cs_sockDirRoot st) (store w) = (y, s1)"
    by fastforce
  have run: "Custodian_BindContainerName S (e_ctx E) (cs_key st) (cs_owner st) n (cs_sockDirRoot st) w
      = (y, w\<lparr>store := s1, step := Suc (step w)\<rparr>)"
    using call by (simp add: Custodian_BindContainerName_def st_call_def)
  have res_eq: "(x, st', w') = (case y of Inl e \<Rightarrow> (Inl e, st, w\<lparr>store := s1, step := Suc (step w)\<rparr>)
      | Inr r \<Rightarrow> (Inr None, st\<lparr>cs_row := r\<rparr>, w\<lparr>store := s1, step := Suc (step w)\<rparr>))"
    unfolding assms(2) [symmetric] stageBind_def n_def [symmetric] Let_def by (simp add: run)
  then have w': "store w' = s1" and x: "isl x = isl y" "isl x \<or> x = Inr None"
    by (simp_all split: sum.splits)
  have st': "st' = st\<lparr>cs_row := r\<rparr>" if "y = Inr r" for r using res_eq that by simp
  have new: "Owner r = cs_owner st \<and> row_progress 0 r \<and> same_posture (store w) s1 \<and> cell s1 = cell (store w)
      \<and> row s1 = (row (store w))(?k \<mapsto> r)" if "y = Inr r" for r
    using bind_ok [OF i call [unfolded that]] at prog named by (auto simp: row_progress_def)
  have owed': "owed s0 st comps s1"
  proof (cases y)
    case (Inl e)
    then show ?thesis using bind_err [OF i call [unfolded Inl]] owed by simp
  next
    case (Inr r)
    have p: "same_posture (store w) s1" "cell s1 = cell (store w)"
      "row s1 = (row (store w))(?k \<mapsto> r)" "Owner r = cs_owner st"
      using new [OF Inr] by simp_all
    show ?thesis using owed_rows [OF owed len p] .
  qed
  then show "owed s0 st comps (store w')" by (simp add: w')
  show "placed m s0 0 (push_comp comps co) st' (store w')" if xco: "x = Inr co"
  proof -
    have co: "co = None" and "\<not> isl y" using x xco by simp_all
    then obtain r where y: "y = Inr r" by (cases y) simp_all
    have ss: "same_session st st'" using st' [OF y] by (simp add: same_session_def)
    note n = new [OF y]
    have "within_limits m s0 (cs_owner st') s1"
      using lim ss n by (simp add: within_limits_def same_session_def)
    then show ?thesis
      using owed_session [OF ss owed'] same_session_resolved [OF ss res] len rest st' [OF y] n co w'
      by (simp add: placed_def same_session_def)
  qed
qed

end

context responsive_store
begin

lemma charge_stage:
  assumes "early s0 comps st (store w)" and "Admitted (Decide (mgr_profile m) (mgr_tier m))"
    and "cells_ok s0" and "\<forall>n. \<not> e_bg E n" and "stageQuotaCharge S E m st w = (x, st', w')"
  shows "x = Inl e \<Longrightarrow> owed s0 st comps (store w')"
    and "x = Inr co \<Longrightarrow> billed m s0 (push_comp comps co) st' (store w')"
proof -
  define t where "t = e_now E (step w)"
  have comps: "comps = []" and res: "resolved st" and start: "same_posture s0 (store w)"
    "cell (store w) = cell s0" "row (store w) = row s0"
    using assms(1) by (auto simp: early_def owed_Nil)
  then have i: "inv (store w)"
    and ok: "\<forall>q \<in> {rate_key (cs_owner st) t, conc_key (cs_owner st)}. 0 \<le> cell (store w) q \<and> cell (store w) q < int64_max"
    using assms(3) by simp_all
  obtain y w1 where run: "Gate_ChargeCreate S E (mgr_limits m) (cs_owner st) w = (y, w1)" by fastforce
  show "owed s0 st comps (store w')" if "x = Inl e"
  proof -
    from that assms(5) run obtain e' where y: "y = Inl e'" and w': "store w' = store w1"
      by (cases y) (auto simp: stageQuotaCharge_def emit_rejected_eq split: option.splits prod.splits)
    have "\<not> e_bg E (step w + 2)" using assms(4) by blast
    from charge_create_err [OF i t_def ok run [unfolded y] this] start show ?thesis
      by (simp add: w' comps owed_Nil)
  qed
  show "billed m s0 (push_comp comps co) st' (store w')" if "x = Inr co"
  proof -
    from that assms(5) run obtain rc where y: "y = Inr rc" and co: "co = Some (CReceipt rc)" and w': "w' = w1" "st' = st"
      by (cases y) (auto simp: stageQuotaCharge_def emit_rejected_eq split: option.splits prod.splits)
    note ch = charge_create_ok [OF i t_def ok run [unfolded y]]
    have c: "charged rc = receipt_of (cs_owner st) t" "cell (store w1) = charged_cells (cs_owner st) t s0"
      "row (store w1) = row s0" "same_posture s0 (store w1)"
      "cell s0 (rate_key (cs_owner st) t) < CreateRatePerCallerPerMin (mgr_limits m)"
      "cell s0 (conc_key (cs_owner st)) < ConcurrentSessionsPerTenant (mgr_limits m)"
      using ch start by simp_all
    have "owed s0 st [CReceipt rc] (store w1)"
      unfolding owed_def by (rule conjI, use c in simp, rule disjI2,
          intro exI [of _ rc] exI [of _ t] conjI disjI1) (use c in simp_all)
    moreover have "within_limits m s0 (cs_owner st) (store w1)"
      unfolding within_limits_def using assms(2) c by blast
    ultimately show ?thesis using res co comps w' by (simp add: billed_def)
  qed
qed

end

context responsive_store
begin

text \<open>One step of the pipeline.\<close>

lemma pipe_step:
  assumes "pipe m s0 (Suc (length ss)) comps st (store w)" and "suffix (s # ss) manager_stages"
    and "cells_ok s0" and "\<forall>n. \<not> e_bg E n" and "run_stage S E m (stage_run s) st w = (x, st', w')"
  shows "(x = Inl e \<longrightarrow> owed s0 st comps (store w'))
    \<and> (x = Inr co \<longrightarrow> pipe m s0 (length ss) (push_comp comps co) st' (store w'))"
proof -
  define n where "n = length ss"
  note pre = assms(1) [folded n_def] and run = assms(5)
  consider "stage_run s = FResolveIdentity" "n = 9" | "stage_run s = FAdmit" "n = 8"
    | "stage_run s = FQuotaCharge" "n = 7" | "stage_run s = FReserve" "n = 6"
    | (out) "outside_stage (stage_run s)" "2 \<le> n" "n \<le> 5"
    | "stage_run s = FCommit" "n = 1" | "stage_run s = FBind" "n = 0"
    using stage_position [OF assms(2)] unfolding n_def [symmetric] by (elim insertE emptyE) simp_all
  then have "(x = Inl e \<longrightarrow> owed s0 st comps (store w'))
    \<and> (x = Inr co \<longrightarrow> pipe m s0 n (push_comp comps co) st' (store w'))"
  proof cases
    case 1
    then have ear: "early s0 comps st (store w)" using pre by (simp add: pipe_def)
    then have "resolved st" by (simp add: early_def)
    then show ?thesis using run 1 ear resolve_again [of st w] by (auto simp: pipe_def)
  next
    case 2
    then have ear: "early s0 comps st (store w)" using pre by (simp add: pipe_def)
    then have "owed s0 st comps (store w)" unfolding early_def by blast
    then show ?thesis
      using run 2 ear admit_frame [of E m st w x st' w' co] by (auto simp: pipe_def)
  next
    case 3
    then have ear: "early s0 comps st (store w)" "Admitted (Decide (mgr_profile m) (mgr_tier m))"
      using pre by (simp_all add: pipe_def)
    have "stageQuotaCharge S E m st w = (x, st', w')" using run 3 by simp
    from charge_stage [OF ear assms(3,4) this] show ?thesis using 3 by (simp add: pipe_def)
  next
    case 4
    then have bil: "billed m s0 comps st (store w)" using pre by (simp add: pipe_def)
    have "stageReserve S E st w = (x, st', w')" using run 4 by simp
    from reserve_stage [OF bil this] show ?thesis using 4 by (auto simp: pipe_def)
  next
    case out
    then have pl: "placed m s0 (Suc n) comps st (store w)" using pre by (simp add: pipe_def)
    from placed_outside [OF pl run out(1,2)] show ?thesis using out(3) by (auto simp: pipe_def)
  next
    case 6
    then have pl: "placed m s0 2 comps st (store w)" using pre by (simp add: pipe_def numeral_2_eq_2)
    have "stageCommit S E m st w = (x, st', w')" using run 6 by simp
    from commit_stage [OF pl this] show ?thesis using 6 by (simp add: pipe_def)
  next
    case 7
    then have pl: "placed m s0 1 comps st (store w)" using pre by (simp add: pipe_def)
    have "stageBind S E st w = (x, st', w')" using run 7 by simp
    from bind_stage [OF pl this] show ?thesis using 7 by (simp add: pipe_def)
  qed
  then show ?thesis by (simp only: n_def)
qed

end

lemma stage_same_session:
  assumes "run_stage S E m f st w = (x, st', w')" and "resolved st"
  shows "same_session st st'"
proof (cases "outside_stage f")
  case True
  then show ?thesis using outside_stage_frame [OF assms(1)] by blast
next
  case False
  show ?thesis
  proof (cases "f = FResolveIdentity")
    case True
    then show ?thesis using assms resolve_again [OF assms(2), of w] by (simp add: same_session_def)
  next
    case other: False
    then have "f \<in> {FAdmit, FQuotaCharge, FReserve, FCommit, FBind}" using False by (cases f) simp_all
    then show ?thesis by (rule store_stage_session [OF assms(1)])
  qed
qed

lemma same_session_trans: "same_session a b \<Longrightarrow> same_session b c \<Longrightarrow> same_session a c"
  by (simp add: same_session_def)

context responsive_store
begin

lemma restored_session: "same_session st st' \<Longrightarrow> restored s0 st' s \<Longrightarrow> restored s0 st s"
  by (simp add: restored_def same_session_def)

lemma pipeline_store:
  assumes "pipe m s0 (length ss) comps st (store w)" and "suffix ss manager_stages"
    and "cells_ok s0" and "\<forall>n. \<not> e_bg E n" and "resolved st"
    and "run_stages S E m ss comps st w = (x, st', w')"
  shows "(x = Inl e \<longrightarrow> restored s0 st (store w'))
    \<and> (x = Inr r \<longrightarrow> r = cs_row st' \<and> same_session st st' \<and> (\<exists>comps'. placed m s0 0 comps' st' (store w')))"
  using assms(1,2,5,6)
proof (induction ss arbitrary: comps st w)
  case Nil
  then show ?case by (auto simp: pipe_def same_session_def)
next
  case (Cons s ss)
  obtain y st1 w1 where stage: "run_stage S E m (stage_run s) st w = (y, st1, w1)" by (metis surj_pair)
  have pre: "pipe m s0 (Suc (length ss)) comps st (store w)" using Cons.prems(1) by simp
  note ss = stage_same_session [OF stage Cons.prems(3)]
  show ?case
  proof (cases y)
    case (Inl e')
    define w2 where "w2 = (if \<not> emitsOwnRejection s \<and> Caller (cs_owner st1) \<noteq> ''''
      then snd (emitCreateRejected E st1 (stageFailureReason E (stage_name s) e') w1) else w1)"
    have fin: "x = Inl e'" "w' = unwind S E m st1 comps w2"
      using Cons.prems(4) stage Inl by (auto simp: w2_def Let_def)
    have "store w2 = store w1" by (simp add: w2_def emitCreateRejected_def emit_def frame_simps)
    then have "owed s0 st comps (store w2)"
      using pipe_step [OF pre Cons.prems(2) assms(3,4) stage, of e'] Inl by simp
    from unwind_restores [OF this assms(3,4)] fin show ?thesis by simp
  next
    case (Inr co)
    have rest: "run_stages S E m ss (push_comp comps co) st1 w1 = (x, st', w')"
      using Cons.prems(4) stage Inr by (simp split: option.splits)
    have next_pipe: "pipe m s0 (length ss) (push_comp comps co) st1 (store w1)"
      using pipe_step [OF pre Cons.prems(2) assms(3,4) stage, of _ co] Inr by blast
    have suf: "suffix ss manager_stages" using Cons.prems(2) by (rule suffix_ConsD)
    have "resolved st1" using same_session_resolved [OF ss Cons.prems(3)] .
    from Cons.IH [OF next_pipe suf this rest] show ?thesis
      using restored_session [OF ss] same_session_trans [OF ss] by blast
  qed
qed

end

subsection \<open>The resume guard\<close>

definition session_key :: "CreateInput \<Rightarrow> string" where
  "session_key inp = RKey_String (DeriveKey (AcIdentity (CiCaller inp)) (mintHandle (SessionHint inp)))"

lemma resolved_key: "resolved st \<Longrightarrow> RKey_String (cs_key st) = session_key (cs_in st)
    \<and> cs_owner st = AcIdentity (CiCaller (cs_in st))"
  by (simp add: resolved_def session_key_def Let_def)

lemma publish_fields: "store (publishEvent E m x k w) = store w"
    "\<exists>evs. log (publishEvent E m x k w) = log w @ evs \<and> (\<forall>ev \<in> set evs. \<exists>le. ev = EvPublish le)"
  by (auto simp: publishEvent_def frame_simps)

text \<open>The guard never writes: it fails, resumes the caller's own ACTIVE row, or lets the create run.\<close>

lemma tryResume_store: "tryResume S E m st w = (x, st', w') \<Longrightarrow> store w' = store w"
  by (auto simp: tryResume_def Custodian_LookupForCaller_def st_read_def emit_def ext_call_def publish_fields
      stageResolveIdentity_def Let_def split: sum.splits option.splits if_splits prod.splits)

lemma tryResume_through:
  "tryResume S E m st w = (Inr None, st', w') \<Longrightarrow> resolved st' \<and> cs_in st' = cs_in st \<and> log w' = log w"
  by (auto simp: tryResume_def emit_def ext_call_def dest!: resolve_ok store_call_log_eq
      split: sum.splits option.splits if_splits prod.splits)

lemma tryResume_calls:
  assumes "tryResume S E m st w = (x, st', w')"
  shows "\<exists>evs. log w' = log w @ evs \<and> rejections evs = 0 \<and> (\<forall>R. held R evs = R)
    \<and> (\<forall>r. x = Inr (Some r) \<longrightarrow> resolved st' \<and> cs_in st' = cs_in st
          \<and> EvEmit (create_record ActionCreateResume st' '''' False) None \<in> set evs)
    \<and> (isl x \<longrightarrow> evs = [] \<or> (\<exists>e. evs = [EvEmit (create_record ActionCreateResume st' '''' False) (Some e)]))"
proof (cases "stageResolveIdentity st w")
  case (fields y st1 w1)
  show ?thesis
  proof (cases y)
    case (Inl e)
    then have "w1 = w" using fields by (auto simp: stageResolveIdentity_def Let_def split: if_splits)
    then show ?thesis using assms fields Inl by (auto simp: tryResume_def)
  next
    case (Inr co)
    note rs = resolve_ok [OF fields [unfolded Inr]]
    obtain z w2 where look: "Custodian_LookupForCaller S (e_ctx E) (cs_key st1) (cs_owner st1) w1 = (z, w2)"
      by fastforce
    have l2: "log w2 = log w" using store_call_log_eq(4) [OF look] rs by simp
    show ?thesis
    proof (cases "\<exists>r. z = Inr r \<and> State r = StateActive")
      case False
      then have "w' = w2 \<and> (\<forall>r. x \<noteq> Inr (Some r))"
        using assms fields Inr look by (cases z) (auto simp: tryResume_def split: if_splits)
      then show ?thesis using l2 by simp
    next
      case True
      then obtain r where r: "z = Inr r" "State r = StateActive" by blast
      define ev where "ev = EvEmit (create_record ActionCreateResume st1 '''' False)"
      define w3 where "w3 = snd (emit E (create_record ActionCreateResume st1 '''' False) w2)"
      have l3: "log w3 = log w @ [ev (e_emit E (step w2))]" by (simp add: w3_def ev_def emit_def frame_simps l2)
      obtain pub where pub: "log (publishEvent E m StateActive (Key r) w3) = log w3 @ pub"
        "\<forall>e \<in> set pub. \<exists>le. e = EvPublish le" using publish_fields(2) by blast
      have quiet: "rejections pub = 0" "\<forall>R. held R pub = R"
        using pub(2) by (induction pub) auto
      show ?thesis
      proof (cases "e_emit E (step w2)")
        case None
        then have "x = Inr (Some r) \<and> st' = st1 \<and> w' = publishEvent E m StateActive (Key r) w3"
          using assms fields Inr look r by (auto simp: tryResume_def emit_def ext_call_def w3_def)
        then show ?thesis using l3 pub(1) None rs quiet by (simp add: ev_def)
      next
        case (Some e)
        then have "x = Inl e \<and> st' = st1 \<and> w' = w3"
          using assms fields Inr look r by (auto simp: tryResume_def emit_def ext_call_def w3_def)
        then show ?thesis using l3 Some by (simp add: ev_def)
      qed
    qed
  qed
qed

subsection \<open>The record of a create that succeeds\<close>

lemma create_record_session: "same_session st st' \<Longrightarrow> create_record a st' c h = create_record a st c h"
  by (simp add: create_record_def same_session_def)

lemma commit_emits:
  assumes "stageCommit S E m st w = (Inr co, st', w')"
  shows "after_calls w (\<lambda>evs. \<exists>h. EvEmit (create_record ActionCreateCommit st '''' h) None \<in> set evs) w'"
  using assms
  by (auto simp: stageCommit_def emit_def ext_call_eq after_calls_log note_metric_def frame_simps Let_def
      create_record_def dest!: store_call_log_eq split: option.splits sum.splits prod.splits)

lemma resolved_caller: "resolved st \<Longrightarrow> Caller (cs_owner st) \<noteq> ''''"
  by (simp add: resolved_def Let_def)

lemma run_stages_emits:
  assumes "run_stages S E m ss comps st w = (Inr r, st', w')" and "set ss \<subseteq> set manager_stages"
    and "resolved st" and "FCommit \<in> stage_run ` set ss"
  shows "after_calls w (\<lambda>evs. \<exists>h. EvEmit (create_record ActionCreateCommit st '''' h) None \<in> set evs) w'"
  using assms
proof (induction ss arbitrary: comps st w)
  case (Cons s ss)
  obtain y st1 w1 where stage: "run_stage S E m (stage_run s) st w = (y, st1, w1)" by (metis surj_pair)
  obtain co where y: "y = Inr co" using Cons.prems(1) stage by (cases y) (simp_all add: Let_def)
  have rest: "run_stages S E m ss (push_comp comps co) st1 w1 = (Inr r, st', w')"
    using Cons.prems(1) stage y by (simp split: option.splits)
  note ses = stage_same_session [OF stage Cons.prems(3)]
  have res: "resolved st1" using same_session_resolved [OF ses Cons.prems(3)] .
  have sub: "set ss \<subseteq> set manager_stages" using Cons.prems(2) by simp
  show ?case
  proof (cases "stage_run s = FCommit")
    case True
    then have cm: "stageCommit S E m st w = (Inr co, st1, w1)" using stage y by simp
    show ?thesis
      by (rule after_calls_trans [OF commit_emits [OF cm] run_stages_log [OF rest sub resolved_caller [OF res]]])
        (metis Un_iff set_append)
  next
    case False
    then have later: "FCommit \<in> stage_run ` set ss" using Cons.prems(4) by auto
    show ?thesis
      by (rule after_calls_trans [OF stage_log [OF stage]
            Cons.IH [OF rest sub res later, unfolded create_record_session [OF ses]]])
        (metis Un_iff set_append)
  qed
qed simp

subsection \<open>Create\<close>

text \<open>The input after the image default is filled in.\<close>

definition effective_input :: "Manager \<Rightarrow> CreateInput \<Rightarrow> CreateInput" where
  "effective_input m inp = (if CiImage inp = '''' then inp\<lparr>CiImage := defaultImage m\<rparr> else inp)"

lemma effective_same [simp]:
  "session_key (effective_input m inp) = session_key inp"
  "CiCaller (effective_input m inp) = CiCaller inp"
  by (simp_all add: effective_input_def session_key_def)

lemma new_createState_in [simp]: "cs_in (new_createState inp) = inp"
  by (simp add: new_createState_def)

text \<open>The ways a create can go.\<close>

lemma create_cases:
  assumes "Manager_Create S E m inp w = (x, w')"
  obtains (image) "isl x" "w' = w"
      "CiImage (effective_input m inp) = '''' \<or> CiImage (effective_input m inp) \<notin> set (allowedImages m)"
  | (guard) e st where "tryResume S E m (new_createState (effective_input m inp)) w = (Inl e, st, w')" "x = Inl e"
      "CiImage (effective_input m inp) \<noteq> ''''" "CiImage (effective_input m inp) \<in> set (allowedImages m)"
  | (resumed) r st where "tryResume S E m (new_createState (effective_input m inp)) w = (Inr (Some r), st, w')" "x = Inr r"
      "CiImage (effective_input m inp) \<in> set (allowedImages m)"
  | (ran) st w1 y st' w2 where "tryResume S E m (new_createState (effective_input m inp)) w = (Inr None, st, w1)"
      "run_stages S E m manager_stages [] st w1 = (y, st', w2)" "x = y"
      "w' = (if isl y then w2 else publishEvent E m StateActive (Key (projr y)) (note_metric m IncCreate w2))"
      "CiImage (effective_input m inp) \<in> set (allowedImages m)" "CiImage (effective_input m inp) \<noteq> ''''"
proof (cases "CiImage (effective_input m inp) = '''' \<or> CiImage (effective_input m inp) \<notin> set (allowedImages m)")
  case True
  then have "Manager_Create S E m inp w = (Inl [ErrInvalidArgument], w)"
    by (cases "CiImage (effective_input m inp) = ''''")
      (simp_all add: Manager_Create_def effective_input_def [symmetric] Let_def)
  then have "isl x \<and> w' = w" using assms by auto
  then show thesis using image True by blast
next
  case False
  obtain z st w1 where guard_run: "tryResume S E m (new_createState (effective_input m inp)) w = (z, st, w1)"
    by (metis surj_pair)
  have run: "(x, w') = (case z of Inl e \<Rightarrow> (Inl e, w1) | Inr (Some r) \<Rightarrow> (Inr r, w1)
      | Inr None \<Rightarrow> (case run_stages S E m manager_stages [] st w1 of
          (Inl e, _, w2) \<Rightarrow> (Inl e, w2)
        | (Inr r, _, w2) \<Rightarrow> (Inr r, publishEvent E m StateActive (Key r) (note_metric m IncCreate w2))))"
    unfolding assms [symmetric] Manager_Create_def effective_input_def [symmetric] Let_def
    using False guard_run by (simp split: sum.split option.split)
  show thesis
  proof (cases z)
    case (Inl e)
    then show thesis using guard guard_run run False by simp
  next
    case (Inr found)
    show thesis
    proof (cases found)
      case (Some r)
      then show thesis using resumed guard_run run Inr False by simp
    next
      case None
      obtain y st' w2 where "run_stages S E m manager_stages [] st w1 = (y, st', w2)" by (metis surj_pair)
      then show thesis using ran [of st w1 y st' w2] guard_run run Inr None False by (cases y) simp_all
    qed
  qed
qed

lemma manager_stages_commit: "FCommit \<in> stage_run ` set manager_stages"
  by (simp add: manager_stages_def)

lemma publish_quiet:
  "after_calls w (\<lambda>evs. rejections evs = 0 \<and> (\<forall>R. held R evs = R))
     (publishEvent E m x k (note_metric m' y w))"
  by (simp add: publishEvent_def note_metric_def after_calls_def frame_simps)

lemma create_log:
  assumes "Manager_Create S E m inp w = (x, w')"
  shows "after_calls w (\<lambda>evs. if isl x
      then (\<forall>R. held R evs \<subseteq> R) \<and> (rejections evs = 1 \<or> store w' = store w \<and>
        (evs = [] \<or> (\<exists>rec e. evs = [EvEmit rec (Some e)] \<and> RcAction rec = ActionCreateResume)))
      else rejections evs = 0 \<and> (\<exists>rec. EvEmit rec None \<in> set evs \<and> RcAction rec \<in> {ActionCreateCommit, ActionCreateResume}
        \<and> RcKey rec = session_key inp \<and> RcCaller rec = Caller (AcIdentity (CiCaller inp))
        \<and> RcTenant rec = Tenant (AcIdentity (CiCaller inp)))) w'"
  using assms
proof (cases rule: create_cases)
  case image
  then show ?thesis by (simp add: after_calls_def)
next
  case (guard e st)
  then show ?thesis
    using tryResume_store [OF guard(1)] tryResume_calls [OF guard(1)]
    by (fastforce simp: after_calls_def)
next
  case (resumed r st)
  obtain evs where evs: "log w' = log w @ evs" "rejections evs = 0"
    "EvEmit (create_record ActionCreateResume st '''' False) None \<in> set evs"
    and st: "resolved st" "cs_in st = effective_input m inp"
    using tryResume_calls [OF resumed(1)] by auto
  have "RcKey (create_record ActionCreateResume st '''' False) = session_key inp"
    "cs_owner st = AcIdentity (CiCaller inp)"
    using resolved_key [OF st(1)] st(2) by (simp_all add: create_record_def)
  then show ?thesis
    using evs resumed(2) by (auto simp: after_calls_def create_record_def intro!: bexI)
next
  case (ran st w1 y st' w2)
  have st: "resolved st" "cs_in st = effective_input m inp" "log w1 = log w"
    using tryResume_through [OF ran(1)] by simp_all
  have key: "RKey_String (cs_key st) = session_key inp" "cs_owner st = AcIdentity (CiCaller inp)"
    using resolved_key [OF st(1)] st(2) by simp_all
  note calls = run_stages_log [OF ran(2) subset_refl resolved_caller [OF st(1)]]
  show ?thesis
  proof (cases y)
    case (Inl e)
    then have "after_calls w1 (\<lambda>evs. rejections evs = 1 \<and> (\<forall>R. held R evs \<subseteq> R)) w'"
      using calls ran(4) by simp
    then show ?thesis using ran(3) Inl st(3) by (auto simp: after_calls_def)
  next
    case (Inr r)
    obtain evs where evs: "log w2 = log w @ evs" "rejections evs = 0"
      using calls Inr st(3) by (auto simp: after_calls_def)
    obtain h where em: "EvEmit (create_record ActionCreateCommit st '''' h) None \<in> set evs"
      using run_stages_emits [OF ran(2) [unfolded Inr] subset_refl st(1) manager_stages_commit] evs(1) st(3)
      by (auto simp: after_calls_def)
    obtain evs' where "log w' = log w2 @ evs'" "rejections evs' = 0"
      using publish_quiet [of w2 E m StateActive "Key r" m IncCreate] ran(4) Inr by (auto simp: after_calls_def)
    then have "log w' = log w @ (evs @ evs')" "rejections (evs @ evs') = 0" using evs by simp_all
    moreover have "EvEmit (create_record ActionCreateCommit st '''' h) None \<in> set (evs @ evs')" using em by simp
    ultimately show ?thesis
      using ran(3) Inr key unfolding after_calls_def
      by (intro exI [of _ "evs @ evs'"]) (auto simp: create_record_def intro!: exI [of _ "create_record ActionCreateCommit st '''' h"])
  qed
qed

context responsive_store
begin

lemma create_failure:
  assumes "inv (store w)" and "cells_ok (store w)" and "\<forall>n. \<not> e_bg E n"
    and "Manager_Create S E m inp w = (Inl e, w')"
  shows "same_posture (store w) (store w') \<and> cell (store w') = cell (store w) \<and>
    (row (store w') = row (store w) \<or>
     (\<exists>r. row (store w') = (row (store w))(session_key inp \<mapsto> r) \<and> Owner r = AcIdentity (CiCaller inp) \<and>
        State r = StateReleased \<and> dead (store w) (session_key inp)))"
  using assms(4)
proof (cases rule: create_cases)
  case image
  then show ?thesis using assms(1) by simp
next
  case (guard e' st)
  then show ?thesis using tryResume_store [OF guard(1)] assms(1) by simp
next
  case (ran st w1 y st' w2)
  have st: "resolved st" "cs_in st = effective_input m inp" "store w1 = store w"
    using tryResume_through [OF ran(1)] tryResume_store [OF ran(1)] by simp_all
  have key: "RKey_String (cs_key st) = session_key inp" "cs_owner st = AcIdentity (CiCaller inp)"
    using resolved_key [OF st(1)] st(2) by simp_all
  have len: "length manager_stages = 10" by (simp add: manager_stages_def)
  have "owed (store w) st [] (store w1)" using assms(1) st(3) by (simp add: owed_Nil)
  then have "pipe m (store w) (length manager_stages) [] st (store w1)"
    using st(1) by (simp add: pipe_def early_def len)
  from pipeline_store [OF this suffix_order.refl assms(2,3) st(1) ran(2)]
  have "restored (store w) st (store w')" using ran(3,4) by auto
  then show ?thesis unfolding restored_def vacant_def key .
qed simp

lemma create_success:
  assumes "inv (store w)" and "cells_ok (store w)" and "\<forall>n. \<not> e_bg E n"
    and "Manager_Create S E m inp w = (Inr r, w')"
  shows "Owner r = AcIdentity (CiCaller inp) \<and> State r = StateActive \<and> row (store w') (session_key inp) = Some r
    \<and> CiImage (effective_input m inp) \<in> set (allowedImages m)
    \<and> (store w' = store w \<or>
       same_posture (store w) (store w') \<and> row (store w') = (row (store w))(session_key inp \<mapsto> r)
       \<and> dead (store w) (session_key inp) \<and> ContainerName r \<noteq> ''''
       \<and> \<not> killed (store w) \<and> \<not> denied (store w) (session_key inp)
       \<and> within_limits m (store w) (Owner r) (store w'))"
  using assms(4)
proof (cases rule: create_cases)
  case (resumed r' st)
  have "stageResolveIdentity (new_createState (effective_input m inp)) w \<noteq> (Inl e, st'', w'')" for e st'' w''
    using resumed(1) by (auto simp: tryResume_def)
  then obtain co st1 w1 where rs: "stageResolveIdentity (new_createState (effective_input m inp)) w = (Inr co, st1, w1)"
    by (metis sum.exhaust surj_pair)
  note st1 = resolve_ok [OF rs]
  have key: "RKey_String (cs_key st1) = session_key inp" "cs_owner st1 = AcIdentity (CiCaller inp)"
    using resolved_key [of st1] st1 by simp_all
  obtain w2 where look: "Custodian_LookupForCaller S (e_ctx E) (cs_key st1) (cs_owner st1) w1 = (Inr r', w2)"
    and act: "State r' = StateActive"
    using resumed(1) rs by (auto simp: tryResume_def split: sum.splits option.splits if_splits prod.splits)
  from lookup_for_caller_ok [OF _ look] st1 assms(1)
  have "row (store w) (RKey_String (cs_key st1)) = Some r'" "Owner r' = cs_owner st1" by simp_all
  then show ?thesis
    using key act resumed(2,3) tryResume_store [OF resumed(1)] by simp
next
  case (ran st w1 y st' w2)
  have st: "resolved st" "cs_in st = effective_input m inp" "store w1 = store w"
    using tryResume_through [OF ran(1)] tryResume_store [OF ran(1)] by simp_all
  have len: "length manager_stages = 10" by (simp add: manager_stages_def)
  have "owed (store w) st [] (store w1)" using assms(1) st(3) by (simp add: owed_Nil)
  then have "pipe m (store w) (length manager_stages) [] st (store w1)"
    using st(1) by (simp add: pipe_def early_def len)
  from pipeline_store [OF this suffix_order.refl assms(2,3) st(1) ran(2)] ran(3)
  obtain comps' where p: "placed m (store w) 0 comps' st' (store w2)" and r: "r = cs_row st'"
    and ses: "same_session st st'" by metis
  have key: "RKey_String (cs_key st') = session_key inp" "cs_owner st' = AcIdentity (CiCaller inp)"
    using resolved_key [OF st(1)] st(2) ses by (simp_all add: same_session_def)
  have w': "store w' = store w2" using ran(3,4) by (auto simp: publish_fields note_metric_store)
  have owed: "owed (store w) st' comps' (store w2)" and lc: "2 \<le> length comps'"
    using p by (simp_all add: placed_def)
  obtain r0 where row: "row (store w2) = (row (store w))(session_key inp \<mapsto> r0)" "Owner r0 = cs_owner st'"
    "vacant (store w) (session_key inp)" "same_posture (store w) (store w2)"
    by (rule owed_late [OF owed lc]) (simp add: key)
  have "r0 = r" using p row(1) r key by (simp add: placed_def)
  then show ?thesis
    using p row key w' r ran(5) by (simp add: placed_def row_progress_def vacant_def)
qed simp_all

end

subsection \<open>Create over the in-memory store\<close>

abbreviation cells_in_range :: "memStore \<Rightarrow> bool" where
  "cells_in_range s \<equiv> \<forall>q. 0 \<le> quota_at s q \<and> quota_at s q < int64_max"

abbreviation demo_caller :: AuthenticatedCaller where
  "demo_caller \<equiv> \<lparr>AcIdentity = owner_ta, AcChannel = ChannelGateway\<rparr>"

definition demo_manager :: Manager where
  "demo_manager = NewManager
     \<lparr>mgr_limits = demo_limits\<lparr>ConcurrentSessionsPerTenant := 3, CreateRatePerCallerPerMin := 9\<rparr>,
      mgr_profile = ProfileTrustedOperator, mgr_tier = TierRunc, defaultImage = ''img'', allowedImages = [],
      signer_wired = True, push_wired = True,
      storageScope = \<lparr>SsWorkspace = ''w'', SsOrg = ''o'', SsScope = '''', SsIntent = IntentRead, SsDownloadable = False\<rparr>,
      grantedIntents = DefaultIntentCeiling, ticket_wired = True, dialer_wired = False, exec_wired = False,
      execVerifyKey = Some ''key'', metrics_wired = True, events_wired = True, pool_wired = False,
      claimer_wired = False\<rparr>"

definition demo_input :: CreateInput where
  "demo_input = \<lparr>CiCaller = demo_caller, SessionHint = ''chat'', CiImage = '''',
     CiMount = \<lparr>Destination = ''/data'', MtFilesystemID = ''fs'', MemoryStoreID = '''', ReadOnly = False,
       AuthToken = '''', CacheSeconds = 0\<rparr>,
     CiEgress = \<lparr>DefaultDeny = True, AllowedUpstream = '''', EgFilesystemID = ''fs''\<rparr>,
     CiResources = \<lparr>CPUCores = 0, MemoryBytes = 0, PidsLimit = None\<rparr>\<rparr>"

text \<open>A run of the whole pipeline, with a mount, on a new store: the materialize step answers \<open>x\<close>.\<close>

abbreviation demo_create :: "Sandbox result \<Rightarrow> SessionRow result \<times> memStore cworld" where
  "demo_create x \<equiv> Manager_Create memStore_ops (demo_env\<lparr>e_materialize := \<lambda>_. x\<rparr>) demo_manager demo_input
     (demo_cworld NewInMemory)"

lemmas demo_create_defs = Manager_Create_def demo_manager_def demo_input_def NewManager_def new_createState_def
  tryResume_def stageResolveIdentity_def DeriveKey_not_zero Let_def Custodian_LookupForCaller_def st_read_def
  st_call_def memStore_ops_def memStore_LookupSession_def NewInMemory_def demo_env_def manager_stages_def
  stageAdmit_def Decide_def matrix_def numProfiles_def numTiers_def tier_profile_defs stageQuotaCharge_def
  Gate_ChargeCreate_def stageReserve_def Custodian_Reserve_def Custodian_Commit_def
  Custodian_BindContainerName_def stageStageHandoff_def warmEnabled_def stage_cold_handoff_def
  stageMintStorageJWT_def stageRenderPushMount_def stageMaterialize_def stageCommit_def stageBind_def
  ext_call_def emit_def memStore_mutator_defs hasStorageScope_def DefaultIntentCeiling_def NewIntentCeiling_def
  IntentCeiling_Admits_def deriveMountIntent_def Custodian_RecordActivation_def word_le_nat_alt quota_at_def
  int64_min_def int64_max_def note_metric_store

lemma demo_create_fails: "isl (fst (demo_create (Inl [ErrMaterialize])))"
  by (simp add: demo_create_defs)

lemma demo_create_succeeds: "\<not> isl (fst (demo_create (Inr demo_sandbox)))"
  by (simp add: demo_create_defs)

lemma demo_create_pre:
  "mem_inv (store (demo_cworld NewInMemory))" "cells_in_range (store (demo_cworld NewInMemory))"
  "\<forall>n. \<not> e_bg (demo_env\<lparr>e_materialize := f\<rparr>) n"
  using mem_inv_new by (simp, simp_all add: quota_at_def NewInMemory_def int64_max_def demo_env_def)

text \<open>
  C1: A create that fails leaves nothing behind, at whichever of its stages it fails and whatever
  the outside components answer. Every counter has its old value, the deny posture and every other
  session's row are untouched, the row of the session itself is what it was or a RELEASED
  tombstone where no live row had been, and every sandbox, staged handoff, pooled unit and pushed
  mount-config that the create obtained has been handed to its reclaimer. The counters have to be
  in the range a store maintains, and the detached context of the unwind must not time out.
\<close>

theorem create_failure_leaves_nothing:
  assumes "mem_inv (store w)" and "cells_in_range (store w)" and "\<forall>n. \<not> e_bg E n"
    and "Manager_Create memStore_ops E m inp w = (Inl e, w')"
  shows "quota_at (store w') = quota_at (store w) \<and> mem_killed (store w') = mem_killed (store w)
    \<and> mem_denied (store w') = mem_denied (store w)
    \<and> (\<forall>k. rows (store w') k = rows (store w) k \<or>
          k = session_key inp \<and> (\<forall>r. rows (store w) k = Some r \<longrightarrow> \<not> is_live r) \<and>
          (\<exists>r. rows (store w') k = Some r \<and> State r = StateReleased \<and> Owner r = AcIdentity (CiCaller inp)))
    \<and> (\<exists>evs. log w' = log w @ evs \<and> (\<forall>R. held R evs \<subseteq> R))"
proof -
  have res: "\<exists>evs. log w' = log w @ evs \<and> (\<forall>R. held R evs \<subseteq> R)"
    using create_log [OF assms(4)] by (auto simp: after_calls_def)
  note f = mem.create_failure [OF assms]
  let ?left = "\<lambda>k. rows (store w') k = rows (store w) k \<or>
      k = session_key inp \<and> (\<forall>r. rows (store w) k = Some r \<longrightarrow> \<not> is_live r) \<and>
      (\<exists>r. rows (store w') k = Some r \<and> State r = StateReleased \<and> Owner r = AcIdentity (CiCaller inp))"
  have "?left k" for k
  proof (cases "rows (store w') = rows (store w)")
    case False
    with f obtain r where r: "rows (store w') = (rows (store w))(session_key inp \<mapsto> r)"
      "Owner r = AcIdentity (CiCaller inp)" "State r = StateReleased"
      "\<forall>r. rows (store w) (session_key inp) = Some r \<longrightarrow> \<not> is_live r"
      by blast
    then show ?thesis by (cases "k = session_key inp") simp_all
  qed simp
  with res show ?thesis using f by simp
qed

theorem create_failure_leaves_nothing_witness:
  "\<exists>e w'. demo_create (Inl [ErrMaterialize]) = (Inl e, w') \<and> quota_at (store w') = quota_at NewInMemory
     \<and> (\<exists>evs. log w' = evs \<and> (\<forall>R. held R evs \<subseteq> R))"
proof -
  obtain e w' where run: "demo_create (Inl [ErrMaterialize]) = (Inl e, w')"
    using demo_create_fails by (metis isl_def prod.collapse)
  from create_failure_leaves_nothing [OF demo_create_pre run] run show ?thesis by simp
qed

text \<open>
  C2: A create that succeeds delivers an ACTIVE session of the caller at the key derived from the
  caller's identity and hint, from an allowed image. Either it is the caller's own running session,
  and then nothing in the store has changed, no counter in particular; or it is new: the pairing
  of profile and tier is admitted, neither the kill-switch nor the denylist stood against it, the
  key held no live row, its container name is bound, both counters were below their limits and
  have gone up by exactly one, and no other row, cell or posture has moved.
\<close>

theorem create_success_delivers:
  assumes "mem_inv (store w)" and "cells_in_range (store w)" and "\<forall>n. \<not> e_bg E n"
    and "Manager_Create memStore_ops E m inp w = (Inr r, w')"
  shows "Owner r = AcIdentity (CiCaller inp) \<and> State r = StateActive \<and> rows (store w') (session_key inp) = Some r
    \<and> CiImage (effective_input m inp) \<in> set (allowedImages m)
    \<and> (store w' = store w \<or>
       Admitted (Decide (mgr_profile m) (mgr_tier m))
       \<and> \<not> mem_killed (store w) \<and> \<not> mem_denied (store w) (session_key inp)
       \<and> (\<forall>r0. rows (store w) (session_key inp) = Some r0 \<longrightarrow> \<not> is_live r0)
       \<and> ContainerName r \<noteq> '''' \<and> rows (store w') = (rows (store w))(session_key inp \<mapsto> r)
       \<and> mem_killed (store w') = mem_killed (store w) \<and> mem_denied (store w') = mem_denied (store w)
       \<and> (\<exists>t. let rate = rate_key (Owner r) t; conc = conc_key (Owner r); n = quota_at (store w) in
            n rate < CreateRatePerCallerPerMin (mgr_limits m) \<and> n conc < ConcurrentSessionsPerTenant (mgr_limits m)
            \<and> quota_at (store w') = n(rate := n rate + 1, conc := n conc + 1)))"
  using mem.create_success [OF assms] unfolding mem.within_limits_def cell_upd_mem Let_def
  by (elim conjE disjE exE) (simp, simp, blast)

theorem create_success_delivers_witness:
  "\<exists>r w'. demo_create (Inr demo_sandbox) = (Inr r, w') \<and> Owner r = owner_ta \<and> State r = StateActive
     \<and> rows (store w') (session_key demo_input) = Some r"
proof -
  obtain r w' where run: "demo_create (Inr demo_sandbox) = (Inr r, w')"
    using demo_create_succeeds by (metis sum.collapse(2) prod.collapse)
  from create_success_delivers [OF demo_create_pre run] run show ?thesis by (simp add: demo_input_def)
qed

text \<open>
  When a create is turned away before its pipeline: the image is missing or not allowed, the caller
  is not attested, the store cannot say whether the session exists, or the session is the caller's
  own and ACTIVE, so that the create can only be a resume.
\<close>

definition own_active :: "'s Store \<Rightarrow> env \<Rightarrow> CreateInput \<Rightarrow> 's cworld \<Rightarrow> bool" where
  "own_active S E inp w \<longleftrightarrow>
     (case LookupSession S (e_ctx E (step w)) (session_key inp) (store w) of
        Inl e \<Rightarrow> False | Inr r \<Rightarrow> Owner r = AcIdentity (CiCaller inp) \<and> State r = StateActive)"

definition turned_away :: "'s Store \<Rightarrow> env \<Rightarrow> Manager \<Rightarrow> CreateInput \<Rightarrow> 's cworld \<Rightarrow> bool" where
  "turned_away S E m inp w \<longleftrightarrow>
     CiImage (effective_input m inp) = '''' \<or> CiImage (effective_input m inp) \<notin> set (allowedImages m)
     \<or> Caller (AcIdentity (CiCaller inp)) = '''' \<or> Tenant (AcIdentity (CiCaller inp)) = ''''
     \<or> own_active S E inp w
     \<or> (case LookupSession S (e_ctx E (step w)) (session_key inp) (store w) of
          Inl e \<Rightarrow> \<not> errors_is e ErrReservationNotFound \<and> \<not> errors_is e ErrNotOwned | Inr r \<Rightarrow> False)"

lemma resolve_attested:
  assumes "Caller (AcIdentity (CiCaller (cs_in st))) \<noteq> ''''" and "Tenant (AcIdentity (CiCaller (cs_in st))) \<noteq> ''''"
  shows "\<exists>st1. stageResolveIdentity st w = (Inr None, st1, w) \<and> RKey_String (cs_key st1) = session_key (cs_in st) \<and>
    cs_owner st1 = AcIdentity (CiCaller (cs_in st))"
  using assms by (simp add: stageResolveIdentity_def Let_def DeriveKey_not_zero session_key_def)

lemma guard_passes:
  assumes "tryResume S E m (new_createState (effective_input m inp)) w = (z, st, w1)"
    and "CiImage (effective_input m inp) \<noteq> ''''" and "CiImage (effective_input m inp) \<in> set (allowedImages m)"
  shows "(z = Inr None \<longleftrightarrow> \<not> turned_away S E m inp w) \<and> (\<not> own_active S E inp w \<longrightarrow> log w1 = log w)"
proof (cases "Caller (AcIdentity (CiCaller inp)) = '''' \<or> Tenant (AcIdentity (CiCaller inp)) = ''''")
  case True
  then show ?thesis using assms(1) by (auto simp: tryResume_def stageResolveIdentity_def turned_away_def Let_def)
next
  case False
  then obtain st1 where st1: "stageResolveIdentity (new_createState (effective_input m inp)) w = (Inr None, st1, w)"
      "RKey_String (cs_key st1) = session_key inp" "cs_owner st1 = AcIdentity (CiCaller inp)"
    using resolve_attested [of "new_createState (effective_input m inp)" w] by auto
  obtain x where x: "LookupSession S (e_ctx E (step w)) (session_key inp) (store w) = x" by blast
  show ?thesis
    using assms False by (cases x) (auto simp: tryResume_def Custodian_LookupForCaller_def st_read_def st1 x
        turned_away_def own_active_def emit_def ext_call_def split: if_splits option.splits)
qed

lemma create_failure_log:
  assumes "Manager_Create S E m inp w = (Inl e, w')"
  shows "after_calls w (\<lambda>evs. if turned_away S E m inp w
      then store w' = store w \<and>
        (evs = [] \<or> own_active S E inp w \<and> (\<exists>rec e. evs = [EvEmit rec (Some e)] \<and> RcAction rec = ActionCreateResume))
      else rejections evs = 1) w'"
  using assms
proof (cases rule: create_cases)
  case image
  then show ?thesis by (auto simp: after_calls_def turned_away_def)
next
  case (guard e' st)
  note g = guard_passes [OF guard(1,3,4)]
  show ?thesis
    using g tryResume_store [OF guard(1)] tryResume_calls [OF guard(1)]
    by (fastforce simp: after_calls_def)
next
  case (resumed r st)
  then show ?thesis by simp
next
  case (ran st w1 y st' w2)
  have away: "\<not> turned_away S E m inp w" using guard_passes [OF ran(1,6,5)] by simp
  have "resolved st" "log w1 = log w" using tryResume_through [OF ran(1)] by simp_all
  then show ?thesis
    using run_stages_log [OF ran(2) subset_refl resolved_caller] ran(3,4) away by (auto simp: after_calls_def)
qed

text \<open>
  C17: The audit trail of a create is complete and single. A create that succeeds has had its
  commit record, or its resume record, accepted by the sink, naming the session key and the
  attested caller and tenant, and has written no rejection. A create that fails offers the sink
  exactly one rejection record, never two, unless it was turned away before the pipeline began: no
  image or one that is not allowed, a caller without an attested name or tenant, a store that could
  not answer the lookup, or the caller's own session already ACTIVE. Then the store is untouched and
  nothing was recorded, except in the last case the resume record that the sink refused. This holds
  for every store.
\<close>

theorem create_audited_once:
  assumes "Manager_Create S E m inp w = (x, w')"
  shows "\<exists>evs. log w' = log w @ evs \<and>
    (isl x \<longrightarrow>
       (if turned_away S E m inp w
        then store w' = store w \<and>
          (evs = [] \<or> own_active S E inp w \<and> (\<exists>rec e. evs = [EvEmit rec (Some e)] \<and> RcAction rec = ActionCreateResume))
        else rejections evs = 1)) \<and>
    (\<not> isl x \<longrightarrow> rejections evs = 0 \<and>
        (\<exists>rec. EvEmit rec None \<in> set evs \<and> RcAction rec \<in> {ActionCreateCommit, ActionCreateResume}
          \<and> RcKey rec = session_key inp \<and> RcCaller rec = Caller (AcIdentity (CiCaller inp))
          \<and> RcTenant rec = Tenant (AcIdentity (CiCaller inp))))"
proof (cases x)
  case (Inl e)
  then show ?thesis using create_failure_log [OF assms [unfolded Inl]] unfolding after_calls_def by auto
next
  case (Inr r)
  then show ?thesis using create_log [OF assms] unfolding after_calls_def by auto
qed

theorem create_audited_once_witness:
  "(\<exists>x w'. demo_create (Inr demo_sandbox) = (x, w') \<and> \<not> isl x \<and> rejections (log w') = 0
     \<and> (\<exists>rec. EvEmit rec None \<in> set (log w') \<and> RcKey rec = session_key demo_input))
   \<and> (\<exists>x w'. demo_create (Inl [ErrMaterialize]) = (x, w') \<and> isl x \<and> rejections (log w') = 1)"
proof -
  obtain x w' where run: "demo_create (Inr demo_sandbox) = (x, w')" by fastforce
  then have "\<not> isl x" using demo_create_succeeds by simp
  moreover obtain y w'' where bad: "demo_create (Inl [ErrMaterialize]) = (y, w'')" by fastforce
  then have "isl y" using demo_create_fails by simp
  moreover have "\<not> turned_away memStore_ops (demo_env\<lparr>e_materialize := \<lambda>_. Inl [ErrMaterialize]\<rparr>) demo_manager demo_input
      (demo_cworld NewInMemory)"
    by (simp add: turned_away_def own_active_def effective_input_def demo_input_def demo_manager_def NewManager_def
        memStore_ops_def memStore_LookupSession_def NewInMemory_def demo_env_def)
  ultimately show ?thesis using create_audited_once [OF run] create_audited_once [OF bad] run bad by auto
qed

text \<open>
  The resume guard hands out sessions that are not up yet. A create whose key names the caller's
  own row in the window between commit and bind, ACTIVE but with no container name, returns that
  row as a success. The comment on the guard says that only RESERVED rows are unbound.
\<close>

theorem resume_returns_unbound:
  assumes "rows (store w) (session_key inp) = Some r" and "Owner r = AcIdentity (CiCaller inp)"
    and "State r = StateActive" and "ContainerName r = ''''"
    and "Caller (Owner r) \<noteq> ''''" and "Tenant (Owner r) \<noteq> ''''"
    and "CiImage (effective_input m inp) \<noteq> ''''" and "CiImage (effective_input m inp) \<in> set (allowedImages m)"
    and "\<not> e_ctx E (step w)" and "e_emit E (Suc (step w)) = None"
  shows "\<exists>w'. Manager_Create memStore_ops E m inp w = (Inr r, w') \<and> ContainerName r = ''''
    \<and> store w' = store w"
proof -
  let ?i = "effective_input m inp"
  let ?ow = "AcIdentity (CiCaller inp)"
  define st where "st = (new_createState ?i)\<lparr>cs_owner := ?ow, cs_handle := mintHandle (SessionHint inp),
    cs_key := DeriveKey ?ow (mintHandle (SessionHint inp))\<rparr>"
  have "SessionHint ?i = SessionHint inp" by (simp add: effective_input_def)
  then have rs: "stageResolveIdentity (new_createState ?i) w = (Inr None, st, w)"
    using assms(2,5,6) by (simp add: stageResolveIdentity_def Let_def DeriveKey_not_zero st_def)
  have "Custodian_LookupForCaller memStore_ops (e_ctx E) (cs_key st) (cs_owner st) w = (Inr r, w\<lparr>step := Suc (step w)\<rparr>)"
    using assms(1,2,9) by (simp add: Custodian_LookupForCaller_def st_read_def memStore_ops_def
        memStore_LookupSession_def st_def session_key_def)
  then obtain st' w' where guard: "tryResume memStore_ops E m (new_createState ?i) w = (Inr (Some r), st', w')"
    using rs assms(3,10) by (simp add: tryResume_def emit_def ext_call_def)
  then have "Manager_Create memStore_ops E m inp w = (Inr r, w')"
    using assms(7,8) by (simp add: Manager_Create_def effective_input_def [symmetric] Let_def)
  then show ?thesis using assms(4) tryResume_store [OF guard] by blast
qed

theorem resume_returns_unbound_witness:
  "let k = session_key demo_input;
       m1 = snd (memStore_Commit False k owner_ta (snd (memStore_Reserve 0 False k owner_ta NewInMemory)))
   in \<exists>r w'. Manager_Create memStore_ops demo_env demo_manager demo_input (demo_cworld m1) = (Inr r, w')
        \<and> ContainerName r = ''''"
proof -
  define k where "k = session_key demo_input"
  define m1 where "m1 = snd (memStore_Commit False k owner_ta (snd (memStore_Reserve 0 False k owner_ta NewInMemory)))"
  define r where "r = (reserved_row k owner_ta)\<lparr>State := StateActive\<rparr>"
  have row: "rows (store (demo_cworld m1)) (session_key demo_input) = Some r"
    by (simp add: m1_def r_def k_def [symmetric] memStore_mutator_defs NewInMemory_def Let_def)
  have "\<exists>w'. Manager_Create memStore_ops demo_env demo_manager demo_input (demo_cworld m1) = (Inr r, w')
      \<and> ContainerName r = '''' \<and> store w' = store (demo_cworld m1)"
    by (rule resume_returns_unbound [OF row])
      (simp_all add: r_def demo_input_def demo_env_def demo_manager_def NewManager_def effective_input_def)
  then show ?thesis unfolding Let_def k_def [symmetric] m1_def [symmetric] by blast
qed

end
