(* ===== verification/Lifecycle_Ops.thy ===== *)
theory Lifecycle_Ops
  imports Lifecycle_Create
begin

text \<open>
  The rest of \<open>internal/lifecycle\<close>: destroy, status, exec, the boot reconciler with its three
  directions, and the idle reaper. Destroy and exec are recorded before they act; the reclaiming
  operations are the other places where a concurrency slot is given back, and the lemmas say when
  exactly.
\<close>

subsection \<open>Destroy, status, exec\<close>

definition destroyGrace :: int where "destroyGrace = 5"

definition caller_record :: "Action \<Rightarrow> AuthenticatedCaller \<Rightarrow> RKey \<Rightarrow> Record" where
  "caller_record a caller key =
     \<lparr>RcAction = a, RcChannel = Channel_String (AcChannel caller), RcKey = RKey_String key,
      RcCaller = Caller (AcIdentity caller), RcTenant = Tenant (AcIdentity caller), RcReason = '''',
      RcRevokeOutcome = '''', RcWarmHit = False\<rparr>"

definition row_sandbox :: "Manager \<Rightarrow> SessionRow \<Rightarrow> Sandbox" where
  "row_sandbox m row =
     \<lparr>SbName = Key row, RuntimeID = ContainerName row,
      SbEgress = \<lparr>EbName = Key row, EbFilesystemID = Key row\<rparr>,
      SbTier = mgr_tier m, SbAlive = False, SbSockDirRoot = SockDirRoot row\<rparr>"

definition sockDirFor :: "env \<Rightarrow> SessionRow \<Rightarrow> string" where
  "sockDirFor E row =
     (if SockDirRoot row \<noteq> '''' then e_sockdir_under E (SockDirRoot row) else e_sockdir E (Key row))"

definition Manager_ReleaseConcurrency :: "'s Store \<Rightarrow> env \<Rightarrow> Identity \<Rightarrow> 's cworld \<Rightarrow> err option \<times> 's cworld" where
  "Manager_ReleaseConcurrency S E tenant = Gate_RefundConcurrent S E tenant"

definition advise_shutdown :: "env \<Rightarrow> Manager \<Rightarrow> SessionRow \<Rightarrow> 's cworld \<Rightarrow> 's cworld" where
  "advise_shutdown E m row w =
     (if dialer_wired m \<and> ContainerName row \<noteq> ''''
      then snd (ext_call (e_shutdown E) (EvShutdown (sockDirFor E row) (ContainerName row)) w) else w)"

definition destroy_teardown ::
  "'s Store \<Rightarrow> env \<Rightarrow> Manager \<Rightarrow> RKey \<Rightarrow> Identity \<Rightarrow> SessionRow \<Rightarrow> 's cworld \<Rightarrow> err option \<times> 's cworld" where
  "destroy_teardown S E m key owner row w =
     (case ext_call (e_graceful E) (EvGracefulStop (row_sandbox m row) destroyGrace)
         (advise_shutdown E m row w) of (a, w1) \<Rightarrow>
      if kill_failed a then (a, w1)
      else case Custodian_Release S (e_ctx E) key owner w1 of
        (Inl e, w2) \<Rightarrow> (Some e, w2)
      | (Inr released, w2) \<Rightarrow>
          (case (if State row \<noteq> StateReleased \<and> ContainerName released \<noteq> ''''
                 then Manager_ReleaseConcurrency S E owner w2 else (None, w2)) of
             (Some e, w3) \<Rightarrow> (Some e, w3)
           | (None, w3) \<Rightarrow>
               (None, publishEvent E m StateReleased (RKey_String key) (note_metric m IncDestroy w3))))"

definition Manager_Destroy ::
  "'s Store \<Rightarrow> env \<Rightarrow> Manager \<Rightarrow> AuthenticatedCaller \<Rightarrow> string \<Rightarrow> 's cworld \<Rightarrow> err option \<times> 's cworld" where
  "Manager_Destroy S E m caller sessionHint w =
     (let owner = AcIdentity caller in
      if Caller owner = '''' \<or> Tenant owner = '''' then (Some [ErrUnattested], w)
      else let key = DeriveKey owner (mintHandle sessionHint) in
      case Custodian_LookupForCaller S (e_ctx E) key owner w of
        (Inl e, w1) \<Rightarrow> (Some e, w1)
      | (Inr row, w1) \<Rightarrow>
          (case emit E (caller_record ActionDestroy caller key) w1 of
             (Some e, w2) \<Rightarrow> (Some e, w2)
           | (None, w2) \<Rightarrow> destroy_teardown S E m key owner row w2))"

definition Manager_Status ::
  "'s Store \<Rightarrow> env \<Rightarrow> AuthenticatedCaller \<Rightarrow> string \<Rightarrow> 's cworld \<Rightarrow> SessionRow result \<times> 's cworld" where
  "Manager_Status S E caller sessionHint w =
     (let owner = AcIdentity caller in
      if Caller owner = '''' \<or> Tenant owner = '''' then (Inl [ErrUnattested], w)
      else Custodian_LookupForCaller S (e_ctx E) (DeriveKey owner (mintHandle sessionHint)) owner w)"

definition Manager_Exec ::
  "'s Store \<Rightarrow> env \<Rightarrow> Manager \<Rightarrow> AuthenticatedCaller \<Rightarrow> string \<Rightarrow> ExecRequest \<Rightarrow> 's cworld \<Rightarrow> ExecResult result \<times> 's cworld" where
  "Manager_Exec S E m caller sessionHint req w =
     (let owner = AcIdentity caller in
      if Caller owner = '''' \<or> Tenant owner = '''' then (Inl [ErrUnattested], w)
      else if \<not> exec_wired m then (Inl [Dynamic ''lifecycle: exec channel not available''], w)
      else if Argv req = [] \<or> hd (Argv req) = '''' then (Inl [Dynamic ''lifecycle: exec: empty argv''], w)
      else let key = DeriveKey owner (mintHandle sessionHint) in
      case Custodian_LookupForCaller S (e_ctx E) key owner w of
        (Inl e, w1) \<Rightarrow> (Inl e, w1)
      | (Inr row, w1) \<Rightarrow>
      (case emit E (caller_record ActionExec caller key) w1 of
        (Some e, w2) \<Rightarrow> (Inl e, w2)
      | (None, w2) \<Rightarrow>
      (case ext_call (e_exec E) (EvExec (sockDirFor E row) (ContainerName row) req) w2 of
        (Inl e, w3) \<Rightarrow> (Inl e, w3)
      | (Inr res, w3) \<Rightarrow> (Inr res, snd (Custodian_TouchActivity S (e_ctx E) key (e_now E (step w3)) w3)))))"

subsection \<open>The boot reconciler\<close>

definition system_record :: "SessionRow \<Rightarrow> string \<Rightarrow> Record" where
  "system_record row why =
     \<lparr>RcAction = ActionReconcileReclaim, RcChannel = '''', RcKey = Key row, RcCaller = Caller (Owner row),
      RcTenant = Tenant (Owner row), RcReason = why, RcRevokeOutcome = '''', RcWarmHit = False\<rparr>"

definition release_and_refund ::
  "'s Store \<Rightarrow> env \<Rightarrow> Manager \<Rightarrow> SessionRow \<Rightarrow> 's cworld \<Rightarrow> err option \<times> 's cworld" where
  "release_and_refund S E m row w =
     (case Custodian_ReleaseRow S (e_ctx E) row w of
        (Inl e, w1) \<Rightarrow> (Some e, w1)
      | (Inr _, w1) \<Rightarrow>
          (case Manager_ReleaseConcurrency S E (Owner row) w1 of
             (Some e, w2) \<Rightarrow> (Some e, note_metric m IncQuotaRefundFailed w2)
           | (None, w2) \<Rightarrow> (None, w2)))"

definition reclaimOrphanRow ::
  "'s Store \<Rightarrow> env \<Rightarrow> Manager \<Rightarrow> SessionRow \<Rightarrow> 's cworld \<Rightarrow> err option \<times> 's cworld" where
  "reclaimOrphanRow S E m row w =
     (case emit E (system_record row
         ''substrate-lost: boot reconciler found no live container for a non-terminal session row'') w of
        (Some e, w1) \<Rightarrow> (Some e, w1)
      | (None, w1) \<Rightarrow> release_and_refund S E m row w1)"

text \<open>The map built from the listing: the last entry of a name wins, an absent name reads as zero.\<close>

definition live_by_name :: "Sandbox list \<Rightarrow> string \<Rightarrow> Sandbox" where
  "live_by_name live n = (case find (\<lambda>sb. SbName sb = n) (rev live) of None \<Rightarrow> zero_sandbox | Some sb \<Rightarrow> sb)"

definition backed :: "Sandbox list \<Rightarrow> SessionRow \<Rightarrow> bool" where
  "backed live row \<longleftrightarrow> (let sb = live_by_name live (Key row) in SbName sb \<noteq> '''' \<and> SbAlive sb)"

fun kill_orphans ::
  "env \<Rightarrow> string list \<Rightarrow> Sandbox list \<Rightarrow> 's cworld \<Rightarrow> err option \<times> 's cworld" where
  "kill_orphans E keys [] w = (None, w)"
| "kill_orphans E keys (sb # sbs) w =
     (if SbName sb \<in> set keys \<and> SbAlive sb then kill_orphans E keys sbs w
      else case force_kill E sb w of (a, w1) \<Rightarrow>
        if kill_failed a then (a, w1) else kill_orphans E keys sbs w1)"

fun reclaim_rows ::
  "'s Store \<Rightarrow> env \<Rightarrow> Manager \<Rightarrow> Sandbox list \<Rightarrow> SessionRow list \<Rightarrow> 's cworld \<Rightarrow> err option \<times> 's cworld" where
  "reclaim_rows S E m live [] w = (None, w)"
| "reclaim_rows S E m live (row # rs) w =
     (if backed live row then reclaim_rows S E m live rs w
      else case reclaimOrphanRow S E m row w of
        (Some e, w1) \<Rightarrow> (Some e, w1)
      | (None, w1) \<Rightarrow> reclaim_rows S E m live rs w1)"

definition live_count :: "Sandbox list \<Rightarrow> SessionRow list \<Rightarrow> Identity \<Rightarrow> int" where
  "live_count live rs owner =
     int (length (filter (\<lambda>row. Owner row = owner \<and> State row = StateActive \<and> backed live row) rs))"

fun heal_cells ::
  "'s Store \<Rightarrow> env \<Rightarrow> (Identity \<Rightarrow> int) \<Rightarrow> Identity list \<Rightarrow> 's cworld \<Rightarrow> err option \<times> 's cworld" where
  "heal_cells S E count [] w = (None, w)"
| "heal_cells S E count (owner # os) w =
     (case Gate_ReconcileConcurrent S E owner (count owner) w of
        (Inl e, w1) \<Rightarrow> (Some e, w1)
      | (Inr _, w1) \<Rightarrow> heal_cells S E count os w1)"

definition Manager_Reconcile :: "'s Store \<Rightarrow> env \<Rightarrow> Manager \<Rightarrow> 's cworld \<Rightarrow> err option \<times> 's cworld" where
  "Manager_Reconcile S E m w =
     (case ext_call (e_substrate E) EvSubstrate w of
        (Inl e, w1) \<Rightarrow> (Some e, w1)
      | (Inr live, w1) \<Rightarrow>
      (case Custodian_ReservedAndActiveKeys S (e_ctx E) (e_order E (step w1)) w1 of
        (Inl e, w2) \<Rightarrow> (Some e, w2)
      | (Inr rs, w2) \<Rightarrow>
      (case kill_orphans E (map Key rs) live w2 of
        (Some e, w3) \<Rightarrow> (Some e, w3)
      | (None, w3) \<Rightarrow>
      (case reclaim_rows S E m live rs w3 of
        (Some e, w4) \<Rightarrow> (Some e, w4)
      | (None, w4) \<Rightarrow>
          heal_cells S E (live_count live rs) (filter (\<lambda>ow. ow \<in> Owner ` set rs) (e_owners E (step w4))) w4))))"

subsection \<open>The idle reaper\<close>

definition reapOne :: "'s Store \<Rightarrow> env \<Rightarrow> Manager \<Rightarrow> SessionRow \<Rightarrow> 's cworld \<Rightarrow> err option \<times> 's cworld" where
  "reapOne S E m row w =
     (case emit E (system_record row
         ''idle-reap: session idle past the idle-TTL with no exec or control activity'') w of
        (Some e, w1) \<Rightarrow> (Some e, w1)
      | (None, w1) \<Rightarrow>
          (case force_kill E (row_sandbox m row) w1 of (a, w2) \<Rightarrow>
             if kill_failed a then (a, w2) else release_and_refund S E m row w2))"

definition reap_due :: "time \<Rightarrow> duration \<Rightarrow> EnrichedSessionRow \<Rightarrow> bool" where
  "reap_due now idleTTL er \<longleftrightarrow> State (Row er) = StateActive \<and>
     (case LastActivity er of None \<Rightarrow> False | Some t \<Rightarrow> idleTTL < time_Sub now t)"

fun reap_rows ::
  "'s Store \<Rightarrow> env \<Rightarrow> Manager \<Rightarrow> time \<Rightarrow> duration \<Rightarrow> EnrichedSessionRow list \<Rightarrow> nat \<Rightarrow> 's cworld \<Rightarrow> (nat \<times> err option) \<times> 's cworld" where
  "reap_rows S E m now idleTTL [] reaped w = ((reaped, None), w)"
| "reap_rows S E m now idleTTL (er # ers) reaped w =
     (if \<not> reap_due now idleTTL er then reap_rows S E m now idleTTL ers reaped w
      else case reapOne S E m (Row er) w of
        (Some e, w1) \<Rightarrow> ((reaped, Some e), w1)
      | (None, w1) \<Rightarrow> reap_rows S E m now idleTTL ers (reaped + 1) w1)"

definition Manager_ReapIdle ::
  "'s Store \<Rightarrow> env \<Rightarrow> Manager \<Rightarrow> duration \<Rightarrow> 's cworld \<Rightarrow> (nat \<times> err option) \<times> 's cworld" where
  "Manager_ReapIdle S E m idleTTL w =
     (case Custodian_EnrichedLiveSessions S (e_ctx E) (e_order E (step w)) w of
        (Inl e, w1) \<Rightarrow> ((0, Some e), w1)
      | (Inr ers, w1) \<Rightarrow> reap_rows S E m (e_now E (step w1)) idleTTL ers 0 w1)"

text \<open>What reaping one session does to the world besides the store.\<close>

definition reap_events :: "Manager \<Rightarrow> SessionRow \<Rightarrow> err option \<Rightarrow> event list" where
  "reap_events m r a =
     [EvEmit (system_record r ''idle-reap: session idle past the idle-TTL with no exec or control activity'') None,
      EvForceKill (row_sandbox m r) a]"

subsection \<open>Rows released and slots returned\<close>

definition release_keys :: "string set \<Rightarrow> (string \<Rightarrow> SessionRow option) \<Rightarrow> string \<Rightarrow> SessionRow option" where
  "release_keys K f = (\<lambda>k. if k \<in> K then map_option (\<lambda>r. r\<lparr>State := StateReleased\<rparr>) (f k) else f k)"

lemma release_keys_empty [simp]: "release_keys {} f = f"
  by (simp add: release_keys_def)

lemma release_keys_step: "f k = Some r \<Longrightarrow> f(k \<mapsto> r\<lparr>State := StateReleased\<rparr>) = release_keys {k} f"
  by (auto simp: release_keys_def)

lemma release_keys_twice: "release_keys K (release_keys L f) = release_keys (K \<union> L) f"
  by (auto simp: release_keys_def fun_eq_iff option.map_comp comp_def)

definition refund_slot :: "(QuotaKey \<Rightarrow> 'c) \<Rightarrow> Identity \<Rightarrow> (QuotaKey \<Rightarrow> int) \<Rightarrow> QuotaKey \<Rightarrow> int" where
  "refund_slot cid ow c = cell_upd cid (conc_key ow) (max 0 (c (conc_key ow) - 1)) c"

text \<open>Slots returned one after the other, saturating at zero.\<close>

lemma refund_slots_mem:
  assumes "\<forall>q. 0 \<le> c q"
  shows "fold (refund_slot (\<lambda>q. q)) ows c (conc_key ow) = max 0 (c (conc_key ow) - int (count_list ows ow))
    \<and> (\<forall>q. Dim q \<noteq> DimConcurrentSessions \<longrightarrow> fold (refund_slot (\<lambda>q. q)) ows c q = c q)"
  using assms
proof (induction ows arbitrary: c)
  case (Cons o1 ows)
  have nn: "\<forall>q. 0 \<le> refund_slot (\<lambda>q. q) o1 c q" using Cons.prems by (simp add: refund_slot_def)
  show ?case using Cons.IH [OF nn] by (auto simp: refund_slot_def)
qed simp

lemma refund_slots_nonneg: "\<forall>q. 0 \<le> c q \<Longrightarrow> \<forall>q. 0 \<le> fold (refund_slot cid) ows c q"
  by (induction ows arbitrary: c) (simp_all add: refund_slot_def cell_upd_def)

context store_contract
begin

abbreviation nonneg :: "'s \<Rightarrow> bool" where
  "nonneg s \<equiv> \<forall>q. 0 \<le> cell s q"

text \<open>
  \<open>s'\<close> is \<open>s\<close> with the rows \<open>rs\<close> released and one slot returned for each.
\<close>

definition reclaimed_rows :: "SessionRow list \<Rightarrow> 's \<Rightarrow> 's \<Rightarrow> bool" where
  "reclaimed_rows rs s s' \<longleftrightarrow> same_posture s s' \<and> row s' = release_keys (Key ` set rs) (row s) \<and>
     cell s' = fold (refund_slot cell_id) (map Owner rs) (cell s)"

lemma reclaimed_row: "reclaimed_rows rs s s' \<Longrightarrow> row s' = release_keys (Key ` set rs) (row s)"
  and reclaimed_cell: "reclaimed_rows rs s s' \<Longrightarrow> cell s' = fold (refund_slot cell_id) (map Owner rs) (cell s)"
  by (simp_all add: reclaimed_rows_def)

lemma reclaimed_none: "inv s \<Longrightarrow> reclaimed_rows [] s s"
  by (simp add: reclaimed_rows_def)

lemma reclaimed_trans:
  "reclaimed_rows xs s s1 \<Longrightarrow> reclaimed_rows ys s1 s2 \<Longrightarrow> reclaimed_rows (xs @ ys) s s2"
  by (simp add: reclaimed_rows_def release_keys_twice image_Un Un_commute)

lemma reclaimed_nonneg: "reclaimed_rows rs s s' \<Longrightarrow> nonneg s \<Longrightarrow> nonneg s'"
  using refund_slots_nonneg by (simp add: reclaimed_rows_def)

lemma release_and_refund_ok:
  assumes "inv (store w)" and "nonneg (store w)" and "release_and_refund S E m r w = (None, w')"
  shows "reclaimed_rows [r] (store w) (store w') \<and> log w' = log w
    \<and> (\<exists>r0. row (store w) (Key r) = Some r0 \<and> Owner r0 = Owner r)"
proof -
  obtain y s1 where rel: "Release S (e_ctx E (step w)) (Key r) (Owner r) (store w) = (y, s1)" by fastforce
  define w1 where "w1 = w\<lparr>store := s1, step := Suc (step w)\<rparr>"
  obtain r' where y: "y = Inr r'" and ref: "Gate_RefundConcurrent S E (Owner r) w1 = (None, w')"
    using assms(3) rel unfolding w1_def
    by (cases y) (auto simp: release_and_refund_def Custodian_ReleaseRow_def st_call_def
        Manager_ReleaseConcurrency_def split: option.splits prod.splits)
  from release_ok [OF assms(1) rel [unfolded y]] obtain r0 where r0: "row (store w) (Key r) = Some r0" "Owner r0 = Owner r"
    and s1: "inv s1" "row s1 = (row (store w))(Key r \<mapsto> r0\<lparr>State := StateReleased\<rparr>)" "cell s1 = cell (store w)"
      "killed s1 = killed (store w)" "denied s1 = denied (store w)"
    by auto
  have i1: "inv (store w1)" and c1: "0 \<le> cell (store w1) (conc_key (Owner r))"
    using s1 assms(2) by (simp_all add: w1_def)
  have "log w' = log w1" using ref
    by (auto simp: Gate_RefundConcurrent_def st_call_def split: sum.splits prod.splits)
  moreover have "reclaimed_rows [r] (store w) (store w')"
    using refund_ok [OF i1 c1 ref] refund_frame [OF i1 ref] s1 r0(1)
    by (simp add: reclaimed_rows_def release_keys_step [symmetric] refund_slot_def w1_def)
  ultimately show ?thesis using r0 by (auto simp: w1_def)
qed

lemma reconcile_cell_ok:
  assumes "inv (store w)" and "0 \<le> cell (store w) (conc_key ow)" and "0 \<le> n" and "n \<le> int64_max"
    and "Gate_ReconcileConcurrent S E ow n w = (Inr v, w')"
  shows "same_posture (store w) (store w') \<and> log w' = log w \<and> row (store w') = row (store w)
    \<and> cell (store w') = cell_upd cell_id (conc_key ow) (min n (cell (store w) (conc_key ow))) (cell (store w))"
proof -
  let ?c = "cell (store w) (conc_key ow)"
  have range: "?c \<le> int64_max" "is_int64 (?c - n)"
    using cell_int64 [OF assms(1), of "conc_key ow"] assms(2-4) by (simp_all add: int64_min_def int64_max_def)
  obtain x where read: "ReadQuota S (e_ctx E (step w)) (conc_key ow) (store w) = x" by blast
  with assms(5) obtain cur where "x = Inr cur"
    by (cases x) (auto simp: Gate_ReconcileConcurrent_def st_read_def)
  then have x: "x = Inr ?c" using read_ok [OF assms(1)] read by metis
  show ?thesis
  proof (cases "?c - n \<le> 0")
    case True
    then have "w' = w\<lparr>step := Suc (step w)\<rparr>"
      using assms(5) read x range(2) by (simp add: Gate_ReconcileConcurrent_def st_read_def Let_def)
    moreover have "min n ?c = ?c" using True by simp
    ultimately show ?thesis using assms(1) by (simp add: cell_upd_same)
  next
    case False
    obtain y s1 where ch: "Charge S (e_ctx E (Suc (step w))) (conc_key ow) (- (?c - n)) 0 (store w) = (y, s1)"
      by fastforce
    obtain u where y: "y = Inr u" and w': "w' = w\<lparr>store := s1, step := Suc (Suc (step w))\<rparr>"
      using assms(5) read x range(2) False ch
      by (cases y) (auto simp: Gate_ReconcileConcurrent_def st_read_def st_call_def Let_def)
    have d: "- (?c - n) < 0" "int64_min \<le> - (?c - n)"
      using False range assms(3) by (simp_all add: int64_min_def int64_max_def)
    have "max 0 (?c + - (?c - n)) = min n ?c" using False assms(3) by simp
    with charge_down [OF assms(1) d assms(2) ch [unfolded y]] w' show ?thesis by simp
  qed
qed

end

subsection \<open>Destroy\<close>

definition caller_key :: "AuthenticatedCaller \<Rightarrow> string \<Rightarrow> RKey" where
  "caller_key caller hint = DeriveKey (AcIdentity caller) (mintHandle hint)"

text \<open>The four ways a destroy can go, with the calls it has made.\<close>

lemma destroy_cases:
  assumes "Manager_Destroy S E m caller hint w = (x, w')"
  obtains (refused) "x \<noteq> None" "store w' = store w" "log w' = log w"
  | (unrecorded) e where "x = Some e" "store w' = store w"
      "log w' = log w @ [EvEmit (caller_record ActionDestroy caller (caller_key caller hint)) (Some e)]"
  | (recorded) r w1 w2 where
      "Custodian_LookupForCaller S (e_ctx E) (caller_key caller hint) (AcIdentity caller) w = (Inr r, w1)"
      "store w2 = store w"
      "log w2 = log w @ [EvEmit (caller_record ActionDestroy caller (caller_key caller hint)) None]"
      "destroy_teardown S E m (caller_key caller hint) (AcIdentity caller) r w2 = (x, w')"
proof (cases "Caller (AcIdentity caller) = '''' \<or> Tenant (AcIdentity caller) = ''''")
  case True
  then show thesis using refused assms by (auto simp: Manager_Destroy_def Let_def)
next
  case False
  obtain y w1 where look: "Custodian_LookupForCaller S (e_ctx E) (caller_key caller hint) (AcIdentity caller) w = (y, w1)"
    by fastforce
  have w1: "store w1 = store w" "log w1 = log w"
    using look store_call_log_eq(4) [OF look]
    by (auto simp: Custodian_LookupForCaller_def st_read_def split: sum.splits if_splits)
  define rec where "rec = caller_record ActionDestroy caller (caller_key caller hint)"
  define w2 where "w2 = snd (emit E rec w1)"
  have em: "emit E rec w1 = (e_emit E (step w1), w2)" by (simp add: w2_def emit_def ext_call_def)
  have w2: "store w2 = store w" "log w2 = log w @ [EvEmit rec (e_emit E (step w1))]"
    using w1 by (simp_all add: w2_def emit_def frame_simps)
  show thesis
  proof (cases y)
    case (Inl e)
    then have "x = Some e \<and> w' = w1"
      using assms False look by (auto simp: Manager_Destroy_def Let_def caller_key_def)
    then show thesis using refused w1 by simp
  next
    case (Inr r)
    have "Manager_Destroy S E m caller hint w = (case e_emit E (step w1) of Some e \<Rightarrow> (Some e, w2)
        | None \<Rightarrow> destroy_teardown S E m (caller_key caller hint) (AcIdentity caller) r w2)"
      using False look [unfolded Inr] em
      by (simp add: Manager_Destroy_def Let_def caller_key_def rec_def split: option.split)
    then have run: "(case e_emit E (step w1) of Some e \<Rightarrow> (Some e, w2)
        | None \<Rightarrow> destroy_teardown S E m (caller_key caller hint) (AcIdentity caller) r w2) = (x, w')"
      using assms by simp
    show thesis
    proof (cases "e_emit E (step w1)")
      case (Some e)
      have "x = Some e" "w' = w2" using run Some by simp_all
      then show thesis using unrecorded w2 Some by (simp add: rec_def)
    next
      case None
      then show thesis using recorded [OF look [unfolded Inr]] run w2 by (simp add: rec_def)
    qed
  qed
qed

lemma advise_fields: "store (advise_shutdown E m r w) = store w"
    "\<exists>evs. log (advise_shutdown E m r w) = log w @ evs"
  by (auto simp: advise_shutdown_def frame_simps)

context store_contract
begin

text \<open>The slot is returned when the released row was live and bound, and only then.\<close>

abbreviation slot_returned :: "SessionRow \<Rightarrow> (QuotaKey \<Rightarrow> int) \<Rightarrow> QuotaKey \<Rightarrow> int" where
  "slot_returned r c \<equiv> (if State r \<noteq> StateReleased \<and> ContainerName r \<noteq> '''' then refund_slot cell_id (Owner r) c else c)"

lemma teardown_ok:
  assumes "inv (store w)" and "nonneg (store w)" and "row (store w) (RKey_String key) = Some r" and "Owner r = ow"
    and "destroy_teardown S E m key ow r w = (None, w')"
  shows "same_posture (store w) (store w')
    \<and> row (store w') = (row (store w))(RKey_String key \<mapsto> r\<lparr>State := StateReleased\<rparr>)
    \<and> cell (store w') = slot_returned r (cell (store w))
    \<and> (\<exists>a pre post. log w' = log w @ pre @ EvGracefulStop (row_sandbox m r) destroyGrace a # post \<and> \<not> kill_failed a)"
proof -
  obtain pre where pre: "log (advise_shutdown E m r w) = log w @ pre" using advise_fields(2) by blast
  define a where "a = e_graceful E (step (advise_shutdown E m r w))"
  define w4 where "w4 = snd (ext_call (e_graceful E) (EvGracefulStop (row_sandbox m r) destroyGrace) (advise_shutdown E m r w))"
  have stop: "ext_call (e_graceful E) (EvGracefulStop (row_sandbox m r) destroyGrace) (advise_shutdown E m r w) = (a, w4)"
    by (simp add: a_def w4_def ext_call_def)
  have w4: "store w4 = store w" "log w4 = log w @ pre @ [EvGracefulStop (row_sandbox m r) destroyGrace a]"
    by (simp_all add: w4_def a_def frame_simps advise_fields(1) pre)
  obtain y s5 where rel: "Release S (e_ctx E (step w4)) (RKey_String key) ow (store w) = (y, s5)" by fastforce
  define w5 where "w5 = w4\<lparr>store := s5, step := Suc (step w4)\<rparr>"
  have cr: "Custodian_Release S (e_ctx E) key ow w4 = (y, w5)"
    using rel by (simp add: Custodian_Release_def st_call_def w5_def w4(1))
  have nf: "\<not> kill_failed a"
    using assms(5) stop by (cases a) (auto simp: destroy_teardown_def split: if_splits)
  obtain r5 where y: "y = Inr r5" using assms(5) stop nf cr by (cases y) (simp_all add: destroy_teardown_def)
  obtain z w6 where ref: "(if State r \<noteq> StateReleased \<and> ContainerName r5 \<noteq> ''''
      then Manager_ReleaseConcurrency S E ow w5 else (None, w5)) = (z, w6)" by (metis surj_pair)
  have z: "z = None" and w': "w' = publishEvent E m StateReleased (RKey_String key) (note_metric m IncDestroy w6)"
    using assms(5) stop nf cr y ref by (cases z; simp add: destroy_teardown_def)+
  from release_ok [OF assms(1) rel [unfolded y]] assms(3)
  have s5: "inv s5" "row s5 = (row (store w))(RKey_String key \<mapsto> r\<lparr>State := StateReleased\<rparr>)" "cell s5 = cell (store w)"
    "killed s5 = killed (store w)" "denied s5 = denied (store w)" and r5: "r5 = r\<lparr>State := StateReleased\<rparr>"
    by auto
  have i5: "inv (store w5)" and c5: "0 \<le> cell (store w5) (conc_key ow)" using s5 assms(2) by (simp_all add: w5_def)
  have slot: "same_posture s5 (store w6) \<and> row (store w6) = row s5 \<and> log w6 = log w5 \<and> cell (store w6) = slot_returned r (cell s5)"
  proof (cases "State r \<noteq> StateReleased \<and> ContainerName r \<noteq> ''''")
    case True
    then have run: "Gate_RefundConcurrent S E ow w5 = (None, w6)"
      using ref z r5 by (simp add: Manager_ReleaseConcurrency_def)
    then have "log w6 = log w5" by (auto simp: Gate_RefundConcurrent_def st_call_def split: sum.splits prod.splits)
    then show ?thesis
      using refund_ok [OF i5 c5 run] refund_frame [OF i5 run] True assms(4) by (simp add: w5_def refund_slot_def)
  qed (use ref r5 s5 in \<open>auto simp: w5_def\<close>)
  obtain post where "log w' = log w6 @ post"
    using publish_quiet [of w6 E m StateReleased "RKey_String key" m IncDestroy] w' by (auto simp: after_calls_def)
  then have "log w' = log w @ pre @ EvGracefulStop (row_sandbox m r) destroyGrace a # post"
    using slot w4(2) by (simp add: w5_def)
  moreover have "store w' = store w6" by (simp add: w' publish_fields note_metric_store)
  ultimately show ?thesis using slot s5 nf by auto
qed

lemma destroy_ok:
  assumes "inv (store w)" and "nonneg (store w)" and "Manager_Destroy S E m caller hint w = (None, w')"
  defines "k \<equiv> RKey_String (caller_key caller hint)"
  shows "\<exists>r a pre post. row (store w) k = Some r \<and> Owner r = AcIdentity caller \<and> same_posture (store w) (store w')
    \<and> row (store w') = (row (store w))(k \<mapsto> r\<lparr>State := StateReleased\<rparr>)
    \<and> cell (store w') = slot_returned r (cell (store w))
    \<and> log w' = log w @ EvEmit (caller_record ActionDestroy caller (caller_key caller hint)) None
        # pre @ EvGracefulStop (row_sandbox m r) destroyGrace a # post \<and> \<not> kill_failed a"
  using assms(3)
proof (cases rule: destroy_cases)
  case (recorded r w1 w2)
  have r: "row (store w) k = Some r" "Owner r = AcIdentity caller"
    using lookup_for_caller_ok [OF assms(1) recorded(1)] by (simp_all add: k_def)
  have "inv (store w2)" "nonneg (store w2)" "row (store w2) k = Some r" using assms(1,2) r recorded(2) by simp_all
  from teardown_ok [OF this(1,2) this(3) [unfolded k_def] r(2) recorded(4)] r recorded(2,3)
  show ?thesis unfolding k_def [symmetric] by auto
qed simp_all

end

subsection \<open>The sweeps\<close>

lemma kill_orphans_ok:
  "kill_orphans E keys live w = (None, w') \<Longrightarrow> store w' = store w \<and>
     (\<exists>evs. log w' = log w @ evs \<and>
       (\<forall>ev. ev \<in> set evs \<longrightarrow> (\<exists>sb a. ev = EvForceKill sb a \<and> sb \<in> set live \<and> \<not> kill_failed a
                \<and> \<not> (SbName sb \<in> set keys \<and> SbAlive sb))) \<and>
       (\<forall>sb \<in> set live. SbName sb \<in> set keys \<and> SbAlive sb \<or> (\<exists>a. EvForceKill sb a \<in> set evs)))"
proof (induction live arbitrary: w)
  case (Cons sb sbs)
  show ?case
  proof (cases "SbName sb \<in> set keys \<and> SbAlive sb")
    case True
    then have "kill_orphans E keys sbs w = (None, w')" using Cons.prems by simp
    from Cons.IH [OF this] obtain evs where "store w' = store w" "log w' = log w @ evs"
      "\<forall>ev. ev \<in> set evs \<longrightarrow> (\<exists>sb a. ev = EvForceKill sb a \<and> sb \<in> set sbs \<and> \<not> kill_failed a
                \<and> \<not> (SbName sb \<in> set keys \<and> SbAlive sb))"
      "\<forall>sb \<in> set sbs. SbName sb \<in> set keys \<and> SbAlive sb \<or> (\<exists>a. EvForceKill sb a \<in> set evs)"
      by blast
    then show ?thesis using True by (intro conjI exI [of _ evs]) auto
  next
    case False
    define a where "a = e_forcekill E (step w)"
    define w1 where "w1 = snd (force_kill E sb w)"
    have kill: "force_kill E sb w = (a, w1)" by (simp add: a_def w1_def force_kill_def ext_call_def)
    have w1: "store w1 = store w" "log w1 = log w @ [EvForceKill sb a]"
      by (simp_all add: w1_def a_def force_kill_def frame_simps)
    have nf: "\<not> kill_failed a" and rest: "kill_orphans E keys sbs w1 = (None, w')"
      using Cons.prems False kill by (cases a; simp split: if_splits)+
    from Cons.IH [OF rest] obtain evs where "store w' = store w1" "log w' = log w1 @ evs"
      "\<forall>ev. ev \<in> set evs \<longrightarrow> (\<exists>sb a. ev = EvForceKill sb a \<and> sb \<in> set sbs \<and> \<not> kill_failed a
                \<and> \<not> (SbName sb \<in> set keys \<and> SbAlive sb))"
      "\<forall>sb \<in> set sbs. SbName sb \<in> set keys \<and> SbAlive sb \<or> (\<exists>a. EvForceKill sb a \<in> set evs)"
      by blast
    then show ?thesis using w1 nf False by (intro conjI exI [of _ "EvForceKill sb a # evs"]) auto
  qed
qed simp

text \<open>The records and kills of a sweep: only system records, accepted, and force-kills.\<close>

fun sweep_event :: "event \<Rightarrow> bool" where
  "sweep_event (EvEmit rec a) \<longleftrightarrow> RcAction rec = ActionReconcileReclaim \<and> a = None"
| "sweep_event (EvForceKill _ _) \<longleftrightarrow> True"
| "sweep_event _ \<longleftrightarrow> False"

lemma system_record_action [simp]: "RcAction (system_record r why) = ActionReconcileReclaim" "RcKey (system_record r why) = Key r"
  by (simp_all add: system_record_def)

context store_contract
begin

lemma reclaim_one_ok:
  assumes "inv (store w)" and "nonneg (store w)" and "reclaimOrphanRow S E m r w = (None, w')"
  shows "reclaimed_rows [r] (store w) (store w') \<and>
    (\<exists>rec. log w' = log w @ [EvEmit rec None] \<and> RcAction rec = ActionReconcileReclaim \<and> RcKey rec = Key r)"
proof -
  define why where "why = ''substrate-lost: boot reconciler found no live container for a non-terminal session row''"
  define w1 where "w1 = snd (emit E (system_record r why) w)"
  have em: "emit E (system_record r why) w = (e_emit E (step w), w1)" by (simp add: w1_def emit_def ext_call_def)
  have w1: "store w1 = store w" "log w1 = log w @ [EvEmit (system_record r why) (e_emit E (step w))]"
    by (simp_all add: w1_def emit_def frame_simps)
  have ok: "e_emit E (step w) = None" and rest: "release_and_refund S E m r w1 = (None, w')"
    using assms(3) em by (cases "e_emit E (step w)"; simp add: reclaimOrphanRow_def why_def)+
  have "inv (store w1)" "nonneg (store w1)" using assms(1,2) w1(1) by simp_all
  from release_and_refund_ok [OF this rest] w1 ok show ?thesis by auto
qed

lemma reclaim_rows_ok:
  assumes "inv (store w)" and "nonneg (store w)" and "reclaim_rows S E m live rs w = (None, w')"
  shows "reclaimed_rows (filter (\<lambda>r. \<not> backed live r) rs) (store w) (store w') \<and>
    (\<exists>evs. log w' = log w @ evs \<and> list_all sweep_event evs \<and> (\<forall>sb a. EvForceKill sb a \<notin> set evs))"
  using assms
proof (induction rs arbitrary: w)
  case Nil
  then show ?case by (simp add: reclaimed_none)
next
  case (Cons r rs)
  show ?case
  proof (cases "backed live r")
    case True
    then show ?thesis using Cons by simp
  next
    case False
    obtain a w1 where one: "reclaimOrphanRow S E m r w = (a, w1)" by fastforce
    have a: "a = None" and rest: "reclaim_rows S E m live rs w1 = (None, w')"
      using Cons.prems(3) False one by (cases a; simp)+
    note r1 = reclaim_one_ok [OF Cons.prems(1,2) one [unfolded a]]
    have "inv (store w1)" "nonneg (store w1)"
      using r1 reclaimed_nonneg [OF conjunct1 [OF r1] Cons.prems(2)] by (simp_all add: reclaimed_rows_def)
    note ih = Cons.IH [OF this rest]
    have "reclaimed_rows (r # filter (\<lambda>r. \<not> backed live r) rs) (store w) (store w')"
      using reclaimed_trans [OF conjunct1 [OF r1] conjunct1 [OF ih]] by simp
    moreover obtain rec evs where "log w' = log w @ EvEmit rec None # evs" "RcAction rec = ActionReconcileReclaim"
      "list_all sweep_event evs" "\<forall>sb a. EvForceKill sb a \<notin> set evs"
      using r1 ih by auto
    ultimately show ?thesis using False by (intro conjI exI [of _ "EvEmit rec None # evs"]) simp_all
  qed
qed

lemma reap_one_ok:
  assumes "inv (store w)" and "nonneg (store w)" and "reapOne S E m r w = (None, w')"
  shows "reclaimed_rows [r] (store w) (store w') \<and> (\<exists>a. log w' = log w @ reap_events m r a \<and> \<not> kill_failed a)"
proof -
  define why where "why = ''idle-reap: session idle past the idle-TTL with no exec or control activity''"
  define w1 where "w1 = snd (emit E (system_record r why) w)"
  define a where "a = e_forcekill E (step w1)"
  define w2 where "w2 = snd (force_kill E (row_sandbox m r) w1)"
  have em: "emit E (system_record r why) w = (e_emit E (step w), w1)" by (simp add: w1_def emit_def ext_call_def)
  have kill: "force_kill E (row_sandbox m r) w1 = (a, w2)" by (simp add: a_def w2_def force_kill_def ext_call_def)
  have w2: "store w2 = store w" "log w2 = log w @ [EvEmit (system_record r why) (e_emit E (step w)), EvForceKill (row_sandbox m r) a]"
    by (simp_all add: w2_def w1_def a_def emit_def force_kill_def frame_simps)
  have ok: "e_emit E (step w) = None"
    using assms(3) em by (cases "e_emit E (step w)") (simp_all add: reapOne_def why_def)
  then have nf: "\<not> kill_failed a" and rest: "release_and_refund S E m r w2 = (None, w')"
    using assms(3) em kill by (cases a; simp add: reapOne_def why_def split: if_splits)+
  have "inv (store w2)" "nonneg (store w2)" using assms(1,2) w2(1) by simp_all
  from release_and_refund_ok [OF this rest] w2 ok nf show ?thesis by (auto simp: reap_events_def why_def)
qed

lemma reap_rows_ok:
  assumes "inv (store w)" and "nonneg (store w)" and "reap_rows S E m now ttl ers n w = ((n', None), w')"
  shows "reclaimed_rows (map Row (filter (reap_due now ttl) ers)) (store w) (store w')
    \<and> n' = n + length (filter (reap_due now ttl) ers) \<and>
    (\<exists>as. length as = length (filter (reap_due now ttl) ers) \<and> list_all (\<lambda>a. \<not> kill_failed a) as
      \<and> log w' = log w @ concat (map2 (reap_events m) (map Row (filter (reap_due now ttl) ers)) as))"
  using assms
proof (induction ers arbitrary: n w)
  case Nil
  then show ?case by (simp add: reclaimed_none)
next
  case (Cons er ers)
  show ?case
  proof (cases "reap_due now ttl er")
    case False
    then show ?thesis using Cons by simp
  next
    case True
    obtain a w1 where one: "reapOne S E m (Row er) w = (a, w1)" by fastforce
    have a: "a = None" and rest: "reap_rows S E m now ttl ers (n + 1) w1 = ((n', None), w')"
      using Cons.prems(3) True one by (cases a; simp)+
    note r1 = reap_one_ok [OF Cons.prems(1,2) one [unfolded a]]
    have "inv (store w1)" "nonneg (store w1)"
      using r1 reclaimed_nonneg [OF conjunct1 [OF r1] Cons.prems(2)] by (simp_all add: reclaimed_rows_def)
    note ih = Cons.IH [OF this rest]
    have "reclaimed_rows (Row er # map Row (filter (reap_due now ttl) ers)) (store w) (store w')"
      using reclaimed_trans [OF conjunct1 [OF r1] conjunct1 [OF ih]] by simp
    moreover obtain a as where "\<not> kill_failed a" "length as = length (filter (reap_due now ttl) ers)"
      "list_all (\<lambda>a. \<not> kill_failed a) as"
      "log w' = log w @ reap_events m (Row er) a @ concat (map2 (reap_events m) (map Row (filter (reap_due now ttl) ers)) as)"
      using r1 ih by auto
    ultimately show ?thesis using True ih by (intro conjI exI [of _ "a # as"]) auto
  qed
qed

text \<open>The heal changes nothing but concurrency cells, and leaves none of the visited ones above its count.\<close>

lemma heal_cells_ok:
  assumes "inv (store w)" and "nonneg (store w)" and "\<forall>ow. 0 \<le> cnt ow \<and> cnt ow \<le> int64_max"
    and "heal_cells S E cnt ows w = (None, w')"
  shows "same_posture (store w) (store w') \<and> log w' = log w \<and> row (store w') = row (store w) \<and>
    cell (store w') = fold (\<lambda>ow c. cell_upd cell_id (conc_key ow) (min (cnt ow) (c (conc_key ow))) c) ows (cell (store w))"
  using assms
proof (induction ows arbitrary: w)
  case (Cons ow ows)
  obtain y w1 where one: "Gate_ReconcileConcurrent S E ow (cnt ow) w = (y, w1)" by fastforce
  obtain v where y: "y = Inr v" and rest: "heal_cells S E cnt ows w1 = (None, w')"
    using Cons.prems(4) one by (cases y) simp_all
  have "0 \<le> cell (store w) (conc_key ow)" "0 \<le> cnt ow" "cnt ow \<le> int64_max" using Cons.prems(2,3) by blast+
  note h = reconcile_cell_ok [OF Cons.prems(1) this one [unfolded y]]
  have "inv (store w1)" using h by simp
  moreover have "nonneg (store w1)" using h Cons.prems(2,3) by (simp add: cell_upd_def)
  ultimately show ?case using Cons.IH [OF _ _ Cons.prems(3) rest] h by simp
qed simp

end

definition heal_slot :: "(QuotaKey \<Rightarrow> 'c) \<Rightarrow> (Identity \<Rightarrow> int) \<Rightarrow> Identity \<Rightarrow> (QuotaKey \<Rightarrow> int) \<Rightarrow> QuotaKey \<Rightarrow> int" where
  "heal_slot cid cnt ow c = cell_upd cid (conc_key ow) (min (cnt ow) (c (conc_key ow))) c"

lemma heal_slots_mem:
  "(ow \<in> set ows \<longrightarrow> fold (heal_slot (\<lambda>q. q) cnt) ows c (conc_key ow) \<le> cnt ow)
   \<and> fold (heal_slot (\<lambda>q. q) cnt) ows c (conc_key ow) \<le> c (conc_key ow)
   \<and> (ow \<notin> set ows \<longrightarrow> fold (heal_slot (\<lambda>q. q) cnt) ows c (conc_key ow) = c (conc_key ow))"
proof (induction ows arbitrary: c)
  case (Cons o1 ows)
  have "heal_slot (\<lambda>q. q) cnt o1 c (conc_key ow) = (if ow = o1 then min (cnt ow) (c (conc_key ow)) else c (conc_key ow))"
    by (auto simp: heal_slot_def)
  then show ?case using Cons.IH [of "heal_slot (\<lambda>q. q) cnt o1 c"] by (auto split: if_splits)
qed simp

context store_contract
begin

lemma reconcile_ok:
  assumes "inv (store w)" and "nonneg (store w)" and "Manager_Reconcile S E m w = (None, w')"
    and "e_substrate E (step w) = Inr live"
    and "\<And>ls rs ow. LiveLister S = Some ls \<Longrightarrow>
      ls (e_order E (Suc (step w))) (e_ctx E (Suc (step w))) (store w) = Inr rs \<Longrightarrow> live_count live rs ow \<le> int64_max"
  obtains ls rs s4 n kills evs where "LiveLister S = Some ls"
    "ls (e_order E (Suc (step w))) (e_ctx E (Suc (step w))) (store w) = Inr rs"
    "reclaimed_rows (filter (\<lambda>r. \<not> backed live r) rs) (store w) s4" "same_posture s4 (store w')"
    "row (store w') = row s4"
    "cell (store w') = fold (heal_slot cell_id (live_count live rs)) (filter (\<lambda>ow. ow \<in> Owner ` set rs) (e_owners E n)) (cell s4)"
    "log w' = log w @ EvSubstrate (Inr live) # kills @ evs"
    "list_all sweep_event evs" "\<And>sb a. EvForceKill sb a \<notin> set evs"
    "\<And>ev. ev \<in> set kills \<Longrightarrow> \<exists>sb a. ev = EvForceKill sb a \<and> sb \<in> set live \<and> \<not> kill_failed a
        \<and> \<not> (SbName sb \<in> Key ` set rs \<and> SbAlive sb)"
    "\<And>sb. sb \<in> set live \<Longrightarrow> SbName sb \<in> Key ` set rs \<and> SbAlive sb \<or> (\<exists>a. EvForceKill sb a \<in> set kills)"
proof -
  define w1 where "w1 = snd (ext_call (e_substrate E) EvSubstrate w)"
  have sub: "ext_call (e_substrate E) EvSubstrate w = (Inr live, w1)"
    using assms(4) by (simp add: w1_def ext_call_def)
  have w1: "store w1 = store w" "step w1 = Suc (step w)" "log w1 = log w @ [EvSubstrate (Inr live)]"
    using assms(4) by (simp_all add: w1_def frame_simps)
  obtain y w2 where en: "Custodian_ReservedAndActiveKeys S (e_ctx E) (e_order E (step w1)) w1 = (y, w2)" by fastforce
  obtain rs where y: "y = Inr rs"
    using assms(3) sub en by (cases y) (simp_all add: Manager_Reconcile_def)
  then obtain ls where ls: "LiveLister S = Some ls"
    "ls (e_order E (Suc (step w))) (e_ctx E (Suc (step w))) (store w) = Inr rs" and w2: "w2 = w1\<lparr>step := Suc (step w1)\<rparr>"
    using en w1 by (auto simp: Custodian_ReservedAndActiveKeys_def st_read_def split: option.splits)
  obtain a w3 where kill: "kill_orphans E (map Key rs) live w2 = (a, w3)" by fastforce
  have a: "a = None" using assms(3) sub en y kill by (cases a) (simp_all add: Manager_Reconcile_def)
  obtain b w4 where rec: "reclaim_rows S E m live rs w3 = (b, w4)" by fastforce
  have b: "b = None" using assms(3) sub en y kill a rec by (cases b) (simp_all add: Manager_Reconcile_def)
  have heal: "heal_cells S E (live_count live rs) (filter (\<lambda>ow. ow \<in> Owner ` set rs) (e_owners E (step w4))) w4 = (None, w')"
    using assms(3) sub en y kill a rec b by (simp add: Manager_Reconcile_def)
  obtain kills where k: "store w3 = store w2" "log w3 = log w2 @ kills"
    "\<forall>ev. ev \<in> set kills \<longrightarrow> (\<exists>sb a. ev = EvForceKill sb a \<and> sb \<in> set live \<and> \<not> kill_failed a
                \<and> \<not> (SbName sb \<in> set (map Key rs) \<and> SbAlive sb))"
    "\<forall>sb \<in> set live. SbName sb \<in> set (map Key rs) \<and> SbAlive sb \<or> (\<exists>a. EvForceKill sb a \<in> set kills)"
    using kill_orphans_ok [OF kill [unfolded a]] by blast
  have "inv (store w3)" "nonneg (store w3)" using assms(1,2) k(1) w1(1) w2 by simp_all
  note r4 = reclaim_rows_ok [OF this rec [unfolded b]]
  then obtain evs where e: "log w4 = log w3 @ evs" "list_all sweep_event evs" "\<forall>sb a. EvForceKill sb a \<notin> set evs" by blast
  have s3: "store w3 = store w" using k(1) w1(1) w2 by simp
  have r4': "reclaimed_rows (filter (\<lambda>r. \<not> backed live r) rs) (store w) (store w4)" using r4 s3 by simp
  have i4: "inv (store w4)" "nonneg (store w4)"
    using r4' reclaimed_nonneg [OF r4' assms(2)] by (simp_all add: reclaimed_rows_def)
  have "\<forall>ow. 0 \<le> live_count live rs ow \<and> live_count live rs ow \<le> int64_max"
    using assms(5) [OF ls] by (simp add: live_count_def)
  note h = heal_cells_ok [OF i4 this heal, folded heal_slot_def]
  show thesis
    by (rule that [OF ls r4', of "step w4" kills evs]) (use h k(2,3,4) e w1 w2 in \<open>auto simp: set_map\<close>)
qed

end

subsection \<open>The operations over the in-memory store\<close>

lemma mem_live_rows:
  assumes "mem_inv s" and "LiveLister memStore_ops = Some ls" and "ls ord c s = Inr rs"
    and "distinct ord" and "dom (rows s) \<subseteq> set ord"
  shows "r \<in> set rs \<longleftrightarrow> rows s (Key r) = Some r \<and> is_live r" and "distinct (map Key rs)"
    and "length rs \<le> card (dom (rows s))"
proof -
  have run: "memStore_LiveSessions ord c s = Inr rs" using assms(2,3) by (simp add: memStore_ops_def)
  show mem: "r \<in> set rs \<longleftrightarrow> rows s (Key r) = Some r \<and> is_live r" for r
    using live_sessions_spec(1) [OF run assms(1), of r] assms(5) by auto
  show dist: "distinct (map Key rs)" using live_sessions_spec(2) [OF run assms(1,4)] .
  have "Key ` set rs \<subseteq> dom (rows s)" using mem by auto
  then have "card (Key ` set rs) \<le> card (dom (rows s))"
    using mem.row_finite [OF assms(1)] by (rule card_mono [rotated])
  then show "length rs \<le> card (dom (rows s))" using distinct_card [OF dist] by simp
qed

lemma live_count_card:
  assumes "distinct (map Key rs)"
  shows "live_count live rs ow = int (card (Key ` {r \<in> set rs. Owner r = ow \<and> State r = StateActive \<and> backed live r}))"
proof -
  let ?P = "\<lambda>r. Owner r = ow \<and> State r = StateActive \<and> backed live r"
  have "distinct (map Key (filter ?P rs))" using assms by (rule distinct_map_filter)
  from distinct_card [OF this] show ?thesis by (simp add: live_count_def)
qed

lemma mem_live_bound:
  assumes "mem_inv s" and "int (card (dom (rows s))) \<le> int64_max" and "distinct ord" and "dom (rows s) \<subseteq> set ord"
    and "LiveLister memStore_ops = Some ls" and "ls ord c s = Inr rs"
  shows "live_count live rs ow \<le> int64_max"
proof -
  have "live_count live rs ow \<le> int (length rs)" by (simp add: live_count_def)
  then show ?thesis using mem_live_rows(3) [OF assms(1,5,6,3,4)] assms(2) by linarith
qed

lemma released_live:
  "release_keys K f k = Some r \<and> is_live r \<longleftrightarrow> f k = Some r \<and> is_live r \<and> k \<notin> K"
  by (auto simp: release_keys_def is_live_def split: if_splits)

text \<open>Examples: a created session and its destruction, a lost container, an idle session.\<close>

abbreviation demo_sweep_env :: env where
  "demo_sweep_env \<equiv> demo_env\<lparr>e_order := \<lambda>_. [''k1''], e_owners := \<lambda>_. [owner_ta], e_now := \<lambda>_. 100\<rparr>"

abbreviation demo_row :: SessionRow where
  "demo_row \<equiv> \<lparr>Key = ''k1'', Owner = owner_ta, State = StateActive, ContainerName = ''c1'', SockDirRoot = ''''\<rparr>"

lemma demo_active_quota: "quota demo_active = Map.empty" "quota_at demo_active q = 0"
  by (simp_all add: demo_active_def demo_bound_def memStore_mutator_defs NewInMemory_def Let_def quota_at_def)

lemmas sweep_defs = ext_call_def emit_def force_kill_def st_call_def st_read_def memStore_ops_def
  Custodian_ReservedAndActiveKeys_def Custodian_EnrichedLiveSessions_def Custodian_ReleaseRow_def
  memStore_LiveSessions_def memStore_LiveSessionsEnriched_def memStore_Release_def memStore_Charge_def
  memStore_ReadQuota_def List.map_filter_def release_and_refund_def Manager_ReleaseConcurrency_def
  Gate_RefundConcurrent_def Gate_ReconcileConcurrent_def reclaimOrphanRow_def reapOne_def demo_env_def Let_def

lemma demo_reconcile_runs:
  "fst (Manager_Reconcile memStore_ops demo_sweep_env demo_manager (demo_cworld demo_active)) = None"
  by (simp add: Manager_Reconcile_def sweep_defs demo_active_rows backed_def live_by_name_def live_count_def
      demo_active_quota quota_at_def)

definition demo_idle :: memStore where
  "demo_idle = snd (memStore_TouchActivity False ''k1'' 1 demo_active)"

lemma demo_idle_facts:
  "rows demo_idle = [''k1'' \<mapsto> demo_row]" "mem_inv demo_idle" "quota_at demo_idle q = 0"
  "LastActivity (enrich_row demo_idle ''k1'' r) = Some 1"
proof -
  show "mem_inv demo_idle"
    using demo_active_inv demo_active_rows unfolding demo_idle_def
    by (auto simp: memStore_TouchActivity_def Let_def intro: mem_inv_cong split: option.splits)
qed (simp_all add: demo_idle_def memStore_TouchActivity_def demo_active_rows demo_active_quota quota_at_def
      enrich_row_def enrichment_at_def Let_def)

text \<open>
  C3: The boot sweep makes rows, containers and counters agree. When \<open>Reconcile\<close> reports success,
  the live rows are exactly the live rows it found with a running container, unchanged; every
  listed container that is not running for a live row has been force-killed, and no other has; and
  the counter of every owner that had a live row is at most the number of its ACTIVE sessions.
  The listing order must visit every key of the row map once and every owner.
\<close>

theorem reconcile_agreement:
  assumes "mem_inv (store w)" and "\<forall>q. 0 \<le> quota_at (store w) q" and "int (card (dom (rows (store w)))) \<le> int64_max"
    and "e_substrate E (step w) = Inr live" and "Manager_Reconcile memStore_ops E m w = (None, w')"
    and "distinct (e_order E (Suc (step w)))" and "dom (rows (store w)) \<subseteq> set (e_order E (Suc (step w)))"
    and "\<forall>n. Owner ` ran (rows (store w)) \<subseteq> set (e_owners E n)"
  shows "(\<forall>k r. rows (store w') k = Some r \<and> is_live r \<longleftrightarrow> rows (store w) k = Some r \<and> is_live r \<and> backed live r)
    \<and> (\<exists>evs. log w' = log w @ evs \<and> (\<forall>sb. (\<exists>a. EvForceKill sb a \<in> set evs) \<longleftrightarrow> sb \<in> set live \<and>
          \<not> (SbAlive sb \<and> (\<exists>r. rows (store w) (SbName sb) = Some r \<and> is_live r))))
    \<and> (\<forall>ow r. r \<in> ran (rows (store w)) \<longrightarrow> is_live r \<longrightarrow> Owner r = ow \<longrightarrow>
          quota_at (store w') (conc_key ow) \<le>
            int (card {k. \<exists>r. rows (store w') k = Some r \<and> Owner r = ow \<and> State r = StateActive}))"
proof -
  obtain ls rs s4 n kills evs where ls: "LiveLister memStore_ops = Some ls"
    "ls (e_order E (Suc (step w))) (e_ctx E (Suc (step w))) (store w) = Inr rs"
    and r4: "mem.reclaimed_rows (filter (\<lambda>r. \<not> backed live r) rs) (store w) s4"
    and fin: "rows (store w') = rows s4" "quota_at (store w') =
      fold (heal_slot (\<lambda>q. q) (live_count live rs)) (filter (\<lambda>ow. ow \<in> Owner ` set rs) (e_owners E n)) (quota_at s4)"
    and log: "log w' = log w @ EvSubstrate (Inr live) # kills @ evs" "\<And>sb a. EvForceKill sb a \<notin> set evs"
    and kills: "\<And>ev. ev \<in> set kills \<Longrightarrow> \<exists>sb a. ev = EvForceKill sb a \<and> sb \<in> set live \<and> \<not> kill_failed a
        \<and> \<not> (SbName sb \<in> Key ` set rs \<and> SbAlive sb)"
      "\<And>sb. sb \<in> set live \<Longrightarrow> SbName sb \<in> Key ` set rs \<and> SbAlive sb \<or> (\<exists>a. EvForceKill sb a \<in> set kills)"
    by (rule mem.reconcile_ok [OF assms(1,2,5,4) mem_live_bound [OF assms(1,3,6,7)]]) blast+
  note rsm = mem_live_rows [OF assms(1) ls assms(6,7)]
  have at: "r \<in> set rs \<and> Key r = k \<longleftrightarrow> rows (store w) k = Some r \<and> is_live r" for r k
    using rsm(1) [of r] mem.row_key [OF assms(1), of k r] by auto
  have keys: "k \<in> Key ` set rs \<longleftrightarrow> (\<exists>r. rows (store w) k = Some r \<and> is_live r)" for k
    unfolding at [symmetric] by auto
  have gone: "k \<in> Key ` set (filter (\<lambda>r. \<not> backed live r) rs) \<longleftrightarrow> \<not> backed live r"
    if "rows (store w) k = Some r" "is_live r" for k r
  proof -
    have "k \<in> Key ` set (filter (\<lambda>r. \<not> backed live r) rs) \<longleftrightarrow> (\<exists>r'. (r' \<in> set rs \<and> Key r' = k) \<and> \<not> backed live r')"
      by auto
    then show ?thesis unfolding at using that by simp
  qed
  have "rows (store w') = release_keys (Key ` set (filter (\<lambda>r. \<not> backed live r) rs)) (rows (store w))"
    using mem.reclaimed_row [OF r4] fin(1) by simp
  then have rows: "rows (store w') k = Some r \<and> is_live r \<longleftrightarrow> rows (store w) k = Some r \<and> is_live r \<and> backed live r" for k r
    using gone [of k r] released_live [of _ "rows (store w)" k r] by auto
  have act: "{k. \<exists>r. rows (store w') k = Some r \<and> Owner r = ow \<and> State r = StateActive}
      = Key ` {r \<in> set rs. Owner r = ow \<and> State r = StateActive \<and> backed live r}" for ow
  proof -
    have "(\<exists>r. rows (store w') k = Some r \<and> Owner r = ow \<and> State r = StateActive) \<longleftrightarrow>
        (\<exists>r. (r \<in> set rs \<and> Key r = k) \<and> Owner r = ow \<and> State r = StateActive \<and> backed live r)" for k
      using rows [of k] unfolding at by (auto simp: is_live_def)
    then show ?thesis by auto
  qed
  have "quota_at (store w') (conc_key ow) \<le> int (card {k. \<exists>r. rows (store w') k = Some r \<and> Owner r = ow \<and> State r = StateActive})"
    if r: "r \<in> ran (rows (store w))" "is_live r" "Owner r = ow" for ow r
  proof -
    obtain k where "rows (store w) k = Some r" using r(1) by (auto simp: ran_def)
    then have "r \<in> set rs" using at [of r k] r(2) by blast
    then have "ow \<in> set (filter (\<lambda>ow. ow \<in> Owner ` set rs) (e_owners E n))"
      using assms(8) r by auto
    then show ?thesis
      unfolding act live_count_card [OF rsm(2), symmetric] fin(2)
      using heal_slots_mem [of ow _ "live_count live rs" "quota_at s4"] by blast
  qed
  moreover have "(\<exists>a. EvForceKill sb a \<in> set (EvSubstrate (Inr live) # kills @ evs)) \<longleftrightarrow> sb \<in> set live \<and>
      \<not> (SbAlive sb \<and> (\<exists>r. rows (store w) (SbName sb) = Some r \<and> is_live r))" for sb
    using kills log(2) keys [of "SbName sb"] by auto
  ultimately show ?thesis using rows log(1) by blast
qed

theorem reconcile_agreement_witness:
  "\<exists>w'. Manager_Reconcile memStore_ops demo_sweep_env demo_manager (demo_cworld demo_active) = (None, w')
     \<and> (\<forall>k r. rows (store w') k = Some r \<longrightarrow> \<not> is_live r)"
proof -
  obtain w' where run: "Manager_Reconcile memStore_ops demo_sweep_env demo_manager (demo_cworld demo_active) = (None, w')"
    using demo_reconcile_runs by (metis prod.collapse)
  have "backed [] r = False" for r by (simp add: backed_def live_by_name_def)
  with reconcile_agreement [of "demo_cworld demo_active" demo_sweep_env "[]" demo_manager w'] run demo_active_inv
  have "\<forall>k r. rows (store w') k = Some r \<longrightarrow> \<not> is_live r"
    by (simp add: demo_active_quota demo_active_rows demo_env_def int64_max_def ran_def)
  with run show ?thesis by blast
qed

text \<open>
  Drift of an owner without a live row survives the sweep. The comment on the third direction
  says that a restart restores the counters regardless of past refunds; only owners that still own
  a live row are visited, so the counter of an owner whose sessions are all gone keeps whatever it
  drifted to.
\<close>

theorem reconcile_misses_rowless_owner:
  assumes "mem_inv (store w)" and "\<forall>q. 0 \<le> quota_at (store w) q" and "int (card (dom (rows (store w)))) \<le> int64_max"
    and "e_substrate E (step w) = Inr live" and "Manager_Reconcile memStore_ops E m w = (None, w')"
    and "distinct (e_order E (Suc (step w)))" and "dom (rows (store w)) \<subseteq> set (e_order E (Suc (step w)))"
    and "\<forall>r \<in> ran (rows (store w)). Owner r = ow \<longrightarrow> \<not> is_live r"
  shows "quota_at (store w') (conc_key ow) = quota_at (store w) (conc_key ow)"
proof -
  obtain ls rs s4 n where ls: "LiveLister memStore_ops = Some ls"
    "ls (e_order E (Suc (step w))) (e_ctx E (Suc (step w))) (store w) = Inr rs"
    and r4: "mem.reclaimed_rows (filter (\<lambda>r. \<not> backed live r) rs) (store w) s4"
    and fin: "quota_at (store w') =
      fold (heal_slot (\<lambda>q. q) (live_count live rs)) (filter (\<lambda>ow. ow \<in> Owner ` set rs) (e_owners E n)) (quota_at s4)"
    by (rule mem.reconcile_ok [OF assms(1,2,5,4) mem_live_bound [OF assms(1,3,6,7)]]) blast+
  have none: "ow \<notin> Owner ` set rs"
    using mem_live_rows(1) [OF assms(1) ls assms(6,7)] assms(8) by (auto simp: ran_def)
  then have "quota_at (store w') (conc_key ow) = quota_at s4 (conc_key ow)"
    unfolding fin using heal_slots_mem [of ow _ "live_count live rs" "quota_at s4"] by simp
  moreover have "count_list (map Owner (filter (\<lambda>r. \<not> backed live r) rs)) ow = 0"
    using none by (auto simp: count_list_0_iff)
  then have "quota_at s4 (conc_key ow) = max 0 (quota_at (store w) (conc_key ow))"
    unfolding mem.reclaimed_cell [OF r4] using refund_slots_mem [OF assms(2)] by simp
  ultimately show ?thesis using assms(2) by simp
qed

theorem reconcile_misses_rowless_owner_witness:
  "let m = NewInMemory\<lparr>quota := [conc_key owner_ta \<mapsto> 7]\<rparr> in
   \<exists>w'. Manager_Reconcile memStore_ops demo_env demo_manager (demo_cworld m) = (None, w')
     \<and> quota_at (store w') (conc_key owner_ta) = 7"
proof -
  define m where "m = NewInMemory\<lparr>quota := [conc_key owner_ta \<mapsto> 7]\<rparr>"
  have rows: "rows m = Map.empty" and q: "quota_at m (conc_key owner_ta) = 7" "\<forall>p. 0 \<le> quota_at m p"
    by (simp_all add: m_def NewInMemory_def quota_at_def)
  have inv: "mem_inv m"
    using mem_inv_set_cell [OF mem_inv_new, of 7 "conc_key owner_ta"]
    by (simp add: m_def NewInMemory_def int64_min_def int64_max_def)
  have "fst (Manager_Reconcile memStore_ops demo_env demo_manager (demo_cworld m)) = None"
    by (simp add: Manager_Reconcile_def sweep_defs rows)
  then obtain w' where run: "Manager_Reconcile memStore_ops demo_env demo_manager (demo_cworld m) = (None, w')"
    by (metis prod.collapse)
  with reconcile_misses_rowless_owner [of "demo_cworld m" demo_env "[]" demo_manager w' owner_ta] inv q rows
  show ?thesis by (simp add: m_def [symmetric] demo_env_def int64_max_def Let_def)
qed

subsection \<open>Reaping and destroying\<close>

text \<open>
  The sessions that are ACTIVE, have a recorded activity, and whose last activity lies further back
  than the time to live, on the unbounded time line.
\<close>

definition idle_at :: "memStore \<Rightarrow> time \<Rightarrow> duration \<Rightarrow> string \<Rightarrow> bool" where
  "idle_at s now ttl k \<longleftrightarrow> (\<exists>r en. rows s k = Some r \<and> State r = StateActive \<and> enrichment s k = Some en \<and>
     lastActivity en \<noteq> 0 \<and> now - lastActivity en > ttl)"

text \<open>Below the largest duration the saturation of \<open>Time.Sub\<close> cannot be seen.\<close>

lemma saturated_past: "int64_min \<le> ttl \<Longrightarrow> ttl < int64_max \<Longrightarrow> ttl < time_Sub now t \<longleftrightarrow> ttl < now - t"
  by (auto simp: time_Sub_def)

lemma idle_due:
  assumes "int64_min \<le> ttl" and "ttl < int64_max"
  shows "idle_at s now ttl k \<longleftrightarrow> (\<exists>r. rows s k = Some r \<and> reap_due now ttl (enrich_row s k r))"
  by (auto simp: idle_at_def reap_due_def enrich_row_def enrichment_at_def Let_def
      saturated_past [OF assms] split: option.splits if_splits)

text \<open>
  C15: The reaper reclaims exactly the idle sessions. When \<open>ReapIdle\<close> reports success with a count,
  let the due sessions be the ACTIVE ones whose last recorded activity is more than the time to live
  before the clock reading of the sweep. All that was done, in order, is for each due session once:
  the accepted record of its reclaim, then the force-kill of its container, which did not fail. The
  due rows are released and every other row is untouched, the count is their number, and each owner
  got one slot back for each of its reclaimed sessions, never below zero. The time to live is below
  the largest duration, and the iteration visits every key of the row map once.
\<close>

theorem reap_idle_exact:
  assumes "mem_inv (store w)" and "\<forall>q. 0 \<le> quota_at (store w) q" and "int64_min \<le> ttl" and "ttl < int64_max"
    and "Manager_ReapIdle memStore_ops E m ttl w = ((n, None), w')"
    and "distinct (e_order E (step w))" and "dom (rows (store w)) \<subseteq> set (e_order E (step w))"
  shows "let due = {k. idle_at (store w) (e_now E (Suc (step w))) ttl k} in
    rows (store w') = release_keys due (rows (store w)) \<and> n = card due
    \<and> (\<forall>ow. quota_at (store w') (conc_key ow) =
          max 0 (quota_at (store w) (conc_key ow) - int (card {k \<in> due. \<exists>r. rows (store w) k = Some r \<and> Owner r = ow})))
    \<and> (\<exists>rs as. distinct (map Key rs) \<and> set rs = {r. \<exists>k \<in> due. rows (store w) k = Some r}
        \<and> length as = length rs \<and> list_all (\<lambda>a. \<not> kill_failed a) as
        \<and> log w' = log w @ concat (map2 (reap_events m) rs as))"
proof -
  define now where "now = e_now E (Suc (step w))"
  define due where "due = {k. idle_at (store w) now ttl k}"
  obtain y where en: "memStore_LiveSessionsEnriched (e_order E (step w)) (e_ctx E (step w)) (store w) = y" by blast
  obtain ers where y: "y = Inr ers"
    and run: "reap_rows memStore_ops E m now ttl ers 0 (w\<lparr>step := Suc (step w)\<rparr>) = ((n, None), w')"
    using assms(5) en by (cases y) (simp_all add: Manager_ReapIdle_def Custodian_EnrichedLiveSessions_def
        memStore_ops_def st_read_def now_def)
  note spec = live_enriched_spec [OF en [unfolded y] assms(1)]
  have "mem_inv (store (w\<lparr>step := Suc (step w)\<rparr>))" "\<forall>q. 0 \<le> quota_at (store (w\<lparr>step := Suc (step w)\<rparr>)) q"
    using assms(1,2) by simp_all
  note ok = mem.reap_rows_ok [OF this run]
  define hit where "hit = filter (reap_due now ttl) ers"
  note due_eq = due_def idle_due [OF assms(3,4)]
  have mem: "er \<in> set hit \<longleftrightarrow> (\<exists>k r. er = enrich_row (store w) k r \<and> rows (store w) k = Some r \<and> reap_due now ttl er)" for er
  proof -
    have "Key r \<in> set (e_order E (step w)) \<and> Key r = k" if "rows (store w) k = Some r" for k r
      using that assms(7) mem.row_key [OF assms(1) that] by auto
    moreover have "reap_due now ttl (enrich_row (store w) k r) \<Longrightarrow> is_live r" for k r
      by (auto simp: reap_due_def enrich_row_def Let_def is_live_def)
    ultimately show ?thesis unfolding hit_def set_filter mem_Collect_eq spec(1) by metis
  qed
  have row_of: "Row (enrich_row s k r) = r" for s k r by (simp add: enrich_row_def Let_def)
  have keys: "(\<lambda>er. Key (Row er)) ` set hit = due"
    using mem mem.row_key [OF assms(1)] by (auto simp: due_eq row_of image_iff) (metis row_of)+
  have dist: "distinct (map (\<lambda>er. Key (Row er)) hit)"
    unfolding hit_def using spec(2) [OF assms(6)] by (rule distinct_map_filter)
  have "rows (store w') = release_keys due (rows (store w))"
    using mem.reclaimed_row [OF conjunct1 [OF ok]] keys by (simp add: hit_def [symmetric] image_image)
  moreover have "n = card due"
    using ok distinct_card [OF dist] keys by (simp add: hit_def [symmetric] image_image)
  moreover have "quota_at (store w') (conc_key ow) =
          max 0 (quota_at (store w) (conc_key ow) - int (card {k \<in> due. \<exists>r. rows (store w) k = Some r \<and> Owner r = ow}))" for ow
  proof -
    let ?mine = "filter (\<lambda>er. Owner (Row er) = ow) hit"
    have "count_list (map Owner (map Row hit)) ow = length ?mine"
      by (induction hit) auto
    also have "\<dots> = card ((\<lambda>er. Key (Row er)) ` set ?mine)"
      using distinct_card [OF distinct_map_filter [OF dist, of "\<lambda>er. Owner (Row er) = ow"]] by simp
    also have "(\<lambda>er. Key (Row er)) ` set ?mine = {k \<in> due. \<exists>r. rows (store w) k = Some r \<and> Owner r = ow}"
      using mem mem.row_key [OF assms(1)] by (auto simp: due_eq row_of image_iff) (metis row_of)+
    finally show ?thesis
      using mem.reclaimed_cell [OF conjunct1 [OF ok]] refund_slots_mem [OF assms(2)] by (simp add: hit_def [symmetric])
  qed
  moreover have "Row ` set hit = {r. \<exists>k \<in> due. rows (store w) k = Some r}"
    using mem by (auto simp: due_eq row_of image_iff) (metis row_of)+
  moreover obtain as where "length as = length hit" "list_all (\<lambda>a. \<not> kill_failed a) as"
      "log w' = log w @ concat (map2 (reap_events m) (map Row hit) as)"
    using ok by (auto simp: hit_def)
  ultimately show ?thesis unfolding due_def [symmetric] now_def [symmetric] Let_def
    using dist by (intro conjI allI exI [of _ "map Row hit"] exI [of _ as]) (simp_all add: comp_def)
qed

theorem reap_idle_exact_witness:
  "\<exists>w' a. Manager_ReapIdle memStore_ops demo_sweep_env demo_manager 50 (demo_cworld demo_idle) = ((1, None), w')
     \<and> rows (store w') ''k1'' = Some (demo_row\<lparr>State := StateReleased\<rparr>) \<and> log w' = reap_events demo_manager demo_row a"
proof -
  have row: "Row (enrich_row demo_idle ''k1'' demo_row) = demo_row" by (simp add: enrich_row_def Let_def)
  have due: "reap_due 100 50 (enrich_row demo_idle ''k1'' demo_row)"
    by (simp add: reap_due_def demo_idle_facts(4) time_Sub_def int64_min_def int64_max_def row)
  have "fst (Manager_ReapIdle memStore_ops demo_sweep_env demo_manager 50 (demo_cworld demo_idle)) = (1, None)"
    using due by (simp add: Manager_ReapIdle_def sweep_defs demo_idle_facts(1) row)
  then obtain w' where run: "Manager_ReapIdle memStore_ops demo_sweep_env demo_manager 50 (demo_cworld demo_idle) = ((1, None), w')"
    by (metis prod.collapse)
  have idle: "idle_at demo_idle 100 50 k \<longleftrightarrow> k = ''k1''" for k
    using due by (subst idle_due) (simp_all add: demo_idle_facts(1) int64_min_def int64_max_def)
  have due_rows: "{r. \<exists>k. idle_at demo_idle 100 50 k \<and> rows demo_idle k = Some r} = {demo_row}"
    by (simp add: idle demo_idle_facts(1))
  note reap = reap_idle_exact [of "demo_cworld demo_idle" 50 demo_sweep_env demo_manager 1 w', unfolded Let_def]
  have pre: "mem_inv (store (demo_cworld demo_idle))" "\<forall>q. 0 \<le> quota_at (store (demo_cworld demo_idle)) q"
    "int64_min \<le> 50" "50 < int64_max" "distinct (e_order demo_sweep_env (step (demo_cworld demo_idle)))"
    "dom (rows (store (demo_cworld demo_idle))) \<subseteq> set (e_order demo_sweep_env (step (demo_cworld demo_idle)))"
    using demo_idle_facts(2) by (simp_all add: demo_idle_facts(1,3) demo_env_def int64_min_def int64_max_def)
  note d = reap [OF pre(1-4) run pre(5,6)]
  have now: "e_now demo_sweep_env (Suc (step (demo_cworld demo_idle))) = 100" by (simp add: demo_env_def)
  from d obtain rs as where rs: "distinct (map Key rs)" "set rs = {demo_row}" "length as = length rs"
      "log w' = concat (map2 (reap_events demo_manager) rs as)"
    unfolding now by (auto simp: due_rows)
  then have "rs = [demo_row]"
    by (cases rs) (auto simp: subset_singleton_iff)
  then obtain a where "log w' = reap_events demo_manager demo_row a" using rs(3,4) by (cases as) auto
  moreover have "rows (store w') ''k1'' = Some (demo_row\<lparr>State := StateReleased\<rparr>)"
    using d unfolding now by (simp add: release_keys_def idle demo_idle_facts(1))
  ultimately show ?thesis using run by blast
qed

text \<open>
  C16: A destroy that reports success acted on the caller's own row, after its record was accepted and
  the container was stopped. The row is RELEASED, no other row and no posture has changed, and the
  owner's concurrency counter has gone down by one exactly when the row had been live and bound:
  a repeated destroy, or one that hits a create before its bind, returns no slot.
\<close>

theorem destroy_exact:
  assumes "mem_inv (store w)" and "\<forall>q. 0 \<le> quota_at (store w) q"
    and "Manager_Destroy memStore_ops E m caller hint w = (None, w')"
  shows "let k = RKey_String (caller_key caller hint) in
    \<exists>r a pre post. rows (store w) k = Some r \<and> Owner r = AcIdentity caller
    \<and> rows (store w') = (rows (store w))(k \<mapsto> r\<lparr>State := StateReleased\<rparr>)
    \<and> mem_killed (store w') = mem_killed (store w) \<and> mem_denied (store w') = mem_denied (store w)
    \<and> quota_at (store w') = (let n = quota_at (store w); c = conc_key (AcIdentity caller) in
        if State r \<noteq> StateReleased \<and> ContainerName r \<noteq> '''' then n(c := max 0 (n c - 1)) else n)
    \<and> log w' = log w @ EvEmit (caller_record ActionDestroy caller (caller_key caller hint)) None
        # pre @ EvGracefulStop (row_sandbox m r) destroyGrace a # post \<and> \<not> kill_failed a"
proof -
  obtain r a pre post where "rows (store w) (RKey_String (caller_key caller hint)) = Some r"
    "Owner r = AcIdentity caller"
    "mem_killed (store w') = mem_killed (store w)" "mem_denied (store w') = mem_denied (store w)"
    "rows (store w') = (rows (store w))(RKey_String (caller_key caller hint) \<mapsto> r\<lparr>State := StateReleased\<rparr>)"
    "quota_at (store w') = mem.slot_returned r (quota_at (store w))"
    "log w' = log w @ EvEmit (caller_record ActionDestroy caller (caller_key caller hint)) None
        # pre @ EvGracefulStop (row_sandbox m r) destroyGrace a # post" "\<not> kill_failed a"
    using mem.destroy_ok [OF assms] by (elim exE conjE) blast
  then show ?thesis unfolding Let_def
    by (intro exI [of _ r] exI [of _ a] exI [of _ pre] exI [of _ post] conjI) (simp_all add: refund_slot_def)
qed

lemma demo_destroy_runs:
  assumes "rows (store w) (session_key demo_input) = Some r" and "Owner r = owner_ta"
  shows "fst (Manager_Destroy memStore_ops demo_env demo_manager demo_caller ''chat'' w) = None"
  using assms
  by (simp add: Manager_Destroy_def destroy_teardown_def Custodian_LookupForCaller_def sweep_defs memStore_LookupSession_def
      session_key_def demo_input_def advise_shutdown_def demo_manager_def NewManager_def Custodian_Release_def)

lemma demo_created:
  obtains r w1 where "demo_create (Inr demo_sandbox) = (Inr r, w1)" "mem_inv (store w1)"
    "\<forall>q. 0 \<le> quota_at (store w1) q" "rows (store w1) (session_key demo_input) = Some r" "Owner r = owner_ta"
    "store w1 \<noteq> NewInMemory"
proof -
  obtain r w1 where run: "demo_create (Inr demo_sandbox) = (Inr r, w1)"
    using demo_create_succeeds by (metis sum.collapse(2) prod.collapse)
  note c = mem.create_success [OF demo_create_pre run]
  have r: "rows (store w1) (session_key demo_input) = Some r" "Owner r = owner_ta"
    using c by (simp_all add: demo_input_def)
  then have new: "store w1 \<noteq> NewInMemory" by (auto simp: NewInMemory_def)
  then have "mem_inv (store w1)" and lim: "mem.within_limits demo_manager NewInMemory (Owner r) (store w1)"
    using c by (metis world.select_convs(1))+
  moreover have "\<forall>q. 0 \<le> quota_at (store w1) q"
  proof -
    have zero: "quota_at NewInMemory q = 0" for q by (simp add: quota_at_def NewInMemory_def)
    show ?thesis using lim unfolding mem.within_limits_def by (auto simp: zero)
  qed
  ultimately show thesis using that run r new by blast
qed

theorem destroy_exact_witness:
  "\<exists>w' r. Manager_Destroy memStore_ops demo_env demo_manager demo_caller ''chat'' (snd (demo_create (Inr demo_sandbox))) = (None, w')
     \<and> rows (store w') (RKey_String (caller_key demo_caller ''chat'')) = Some r \<and> State r = StateReleased"
proof -
  obtain r w1 where c: "demo_create (Inr demo_sandbox) = (Inr r, w1)" "mem_inv (store w1)"
    "\<forall>q. 0 \<le> quota_at (store w1) q" "rows (store w1) (session_key demo_input) = Some r" "Owner r = owner_ta"
    by (rule demo_created)
  obtain w' where run: "Manager_Destroy memStore_ops demo_env demo_manager demo_caller ''chat'' w1 = (None, w')"
    using demo_destroy_runs [OF c(4,5)] by (metis prod.collapse)
  from destroy_exact [OF c(2,3) run] have "\<exists>r. rows (store w') (RKey_String (caller_key demo_caller ''chat'')) = Some r
      \<and> State r = StateReleased"
    unfolding Let_def by auto
  with run c(1) show ?thesis by auto
qed

text \<open>
  C24: Create and destroy are inverse on the books. A session that was newly created and is then
  destroyed leaves every counter other than the create-rate window where it was, in particular the
  owner's concurrency counter, and its row a tombstone; all other rows are as before the create.
\<close>

theorem create_destroy_roundtrip:
  assumes "mem_inv (store w)" and "cells_in_range (store w)" and "\<forall>n. \<not> e_bg E n"
    and "Manager_Create memStore_ops E m inp w = (Inr r, w1)" and "store w1 \<noteq> store w"
    and "Manager_Destroy memStore_ops E' m' (CiCaller inp) (SessionHint inp) w1 = (None, w2)"
  shows "(\<forall>q. Dim q \<noteq> DimCallerCreateRate \<longrightarrow> quota_at (store w2) q = quota_at (store w) q)
    \<and> rows (store w2) = (rows (store w))(session_key inp \<mapsto> r\<lparr>State := StateReleased\<rparr>)
    \<and> mem_killed (store w2) = mem_killed (store w) \<and> mem_denied (store w2) = mem_denied (store w)"
proof -
  note c = mem.create_success [OF assms(1-4)]
  have key: "RKey_String (caller_key (CiCaller inp) (SessionHint inp)) = session_key inp"
    by (simp add: caller_key_def session_key_def)
  from c assms(5) obtain t where inv1: "mem_inv (store w1)"
    and r: "rows (store w1) = (rows (store w))(session_key inp \<mapsto> r)" "Owner r = AcIdentity (CiCaller inp)"
      "State r = StateActive" "ContainerName r \<noteq> ''''"
    and p: "mem_killed (store w1) = mem_killed (store w)" "mem_denied (store w1) = mem_denied (store w)"
    and q: "quota_at (store w1) = mem.charged_cells (Owner r) t (store w)"
    unfolding mem.within_limits_def by blast
  have nn: "\<forall>q. 0 \<le> quota_at (store w1) q" unfolding q using assms(2) by simp
  obtain r1 where r1: "rows (store w1) (session_key inp) = Some r1"
    and d: "rows (store w2) = (rows (store w1))(session_key inp \<mapsto> r1\<lparr>State := StateReleased\<rparr>)"
      "mem_killed (store w2) = mem_killed (store w1)" "mem_denied (store w2) = mem_denied (store w1)"
      "quota_at (store w2) = mem.slot_returned r1 (quota_at (store w1))"
    using mem.destroy_ok [OF inv1 nn assms(6)] unfolding key by blast
  have "r1 = r" using r1 r(1) by simp
  then have q2: "quota_at (store w2) = refund_slot (\<lambda>q. q) (Owner r) (quota_at (store w1))" using d(4) r(3,4) by simp
  have "quota_at (store w2) v = quota_at (store w) v" if "Dim v \<noteq> DimCallerCreateRate" for v
    unfolding q2 q using that assms(2) by (auto simp: refund_slot_def)
  then show ?thesis using d p r(1) \<open>r1 = r\<close> by simp
qed

theorem create_destroy_roundtrip_witness:
  "\<exists>w'. Manager_Destroy memStore_ops demo_env demo_manager demo_caller ''chat'' (snd (demo_create (Inr demo_sandbox))) = (None, w')
     \<and> quota_at (store w') (conc_key owner_ta) = quota_at NewInMemory (conc_key owner_ta)"
proof -
  obtain r w1 where c: "demo_create (Inr demo_sandbox) = (Inr r, w1)" "mem_inv (store w1)"
    "\<forall>q. 0 \<le> quota_at (store w1) q" "rows (store w1) (session_key demo_input) = Some r" "Owner r = owner_ta"
    "store w1 \<noteq> NewInMemory"
    by (rule demo_created)
  obtain w' where run: "Manager_Destroy memStore_ops demo_env demo_manager demo_caller ''chat'' w1 = (None, w')"
    using demo_destroy_runs [OF c(4,5)] by (metis prod.collapse)
  have "Manager_Destroy memStore_ops demo_env demo_manager (CiCaller demo_input) (SessionHint demo_input) w1 = (None, w')"
    using run by (simp add: demo_input_def)
  from create_destroy_roundtrip [OF demo_create_pre c(1) _ this] c(6) run c(1) show ?thesis by simp
qed

text \<open>
  A stale reap pays twice. The reaper works from a listing; when the row it reaches has been
  destroyed and its slot returned in the meantime, the release is a no-op and the refund is not:
  the owner's counter goes down again. The comment on the function says a re-run never credits twice.
\<close>

theorem stale_reap_refunds_again:
  assumes "mem_inv (store w)" and "\<forall>q. 0 \<le> quota_at (store w) q" and "1 \<le> quota_at (store w) (conc_key (Owner r))"
    and "rows (store w) (Key r) = Some r0" and "State r0 = StateReleased"
    and "reapOne memStore_ops E m r w = (None, w')"
  shows "rows (store w') = rows (store w)
    \<and> quota_at (store w') (conc_key (Owner r)) = quota_at (store w) (conc_key (Owner r)) - 1"
proof -
  note ok = conjunct1 [OF mem.reap_one_ok [OF assms(1,2,6)]]
  have "rows (store w') = release_keys {Key r} (rows (store w))" using mem.reclaimed_row [OF ok] by simp
  then have "rows (store w') = rows (store w)"
    using assms(4,5) by (auto simp: release_keys_def fun_eq_iff)
  then show ?thesis using mem.reclaimed_cell [OF ok] assms(3) by (simp add: refund_slot_def)
qed

theorem stale_reap_refunds_again_witness:
  "let m = (snd (memStore_Release False ''k1'' owner_ta demo_active))\<lparr>quota := [conc_key owner_ta \<mapsto> 1]\<rparr> in
   \<exists>w'. reapOne memStore_ops demo_env demo_manager demo_row (demo_cworld m) = (None, w')
     \<and> quota_at (store w') (conc_key owner_ta) = 0"
proof -
  define m0 where "m0 = snd (memStore_Release False ''k1'' owner_ta demo_active)"
  define m where "m = m0\<lparr>quota := [conc_key owner_ta \<mapsto> 1]\<rparr>"
  have rows: "rows m ''k1'' = Some (demo_row\<lparr>State := StateReleased\<rparr>)"
    by (simp add: m_def m0_def memStore_Release_def demo_active_rows Let_def)
  have q0: "quota m0 = Map.empty" by (simp add: m0_def memStore_Release_def demo_active_rows demo_active_quota Let_def)
  have "mem_step demo_active m0"
    unfolding m0_def by (rule st_release) (rule prod.collapse [symmetric])
  then have "mem_inv m0" using mem_step_inv demo_active_inv by blast
  then have inv: "mem_inv m" using mem_inv_set_cell [of m0 1 "conc_key owner_ta"] q0
    by (simp add: m_def int64_min_def int64_max_def)
  have q: "\<forall>p. 0 \<le> quota_at m p" "quota_at m (conc_key owner_ta) = 1" by (simp_all add: m_def quota_at_def)
  have "fst (reapOne memStore_ops demo_env demo_manager demo_row (demo_cworld m)) = None"
    using rows by (simp add: sweep_defs)
  then obtain w' where run: "reapOne memStore_ops demo_env demo_manager demo_row (demo_cworld m) = (None, w')"
    by (metis prod.collapse)
  with stale_reap_refunds_again [of "demo_cworld m" demo_row "demo_row\<lparr>State := StateReleased\<rparr>" demo_env demo_manager w']
    inv q rows show ?thesis by (simp add: m_def [symmetric] m0_def [symmetric] Let_def)
qed

end
