(* ===== verification/Create_Kill.thy ===== *)
theory Create_Kill
  imports Lifecycle_Create
begin

text \<open>
  A revoke that arrives while a create is running. The create is taken one stage at a time, as the
  loop of \<open>Manager.Create\<close> in \<open>internal/lifecycle/lifecycle.go\<close> runs it; between two stages the
  kill-switch engine of \<open>internal/killswitch/killswitch.go\<close> acts on the same store.
\<close>

subsection \<open>A create in flight\<close>

text \<open>
  The loop at the point where some stages have succeeded: the stages to come, the compensators of
  those that are done, the create's own state and the world.
\<close>

inductive in_flight ::
  "'s Store \<Rightarrow> env \<Rightarrow> Manager \<Rightarrow> createState \<Rightarrow> 's cworld \<Rightarrow>
   stage list \<Rightarrow> compensator list \<Rightarrow> createState \<Rightarrow> 's cworld \<Rightarrow> bool" for S E m st0 w0 where
  start: "in_flight S E m st0 w0 manager_stages [] st0 w0"
| advance: "in_flight S E m st0 w0 (s # ss) comps st w \<Longrightarrow>
    run_stage S E m (stage_run s) st w = (Inr co, st', w') \<Longrightarrow>
    in_flight S E m st0 w0 ss (push_comp comps co) st' w'"

text \<open>Wherever it is stopped, the rest of the loop is what the whole loop would have done.\<close>

lemma flight_continues:
  "in_flight S E m st0 w0 ss comps st w \<Longrightarrow>
   run_stages S E m manager_stages [] st0 w0 = run_stages S E m ss comps st w"
  by (induction rule: in_flight.induct) (auto split: option.split)

text \<open>The invariant of the pipeline holds at every stop.\<close>

context responsive_store
begin

lemma flight_pipe:
  assumes "in_flight S E m st0 w0 ss comps st w"
    and "inv (store w0)" and "cells_ok (store w0)" and "\<forall>n. \<not> e_bg E n" and "resolved st0"
  shows "pipe m (store w0) (length ss) comps st (store w) \<and> suffix ss manager_stages \<and> same_session st0 st"
  using assms(1)
proof (induction rule: in_flight.induct)
  case start
  have "length manager_stages = 10" by (simp add: manager_stages_def)
  then show ?case
    using assms(2,5) by (simp add: pipe_def early_def owed_Nil same_session_def)
next
  case (advance s ss comps st w co st' w')
  have "pipe m (store w0) (Suc (length ss)) comps st (store w)" "suffix (s # ss) manager_stages" "same_session st0 st"
    using advance.IH by simp_all
  note pre = this
  show ?case
    using pipe_step [OF pre(1,2) assms(3,4) advance.hyps(2)] suffix_ConsD [OF pre(2)]
      same_session_trans [OF pre(3) stage_same_session [OF advance.hyps(2) same_session_resolved [OF pre(3) assms(5)]]]
    by blast
qed

end

subsection \<open>The rest of a create whose row is gone\<close>


subsection \<open>The revoke\<close>






subsection \<open>A run\<close>








end
