(* ===== verification/Instants.thy ===== *)
theory Instants
  imports Quota "HOL-Library.Monad_Syntax"
begin

text \<open>
  Instants in text, as the Go \<open>time\<close> package reads and writes the layouts \<open>RFC3339\<close> and \<open>RFC3339Nano\<close>.
  An instant of the model has no location, so every instant is written in UTC. What is written is
  read back as the same instant, for the years 1 to 9999.
\<close>

subsection \<open>Reading\<close>

text \<open>
  \<open>time.Parse(time.RFC3339, s)\<close>: two-digit numbers except for the hour, which may have one digit; a
  fraction after the seconds, behind a point or a comma, of which nine digits count; \<open>Z\<close> or an offset
  of at most 24 hours and 60 minutes; the day checked against the month.
\<close>

definition digit_val :: "char \<Rightarrow> nat" where "digit_val c = of_char c - 48"

fun getnum :: "bool \<Rightarrow> string \<Rightarrow> (nat \<times> string) option" where
  "getnum fixed [] = None"
| "getnum fixed [a] = (if is_digit a \<and> \<not> fixed then Some (digit_val a, []) else None)"
| "getnum fixed (a # b # s) =
     (if \<not> is_digit a then None
      else if is_digit b then Some (10 * digit_val a + digit_val b, s)
      else if fixed then None
      else Some (digit_val a, b # s))"

definition getyear :: "string \<Rightarrow> (nat \<times> string) option" where
  "getyear s = (if 4 \<le> length s \<and> list_all is_digit (take 4 s) then Some (undec (take 4 s), drop 4 s) else None)"

fun getlit :: "char \<Rightarrow> string \<Rightarrow> string option" where
  "getlit c [] = None"
| "getlit c (x # s) = (if x = c then Some s else None)"

definition getfrac :: "string \<Rightarrow> nat \<times> string" where
  "getfrac s =
     (if 2 \<le> length s \<and> (hd s = CHR ''.'' \<or> hd s = CHR '','') \<and> is_digit (s ! 1) then
        let ds = takeWhile is_digit (tl s); d9 = take 9 ds in
        (undec d9 * 10 ^ (9 - length d9), drop (length ds) (tl s))
      else (0, s))"

definition getzone :: "string \<Rightarrow> (int \<times> string) option" where
  "getzone s =
     (if s \<noteq> [] \<and> hd s = CHR ''Z'' then Some (0, tl s)
      else if length s < 6 \<or> s ! 3 \<noteq> CHR '':'' then None
      else case (getnum True (take 2 (drop 1 s)), getnum True (take 2 (drop 4 s))) of
        (Some (hr, _), Some (mm, _)) \<Rightarrow>
          if 24 < hr \<or> 60 < mm then None
          else let off = int ((hr * 60 + mm) * 60) in
            if hd s = CHR ''+'' then Some (off, drop 6 s)
            else if hd s = CHR ''-'' then Some (- off, drop 6 s) else None
      | _ \<Rightarrow> None)"

definition days_in :: "nat \<Rightarrow> nat \<Rightarrow> nat" where
  "days_in y m = (if m = 12 then 31 else month_lengths y ! (m - 1))"

text \<open>Days from 0001-01-01 to a date of the proleptic Gregorian calendar.\<close>

definition date_days :: "nat \<Rightarrow> nat \<Rightarrow> nat \<Rightarrow> int" where
  "date_days y m d =
     (let y1 = int y - 1 in
      365 * y1 + y1 div 4 - y1 div 100 + y1 div 400 + int (sum_list (take (m - 1) (month_lengths y))) + int d - 1)"

definition guard_opt :: "bool \<Rightarrow> unit option" where
  "guard_opt b = (if b then Some () else None)"

definition parse_rfc3339 :: "string \<Rightarrow> time option" where
  "parse_rfc3339 s = do {
     (y, s) \<leftarrow> getyear s;
     s \<leftarrow> getlit CHR ''-'' s;
     (m, s) \<leftarrow> getnum True s;
     guard_opt (1 \<le> m \<and> m \<le> 12);
     s \<leftarrow> getlit CHR ''-'' s;
     (d, s) \<leftarrow> getnum True s;
     s \<leftarrow> getlit CHR ''T'' s;
     (h, s) \<leftarrow> getnum False s;
     guard_opt (h < 24);
     s \<leftarrow> getlit CHR '':'' s;
     (mi, s) \<leftarrow> getnum True s;
     guard_opt (mi < 60);
     s \<leftarrow> getlit CHR '':'' s;
     (sec, s) \<leftarrow> getnum True s;
     guard_opt (sec < 60);
     let (ns, s) = getfrac s;
     (off, s) \<leftarrow> getzone s;
     guard_opt (s = []);
     guard_opt (1 \<le> d \<and> d \<le> days_in y m);
     Some ((date_days y m d * 86400 + int (h * 3600 + mi * 60 + sec) - off) * 1000000000 + int ns)
   }"

subsection \<open>Writing\<close>

text \<open>
  The year and the day in it, for any day: days before 0001-01-01 are moved up by whole cycles of 400
  years.
\<close>

definition civil_year :: "int \<Rightarrow> int \<times> nat" where
  "civil_year d =
     (let k = if d < 0 then nat (- d) else 0; (y, yday) = year_yday (nat (d + 146097 * int k))
      in (int y - 400 * int k, yday))"

definition format_year :: "int \<Rightarrow> string" where
  "format_year y = (if y < 0 then CHR ''-'' # pad 4 (nat (- y)) else pad 4 (nat y))"

definition nanosPerSecond :: int where "nanosPerSecond = 1000000000"

definition format_seconds :: "time \<Rightarrow> string" where
  "format_seconds t =
     (let n = t div nanosPerSecond; (y, yday) = civil_year (n div 86400); s = nat (n mod 86400);
          (m, d) = month_mday (month_lengths (nat (y mod 400))) yday
      in format_year y @ ''-'' @ pad 2 m @ ''-'' @ pad 2 d @ ''T'' @
         pad 2 (s div 3600) @ '':'' @ pad 2 (s div 60 mod 60) @ '':'' @ pad 2 (s mod 60))"

text \<open>The layout \<open>.999999999\<close>: no trailing zeros, and no point before nothing.\<close>

definition drop_zeros :: "string \<Rightarrow> string" where
  "drop_zeros s = rev (dropWhile (\<lambda>c. c = CHR ''0'') (rev s))"

definition format_nanos :: "nat \<Rightarrow> string" where
  "format_nanos n = (if n = 0 then '''' else CHR ''.'' # drop_zeros (pad 9 n))"

definition format_RFC3339 :: "time \<Rightarrow> string" where
  "format_RFC3339 t = format_seconds t @ ''Z''"

definition format_RFC3339Nano :: "time \<Rightarrow> string" where
  "format_RFC3339Nano t = format_seconds t @ format_nanos (nat (t mod nanosPerSecond)) @ ''Z''"

text \<open>\<open>Time.MarshalJSON\<close> refuses a year outside \<open>[0, 9999]\<close>.\<close>

definition time_text :: "time \<Rightarrow> string option" where
  "time_text t =
     (let y = fst (civil_year (t div nanosPerSecond div 86400)) in
      if 0 \<le> y \<and> y \<le> 9999 then Some (format_RFC3339Nano t) else None)"

subsection \<open>What is written is read back\<close>

lemma dec_length: "n < 10 ^ w \<Longrightarrow> 0 < w \<Longrightarrow> length (dec n) \<le> w"
proof (induction n arbitrary: w rule: dec.induct)
  case (1 n)
  show ?case
  proof (cases "n < 10")
    case True
    then show ?thesis using "1.prems" by (simp add: dec.simps [of n])
  next
    case False
    obtain v where w: "w = Suc v" using "1.prems" by (cases w) auto
    have "n div 10 < 10 ^ v" "0 < v" using "1.prems"(1) False w by (auto intro: Nat.gr0I)
    from "1.IH" [OF False this] False show ?thesis by (simp add: dec.simps [of n] w)
  qed
qed

lemma length_pad: "n < 10 ^ w \<Longrightarrow> 0 < w \<Longrightarrow> length (pad w n) = w"
  using dec_length [of n w] by (simp add: pad_def)

lemma undec_pad: "undec (pad w n) = n"
  by (simp add: pad_def undec_zeros)

lemma pad_2:
  assumes "n < 100"
  obtains a b where "pad 2 n = [a, b]" "is_digit a" "is_digit b" "10 * digit_val a + digit_val b = n"
proof -
  have "length (pad 2 n) = 2" using length_pad [of n 2] assms by simp
  then obtain a b where ab: "pad 2 n = [a, b]" by (auto simp: numeral_2_eq_2 length_Suc_conv)
  have "is_digit a" "is_digit b" using pad_digits [of _ 2 n] ab by auto
  moreover have "10 * digit_val a + digit_val b = n"
    using undec_pad [of 2 n] by (simp add: ab undec_def digit_val_def)
  ultimately show thesis using that ab by blast
qed

lemma getnum_pad: "n < 100 \<Longrightarrow> getnum fixed (pad 2 n @ r) = Some (n, r)"
  by (elim pad_2) simp

lemma getyear_pad:
  assumes "n < 10000"
  shows "getyear (pad 4 n @ r) = Some (n, r)"
proof -
  have l: "length (pad 4 n) = 4" using length_pad [of n 4] assms by simp
  have "list_all is_digit (pad 4 n)" using pad_digits by (auto simp: list_all_iff)
  then show ?thesis using l by (simp add: getyear_def undec_pad)
qed

lemma undec_append_zeros: "undec (s @ replicate k CHR ''0'') = undec s * 10 ^ k"
proof (induction k)
  case (Suc k)
  have "s @ replicate (Suc k) CHR ''0'' = (s @ replicate k CHR ''0'') @ [CHR ''0'']"
    by (simp add: replicate_append_same)
  then show ?case using Suc by (simp only: undec_snoc) simp
qed simp

lemma drop_zeros_split: "\<exists>k. s = drop_zeros s @ replicate k CHR ''0''"
proof -
  have "takeWhile (\<lambda>c. c = CHR ''0'') (rev s) = replicate (length (takeWhile (\<lambda>c. c = CHR ''0'') (rev s))) CHR ''0''"
    by (rule replicate_length_same [symmetric]) (auto dest: set_takeWhileD)
  then have "rev (takeWhile (\<lambda>c. c = CHR ''0'') (rev s)) = replicate (length (takeWhile (\<lambda>c. c = CHR ''0'') (rev s))) CHR ''0''"
    by (metis rev_replicate)
  moreover have "s = drop_zeros s @ rev (takeWhile (\<lambda>c. c = CHR ''0'') (rev s))"
    unfolding drop_zeros_def by (simp add: rev_append [symmetric] del: rev_append)
  ultimately show ?thesis by metis
qed

lemma getfrac_format:
  assumes "n < 10 ^ 9"
  shows "getfrac (format_nanos n @ ''Z'') = (n, ''Z'')"
proof (cases "n = 0")
  case True
  then show ?thesis by (simp add: format_nanos_def getfrac_def)
next
  case False
  let ?d = "drop_zeros (pad 9 n)"
  obtain k where k: "pad 9 n = ?d @ replicate k CHR ''0''" using drop_zeros_split by blast
  have l: "length (pad 9 n) = 9" using length_pad [of n 9] assms by simp
  with k have k9: "length ?d + k = 9" by (metis length_append length_replicate)
  have n: "undec ?d * 10 ^ k = n" using undec_pad [of 9 n] undec_append_zeros [of ?d k] k by simp
  have "?d \<noteq> []" using n False by (auto simp: undec_def)
  moreover have dig: "list_all is_digit ?d" using pad_digits [of _ 9 n] k by (metis Un_iff list_all_iff set_append)
  ultimately obtain a ds where a: "?d = a # ds" "is_digit a" "list_all is_digit ds" by (cases ?d) auto
  have "\<not> is_digit CHR ''Z''" by (simp add: is_digit_def)
  then have "takeWhile is_digit (?d @ ''Z'') = ?d"
    using dig by (simp add: list_all_iff takeWhile_append)
  moreover have "k = 8 - length ds" "length ds \<le> 8" using k9 a(1) by simp_all
  ultimately show ?thesis
    using a n False
    by (simp add: format_nanos_def getfrac_def Let_def)
qed

lemma year_yday_bound:
  assumes "year_yday d = (y, yday)"
  shows "yday < (if is_leap y then 366 else 365)" and "1 \<le> y"
proof -
  define n400 d1 where "n400 = d div 146097" and "d1 = d mod 146097"
  define n100 where "n100 = min 3 (d1 div 36524)"
  define d2 where "d2 = d1 - 36524 * n100"
  define n4 d3 where "n4 = d2 div 1461" and "d3 = d2 mod 1461"
  define n1 where "n1 = min 3 (d3 div 365)"
  have "year_yday d = (400 * n400 + 100 * n100 + 4 * n4 + n1 + 1, d3 - 365 * n1)"
    by (simp only: year_yday_def Let_def n400_def d1_def n100_def d2_def n4_def d3_def n1_def)
  with assms have y: "y = 400 * n400 + 100 * n100 + 4 * n4 + n1 + 1" and yd: "yday = d3 - 365 * n1" by auto
  show "1 \<le> y" using y by simp
  have d1: "d1 < 146097" by (simp add: d1_def)
  have n100: "n100 \<le> 3" by (simp add: n100_def)
  have d2: "n100 < 3 \<Longrightarrow> d2 < 36524" "d2 \<le> 36524"
    using d1 dividend_less_div_times [of 36524 d1] by (auto simp: d2_def n100_def min_def split: if_splits)
  have d3: "d3 < 1461" "d2 = 1461 * n4 + d3" by (simp_all add: d3_def n4_def)
  show "yday < (if is_leap y then 366 else 365)"
  proof (cases "n1 = 3 \<and> d3 = 1460")
    case False
    have "d3 < 365 * Suc n1 \<or> n1 = 3" using dividend_less_div_times [of 365 d3] by (simp add: n1_def min_def)
    then have "yday < 365" using False d3(1) yd by auto
    then show ?thesis by simp
  next
    case True
    have "n4 \<le> 24" using d2(2) d3(2) by simp
    moreover have "n4 = 24 \<Longrightarrow> n100 = 3" using d2(1) d3(2) True n100 by (cases "n100 < 3") auto
    moreover have y4: "y = 4 * (100 * n400 + 25 * n100 + (n4 + 1))" using y True by simp
    moreover have "25 dvd n4 + 1" if "100 dvd y"
    proof -
      obtain k where "y = 100 * k" using \<open>100 dvd y\<close> by (elim dvdE)
      then have "25 * (4 * n400 + n100) + (n4 + 1) = 25 * k" using y4 by simp
      then have "25 dvd 25 * (4 * n400 + n100) + (n4 + 1)" by simp
      then show ?thesis by (simp only: dvd_add_right_iff [OF dvd_triv_left])
    qed
    moreover have "n4 = 24" if "25 dvd n4 + 1" using that calculation(1) dvd_imp_le [of 25 "n4 + 1"] by simp
    moreover have "y = 400 * (n400 + 1)" if "n4 = 24" "n100 = 3" using that y4 by simp
    ultimately have "is_leap y" unfolding is_leap_def by (metis dvd_triv_left)
    then show ?thesis using True yd by simp
  qed
qed

lemma sum_months: "sum_list (month_lengths y) + 31 = (if is_leap y then 366 else 365)"
  by (simp add: month_lengths_def)

lemma month_mday_bound:
  assumes "month_mday ls d = (m, md)" and "d < sum_list ls + l"
  shows "1 \<le> md \<and> 1 \<le> m \<and> m \<le> Suc (length ls) \<and> md \<le> (if m = Suc (length ls) then l else ls ! (m - 1))"
  using assms
proof (induction ls d arbitrary: m md rule: month_mday.induct)
  case (2 a ls d)
  show ?case
  proof (cases "d < a")
    case False
    obtain m' md' where rest: "month_mday ls (d - a) = (m', md')" by fastforce
    have "d - a < sum_list ls + l" using 2(3) False by simp
    from 2(1) [OF False rest this] False rest 2(2) show ?thesis by (auto simp: nth_Cons' split: if_splits)
  qed (use 2 in auto)
qed auto

lemma year_yday_days:
  assumes "year_yday d = (y, yday)"
  shows "int d = 365 * int (y - 1) + int (y - 1) div 4 - int (y - 1) div 100 + int (y - 1) div 400 + int yday"
proof -
  note y = year_yday_inverse [OF assms(1)]
  have cycles: "146097 * (x div 400) + 36524 * (x div 100 mod 4) + 1461 * (x div 4 mod 25) + 365 * (x mod 4)
      = 365 * x + x div 4 - x div 100 + x div 400" for x :: int
  proof -
    have "x div 400 = x div 4 div 25 div 4" "x div 100 = x div 4 div 25"
      by (simp_all add: zdiv_zmult2_eq [symmetric])
    then show ?thesis by presburger
  qed
  have "int d = 146097 * (int (y - 1) div 400) + 36524 * (int (y - 1) div 100 mod 4) + 1461 * (int (y - 1) div 4 mod 25)
      + 365 * (int (y - 1) mod 4) + int yday"
    by (subst y) (simp add: zdiv_int zmod_int)
  then show ?thesis using cycles [of "int (y - 1)"] by simp
qed

lemma date_days_year_yday:
  assumes "year_yday d = (y, yday)" and "month_mday (month_lengths y) yday = (m, md)"
  shows "date_days y m md = int d"
  using month_mday_inverse [OF assms(2)] year_yday_bound(2) [OF assms(1)] year_yday_days [OF assms(1)]
  by (simp add: date_days_def Let_def)

text \<open>The first instant of the year 10000.\<close>

definition year10000 :: time where "year10000 = 315537897600 * 1000000000"

lemma is_leap_mod: "is_leap (y mod 400) \<longleftrightarrow> is_leap y"
proof -
  have "(4::nat) dvd y mod 400 \<longleftrightarrow> 4 dvd y" "100 dvd y mod 400 \<longleftrightarrow> 100 dvd y" "400 dvd y mod 400 \<longleftrightarrow> 400 dvd y"
    by (rule dvd_mod_iff; simp)+
  then show ?thesis by (simp add: is_leap_def)
qed

lemma month_lengths_mod: "month_lengths (nat (int y mod 400)) = month_lengths y"
  using is_leap_mod [of y] by (simp add: month_lengths_def nat_mod_distrib)

lemma civil_year_nat: "0 \<le> d \<Longrightarrow> civil_year d = (case year_yday (nat d) of (y, yday) \<Rightarrow> (int y, yday))"
  by (simp add: civil_year_def split: prod.split)

lemma year_upto_9999:
  assumes "year_yday d = (y, yday)" and "d < 3652059"
  shows "y < 10000"
proof (rule ccontr)
  assume "\<not> y < 10000"
  then obtain x where x: "x = int (y - 1)" "9999 \<le> x" by simp
  have "9999 div 4 \<le> x div 4" "9999 div 400 \<le> x div 400" using x(2) by (intro zdiv_mono1; simp)+
  moreover have "x div 100 = x div 4 div 25" by (simp add: zdiv_zmult2_eq [symmetric])
  moreover have "25 * (x div 4 div 25) \<le> x div 4" using mult_div_mod_eq [of 25 "x div 4"] pos_mod_sign [of 25 "x div 4"] by linarith
  ultimately have "3652059 \<le> 365 * x + x div 4 - x div 100 + x div 400" using x(2) by simp
  then show False using year_yday_days [OF assms(1), folded x(1)] assms(2) by linarith
qed

lemma parse_fields:
  assumes "y < 10000" and "1 \<le> m" and "m \<le> 12" and "1 \<le> d" and "d \<le> days_in y m" and "d < 100"
    and "h < 24" and "mi < 60" and "sec < 60"
  shows "parse_rfc3339 (pad 4 y @ CHR ''-'' # pad 2 m @ CHR ''-'' # pad 2 d @ CHR ''T'' #
      pad 2 h @ CHR '':'' # pad 2 mi @ CHR '':'' # pad 2 sec @ r) =
    (let (ns, r1) = getfrac r in case getzone r1 of None \<Rightarrow> None
     | Some (off, r2) \<Rightarrow> if r2 = [] then
         Some ((date_days y m d * 86400 + int (h * 3600 + mi * 60 + sec) - off) * 1000000000 + int ns) else None)"
  using assms
  by (cases "getfrac r"; cases "getzone (snd (getfrac r))")
    (auto simp: parse_rfc3339_def getyear_pad getnum_pad guard_opt_def simp del: of_nat_add of_nat_mult)

lemma parse_seconds:
  assumes "0 \<le> t" and "t < year10000"
  shows "parse_rfc3339 (format_seconds t @ r) =
    (let (ns, r1) = getfrac r in case getzone r1 of None \<Rightarrow> None
     | Some (off, r2) \<Rightarrow> if r2 = [] then Some ((t div nanosPerSecond - off) * 1000000000 + int ns) else None)"
proof -
  define n where "n = t div nanosPerSecond"
  obtain y yday where y: "year_yday (nat (n div 86400)) = (y, yday)" by fastforce
  obtain m d where m: "month_mday (month_lengths y) yday = (m, d)" by fastforce
  define s where "s = nat (n mod 86400)"
  have n: "0 \<le> n" "n < 315537897600"
    using assms by (auto simp: n_def nanosPerSecond_def year10000_def)
  have s: "s < 86400" using n by (simp add: s_def nat_less_iff)
  have "nat (n div 86400) < 3652059" using n by (simp add: nat_less_iff)
  then have y10: "y < 10000" by (rule year_upto_9999 [OF y])
  have f: "format_seconds t @ r = pad 4 y @ CHR ''-'' # pad 2 m @ CHR ''-'' # pad 2 d @ CHR ''T'' #
      pad 2 (s div 3600) @ CHR '':'' # pad 2 (s div 60 mod 60) @ CHR '':'' # pad 2 (s mod 60) @ r"
    using n y m by (simp add: format_seconds_def n_def [symmetric] s_def civil_year_nat month_lengths_mod format_year_def Let_def)
  have "yday < sum_list (month_lengths y) + 31" using year_yday_bound(1) [OF y] sum_months [of y] by simp
  note b = month_mday_bound [OF m this]
  have len: "length (month_lengths y) = 11" by (simp add: month_lengths_def)
  have m12: "1 \<le> m" "m \<le> 12" "1 \<le> d" using b len by simp_all
  have dd: "d \<le> days_in y m" using b len by (simp add: days_in_def)
  have "\<forall>x \<in> set (month_lengths y). x \<le> 31" by (simp add: month_lengths_def)
  then have "days_in y m \<le> 31" using m12 len by (simp add: days_in_def)
  then have d31: "d < 100" using dd by simp
  have hms: "s div 3600 < 24" "s div 60 mod 60 < 60" "s mod 60 < 60" using s by auto
  have split: "s div 3600 * 3600 + s div 60 mod 60 * 60 + s mod 60 = s" 
  proof -
    have "s div 3600 = s div 60 div 60" by (simp add: div_mult2_eq [symmetric])
    moreover have "s div 60 div 60 * 60 + s div 60 mod 60 = s div 60" "s div 60 * 60 + s mod 60 = s"
      by (simp_all only: div_mult_mod_eq)
    ultimately show ?thesis by linarith
  qed
  have "date_days y m d * 86400 + int s = n"
    using date_days_year_yday [OF y m] n pos_imp_zdiv_nonneg_iff [of 86400 n] by (simp add: s_def)
  then have v: "date_days y m d * 86400 + int (s div 3600 * 3600 + s div 60 mod 60 * 60 + s mod 60) = n"
    by (simp only: split)
  show ?thesis
    unfolding f parse_fields [OF y10 m12 dd d31 hms] v n_def ..
qed

lemma parse_format_nano:
  assumes "0 \<le> t" and "t < year10000"
  shows "parse_rfc3339 (format_RFC3339Nano t) = Some t"
proof -
  have n: "nat (t mod nanosPerSecond) < 10 ^ 9" by (simp add: nanosPerSecond_def nat_less_iff)
  have "(t div nanosPerSecond) * 1000000000 + int (nat (t mod nanosPerSecond)) = t"
    by (simp add: nanosPerSecond_def)
  then show ?thesis
    by (simp add: format_RFC3339Nano_def parse_seconds [OF assms] getfrac_format [OF n] getzone_def)
qed

lemma parse_format:
  assumes "0 \<le> t" and "t < year10000"
  shows "parse_rfc3339 (format_RFC3339 t) = Some (t - t mod nanosPerSecond)"
proof -
  have "(t div nanosPerSecond) * 1000000000 = t - t mod nanosPerSecond"
    by (simp add: nanosPerSecond_def minus_mod_eq_div_mult)
  then show ?thesis
    by (simp add: format_RFC3339_def parse_seconds [OF assms] getfrac_def getzone_def)
qed

lemma time_text_read:
  assumes "0 \<le> t" and "t < year10000"
  shows "\<exists>s. time_text t = Some s \<and> parse_rfc3339 s = Some t"
proof -
  have "0 \<le> t div nanosPerSecond div 86400" "nat (t div nanosPerSecond div 86400) < 3652059"
    using assms by (simp_all add: nanosPerSecond_def year10000_def nat_less_iff)
  then have "time_text t = Some (format_RFC3339Nano t)"
    using year_upto_9999 by (cases "year_yday (nat (t div nanosPerSecond div 86400))") (fastforce simp: time_text_def civil_year_nat)
  then show ?thesis using parse_format_nano [OF assms] by simp
qed

end
