(* ===== verification/Soar.thy ===== *)
theory Soar
  imports Killswitch Json Sha256 Instants
begin

text \<open>
  The signed revoke channel: the canonical payload, the keyring and the verifier of
  \<open>internal/soarverify\<close>, and the replay guard with the gate over both from
  \<open>internal/ingress/operator\<close> (\<open>replay.go\<close>, \<open>soar.go\<close>). Ed25519 verification is a parameter. Shown: one
  payload has one reading; behind a clock that does not go back no signature is admitted twice; and
  the acceptance window fails for an issuance so far ahead that the skew leaves the range of a duration.
\<close>

abbreviation ErrOutsideWindow :: sentinel where "ErrOutsideWindow \<equiv> Named ''outside anti-replay window''"
abbreviation ErrReplayed :: sentinel where "ErrReplayed \<equiv> Named ''issuance already presented''"

subsection \<open>The canonical payload\<close>

definition domainTag :: string where "domainTag = ''ocu.soar.revoke.v1''"
definition maxFieldLen :: nat where "maxFieldLen = 2 ^ 32 - 1"

definition appendField :: "string \<Rightarrow> string \<Rightarrow> nat \<Rightarrow> string result" where
  "appendField out value bound =
     (if bound < length value \<or> 4294967295 < length value then Inl [Dynamic ''beyond the encoding bound'']
      else Inr (out @ be_bytes 4 (length value) @ value))"

definition canonicalPayload :: "string \<Rightarrow> string \<Rightarrow> string \<Rightarrow> string result" where
  "canonicalPayload scope target issuedAt =
     (case appendField domainTag scope maxFieldLen of
        Inl e \<Rightarrow> Inl e
      | Inr o1 \<Rightarrow>
          (case appendField o1 target maxFieldLen of
             Inl e \<Rightarrow> Inl e
           | Inr o2 \<Rightarrow> appendField o2 issuedAt maxFieldLen))"

subsection \<open>The keyring\<close>

record Principal =
  PlName :: string
  PlTenant :: string
  PlKeys :: "string list"

record keyringEntry =
  KeName :: string
  KeTenant :: string
  KeKeys :: "string list"

fun field_strings :: "json \<Rightarrow> string list \<Rightarrow> string list option" where
  "field_strings JNull old = Some []"
| "field_strings (JArr vs) old = those (map (\<lambda>v. field_string v '''') vs)"
| "field_strings _ old = None"

text \<open>With \<open>DisallowUnknownFields\<close> a name that is no field is an error.\<close>

definition keyring_field :: "keyringEntry \<Rightarrow> string \<Rightarrow> string \<Rightarrow> json \<Rightarrow> keyringEntry option" where
  "keyring_field e k t v =
     (if k = ''name'' then map_option (\<lambda>x. e\<lparr>KeName := x\<rparr>) (field_string v (KeName e))
      else if k = ''tenant'' then map_option (\<lambda>x. e\<lparr>KeTenant := x\<rparr>) (field_string v (KeTenant e))
      else if k = ''keys'' then map_option (\<lambda>x. e\<lparr>KeKeys := x\<rparr>) (field_strings v (KeKeys e))
      else None)"

fun keyring_entry :: "json \<Rightarrow> keyringEntry option" where
  "keyring_entry JNull = Some \<lparr>KeName = '''', KeTenant = '''', KeKeys = []\<rparr>"
| "keyring_entry (JObj kvs) =
     decode_members keyring_field (map (\<lambda>(k, v). (k, '''', v)) kvs) \<lparr>KeName = '''', KeTenant = '''', KeKeys = []\<rparr>"
| "keyring_entry _ = None"

text \<open>The decoder reads one value and leaves what follows it.\<close>

definition keyring_entries :: "string \<Rightarrow> keyringEntry list option" where
  "keyring_entries raw =
     (case read_value (length raw + 1) (skip_ws raw) of
        Some (JNull, rest) \<Rightarrow> Some []
      | Some (JArr vs, rest) \<Rightarrow> those (map keyring_entry vs)
      | _ \<Rightarrow> None)"

fun decode_keys :: "string list \<Rightarrow> string list result" where
  "decode_keys [] = Inr []"
| "decode_keys (h # hs) =
     (case hex_decode h of None \<Rightarrow> Inl [Dynamic ''key: not hex'']
      | Some k \<Rightarrow>
          if length k \<noteq> 32 then Inl [Dynamic ''key size'']
          else (case decode_keys hs of Inl e \<Rightarrow> Inl e | Inr ks \<Rightarrow> Inr (k # ks)))"

fun decode_principals :: "keyringEntry list \<Rightarrow> Principal list result" where
  "decode_principals [] = Inr []"
| "decode_principals (e # es) =
     (case decode_keys (KeKeys e) of Inl x \<Rightarrow> Inl x
      | Inr ks \<Rightarrow>
          (case decode_principals es of Inl x \<Rightarrow> Inl x
           | Inr ps \<Rightarrow> Inr (\<lparr>PlName = KeName e, PlTenant = KeTenant e, PlKeys = ks\<rparr> # ps)))"

text \<open>The bytes of the file are an argument; an unreadable one is \<open>Inl\<close>.\<close>

definition LoadKeyring :: "string result \<Rightarrow> Principal list result" where
  "LoadKeyring contents =
     (case contents of Inl e \<Rightarrow> Inl e
      | Inr raw \<Rightarrow>
          (case keyring_entries raw of
             None \<Rightarrow> Inl [Dynamic ''decode keyring'']
           | Some entries \<Rightarrow>
               if entries = [] then Inl [Dynamic ''keyring is empty''] else decode_principals entries))"

subsection \<open>The verifier\<close>

definition NewVerifier :: "Principal list \<Rightarrow> Principal list result" where
  "NewVerifier principals =
     (if principals = [] then Inl [Dynamic ''keyring is empty'']
      else if list_ex (\<lambda>p. PlName p = '''' \<or> PlKeys p = [] \<or> list_ex (\<lambda>k. length k \<noteq> 32) (PlKeys p)) principals
      then Inl [Dynamic ''unusable principal'']
      else Inr principals)"

type_synonym ed25519 = "string \<Rightarrow> string \<Rightarrow> string \<Rightarrow> bool"

fun verify_keys :: "ed25519 \<Rightarrow> Principal list \<Rightarrow> string \<Rightarrow> string \<Rightarrow> Identity option" where
  "verify_keys ed [] payload sig = None"
| "verify_keys ed (p # ps) payload sig =
     (if list_ex (\<lambda>k. ed k payload sig) (PlKeys p) then Some \<lparr>Tenant = PlTenant p, Caller = PlName p\<rparr>
      else verify_keys ed ps payload sig)"

type_synonym soar_verifier = "string \<Rightarrow> string \<Rightarrow> Identity result"

definition Verifier_Verify :: "ed25519 \<Rightarrow> Principal list \<Rightarrow> soar_verifier" where
  "Verifier_Verify ed v payload sig =
     (if length sig \<noteq> 64 then Inl [ErrSOARUnverified]
      else case verify_keys ed v payload sig of
        Some ident \<Rightarrow> Inr ident | None \<Rightarrow> Inl [ErrSOARUnverified])"

subsection \<open>The replay guard\<close>

definition defaultSOARReplayWindow :: duration where "defaultSOARReplayWindow = 300 * 1000000000"

record replayGuard =
  rg_window :: duration
  rg_seen :: "string \<Rightarrow> time option"

definition newReplayGuard :: "duration \<Rightarrow> replayGuard" where
  "newReplayGuard window = \<lparr>rg_window = window, rg_seen = (\<lambda>_. None)\<rparr>"

definition evictLocked :: "time \<Rightarrow> replayGuard \<Rightarrow> replayGuard" where
  "evictLocked now g = g\<lparr>rg_seen := (\<lambda>k.
     case rg_seen g k of
       None \<Rightarrow> None
     | Some issued \<Rightarrow> if rg_window g < time_Sub now issued then None else Some issued)\<rparr>"

text \<open>The skew is a duration: its negation wraps at the lower end of the range.\<close>

definition skew_of :: "time \<Rightarrow> time \<Rightarrow> duration" where
  "skew_of now issued =
     (let skew = time_Sub now issued in if skew < 0 then wrap64 (- skew) else skew)"

definition replayGuard_admit :: "time \<Rightarrow> string \<Rightarrow> string \<Rightarrow> replayGuard \<Rightarrow> err option \<times> replayGuard" where
  "replayGuard_admit now issuedAt sig g =
     (case parse_rfc3339 issuedAt of
        None \<Rightarrow> (Some [ErrOutsideWindow], g)
      | Some issued \<Rightarrow>
          if rg_window g < skew_of now issued then (Some [ErrOutsideWindow], g)
          else
            let key = sha256 sig; g1 = evictLocked now g in
            if rg_seen g1 key \<noteq> None then (Some [ErrReplayed], g1)
            else (None, g1\<lparr>rg_seen := (rg_seen g1)(key := Some issued)\<rparr>))"

subsection \<open>The gate\<close>

definition verifyThenAdmit ::
  "soar_verifier option \<Rightarrow> time \<Rightarrow> string \<Rightarrow> string \<Rightarrow> string \<Rightarrow> replayGuard option \<Rightarrow> err option \<times> replayGuard option" where
  "verifyThenAdmit verifier now issuedAt payload sig guard =
     (case verifier of None \<Rightarrow> (Some [ErrSOARUnverified], guard)
      | Some v \<Rightarrow>
          (case v payload sig of
             Inl e \<Rightarrow> (Some e, guard)
           | Inr ident \<Rightarrow>
               (case guard of None \<Rightarrow> (Some [ErrSOARUnverified], guard)
                | Some g \<Rightarrow> (case replayGuard_admit now issuedAt sig g of (e, g') \<Rightarrow> (e, Some g')))))"

definition verifyThenMint ::
  "soar_verifier option \<Rightarrow> OperatorSeam \<Rightarrow> string \<Rightarrow> string \<Rightarrow> OperatorScope result" where
  "verifyThenMint verifier seam payload sig =
     (case verifier of None \<Rightarrow> Inl [ErrSOARUnverified]
      | Some v \<Rightarrow>
          (case v payload sig of
             Inl e \<Rightarrow> Inl e | Inr ident \<Rightarrow> Inr (OperatorSeam_Mint seam ident)))"

subsection \<open>One payload, one reading\<close>

lemma appendField_inject:
  assumes "appendField a v bound = Inr x" and "appendField a' v' bound' = Inr x'" and "length a = length a'"
    and "x @ r = x' @ r'"
  shows "a = a' \<and> v = v' \<and> r = r'"
proof -
  have bound: "length v < 256 ^ 4" "length v' < 256 ^ 4"
    using assms(1,2) by (auto simp: appendField_def split: if_splits)
  have eq: "a @ be_bytes 4 (length v) @ v @ r = a' @ be_bytes 4 (length v') @ v' @ r'"
    using assms(1,2,4) by (auto simp: appendField_def split: if_splits)
  then have "be_bytes 4 (length v) = be_bytes 4 (length v')" using assms(3) by (simp add: append_eq_append_conv)
  then have "length v = length v'" using be_bytes_inject [OF bound] by simp
  then show ?thesis using eq assms(3) by simp
qed

lemma payload_fields:
  assumes "canonicalPayload scope target issuedAt = Inr b" and "canonicalPayload scope' target' issuedAt' = Inr b"
  shows "scope = scope' \<and> target = target' \<and> issuedAt = issuedAt' \<and> take (length domainTag) b = domainTag"
proof -
  obtain o1 o2 where 1: "appendField domainTag scope maxFieldLen = Inr o1" "appendField o1 target maxFieldLen = Inr o2"
      "appendField o2 issuedAt maxFieldLen = Inr b"
    using assms(1) by (auto simp: canonicalPayload_def split: sum.splits)
  obtain p1 p2 where 2: "appendField domainTag scope' maxFieldLen = Inr p1" "appendField p1 target' maxFieldLen = Inr p2"
      "appendField p2 issuedAt' maxFieldLen = Inr b"
    using assms(2) by (auto simp: canonicalPayload_def split: sum.splits)
  have form: "x = a @ be_bytes 4 (length v) @ v" if "appendField a v n = Inr x" for a v n x
    using that by (auto simp: appendField_def split: if_splits)
  have b1: "o1 @ be_bytes 4 (length target) @ target @ be_bytes 4 (length issuedAt) @ issuedAt = b"
    and b2: "p1 @ be_bytes 4 (length target') @ target' @ be_bytes 4 (length issuedAt') @ issuedAt' = b"
    using form [OF 1(2)] form [OF 1(3)] form [OF 2(2)] form [OF 2(3)] by simp_all
  from appendField_inject [OF 1(1) 2(1) refl b1 [folded b2]] have s: "scope = scope'" by simp
  with 1(1) 2(1) have o1: "o1 = p1" by simp
  have "o2 @ be_bytes 4 (length issuedAt) @ issuedAt = p2 @ be_bytes 4 (length issuedAt') @ issuedAt'"
    using form [OF 1(3)] form [OF 2(3)] by simp
  from appendField_inject [OF 1(2) 2(2) _ this] have t: "target = target'" using o1 by simp
  with 1(2) 2(2) o1 have "o2 = p2" by simp
  then have "issuedAt = issuedAt'"
    using appendField_inject [OF 1(3) 2(3), of "[]" "[]"] by simp
  moreover have "take (length domainTag) b = domainTag"
    using form [OF 1(1)] b1 by (simp add: b1 [symmetric])
  ultimately show ?thesis using s t by simp
qed

text \<open>
  C27: a signed revoke has one meaning. Whatever the three fields hold, two field triples with the same
  canonical bytes are the same triple, and the bytes carry the tag of this surface and revision. A
  field too long for its length prefix has no canonical bytes.
\<close>

theorem soar_payload_injective:
  assumes "canonicalPayload scope target issuedAt = Inr b" and "canonicalPayload scope' target' issuedAt' = Inr b"
  shows "scope = scope' \<and> target = target' \<and> issuedAt = issuedAt' \<and> take (length domainTag) b = domainTag"
  by (rule payload_fields [OF assms])

theorem soar_payload_injective_witness:
  "\<exists>b. canonicalPayload ''session'' ''k1'' ''2033-06-01T00:00:00Z'' = Inr b \<and> take (length domainTag) b = domainTag"
proof -
  obtain b where b: "canonicalPayload ''session'' ''k1'' ''2033-06-01T00:00:00Z'' = Inr b"
    by (simp add: canonicalPayload_def appendField_def maxFieldLen_def)
  from soar_payload_injective [OF b b] b show ?thesis by blast
qed

subsection \<open>No signature is admitted twice\<close>

text \<open>
  A request as it arrives: when, the three fields of the body, the signature. The bytes the signature
  covers are the canonical payload of these fields, and the guard gets the issuance of the same body,
  as the comments of \<open>canonicalPayload\<close> and of \<open>admit\<close> say; the fields are the sender's, so a captured
  signature may come back with any other fields. The route that decodes the body is not in the source.
\<close>

record presentation =
  pr_now :: time
  pr_scope :: string
  pr_target :: string
  pr_issuedAt :: string
  pr_sig :: string

definition signed_bytes :: "presentation \<Rightarrow> string result" where
  "signed_bytes p = canonicalPayload (pr_scope p) (pr_target p) (pr_issuedAt p)"

definition present :: "soar_verifier \<Rightarrow> presentation \<Rightarrow> replayGuard option \<Rightarrow> err option \<times> replayGuard option" where
  "present v p guard =
     (case signed_bytes p of Inl e \<Rightarrow> (Some e, guard)
      | Inr b \<Rightarrow> verifyThenAdmit (Some v) (pr_now p) (pr_issuedAt p) b (pr_sig p) guard)"

text \<open>What a gate with a guard accepts of a sequence of requests.\<close>

fun admitted :: "soar_verifier \<Rightarrow> presentation list \<Rightarrow> replayGuard \<Rightarrow> presentation list" where
  "admitted v [] g = []"
| "admitted v (p # ps) g =
     (case present v p (Some g) of
        (None, Some g') \<Rightarrow> p # admitted v ps g'
      | (_, Some g') \<Rightarrow> admitted v ps g'
      | (_, None) \<Rightarrow> [])"

lemma time_Sub_mono: "now \<le> now' \<Longrightarrow> time_Sub now t \<le> time_Sub now' t"
  by (auto simp: time_Sub_def)

text \<open>A signature is spent at an instant: remembered, or issued too long ago to be admitted again.\<close>

definition spent :: "replayGuard \<Rightarrow> time \<Rightarrow> string \<Rightarrow> string \<Rightarrow> bool" where
  "spent g now issuedAt sig \<longleftrightarrow>
     (\<exists>t. parse_rfc3339 issuedAt = Some t \<and> (rg_seen g (sha256 sig) = Some t \<or> rg_window g < time_Sub now t))"

lemma spent_refused:
  assumes "spent g now issuedAt sig" and "now \<le> now'" and "0 \<le> rg_window g"
  shows "fst (replayGuard_admit now' issuedAt sig g) \<noteq> None"
proof -
  from assms(1) obtain t where t: "parse_rfc3339 issuedAt = Some t"
      "rg_seen g (sha256 sig) = Some t \<or> rg_window g < time_Sub now t"
    by (auto simp: spent_def)
  consider "rg_window g < time_Sub now' t" | "rg_seen g (sha256 sig) = Some t" "\<not> rg_window g < time_Sub now' t"
    using t(2) time_Sub_mono [OF assms(2), of t] by linarith
  then show ?thesis
  proof cases
    case 1
    then have "rg_window g < skew_of now' t" using assms(3) by (simp add: skew_of_def Let_def)
    then show ?thesis using t(1) by (simp add: replayGuard_admit_def)
  next
    case 2
    then show ?thesis using t(1) by (simp add: replayGuard_admit_def evictLocked_def Let_def)
  qed
qed

lemma spent_step:
  assumes "spent g now issuedAt sig" and "now \<le> now'" and "replayGuard_admit now' i s g = (r, g')"
  shows "spent g' now' issuedAt sig"
proof -
  from assms(1) obtain t where t: "parse_rfc3339 issuedAt = Some t"
      "rg_seen g (sha256 sig) = Some t \<or> rg_window g < time_Sub now t"
    by (auto simp: spent_def)
  have w: "rg_window g' = rg_window g"
    using assms(3) by (auto simp: replayGuard_admit_def evictLocked_def Let_def split: option.splits if_splits)
  have "rg_window g < time_Sub now' t \<or> rg_seen g' (sha256 sig) = Some t"
    using t time_Sub_mono [OF assms(2), of t] assms(3)
    by (auto simp: replayGuard_admit_def evictLocked_def Let_def split: option.splits if_splits)
  then show ?thesis using t(1) w by (auto simp: spent_def)
qed

lemma admit_spends:
  assumes "replayGuard_admit now i s g = (None, g')"
  shows "spent g' now i s" and "rg_window g' = rg_window g"
  using assms by (auto simp: replayGuard_admit_def evictLocked_def spent_def Let_def split: option.splits if_splits)

lemma admit_window: "replayGuard_admit now i s g = (r, g') \<Longrightarrow> rg_window g' = rg_window g"
  by (auto simp: replayGuard_admit_def evictLocked_def Let_def split: option.splits if_splits)

definition verified :: "soar_verifier \<Rightarrow> presentation \<Rightarrow> bool" where
  "verified v p \<longleftrightarrow> (case signed_bytes p of Inl _ \<Rightarrow> False | Inr b \<Rightarrow> \<not> isl (v b (pr_sig p)))"

lemma admitted_cons:
  "admitted v (p # ps) g =
     (if \<not> verified v p then admitted v ps g
      else case replayGuard_admit (pr_now p) (pr_issuedAt p) (pr_sig p) g of
          (None, g') \<Rightarrow> p # admitted v ps g' | (Some e, g') \<Rightarrow> admitted v ps g')"
  by (auto simp: present_def verified_def verifyThenAdmit_def split: sum.split prod.split option.split)

declare admitted.simps(2) [simp del]

lemma admitted_verified: "p \<in> set (admitted v ps g) \<Longrightarrow> p \<in> set ps \<and> verified v p"
  by (induction ps arbitrary: g) (auto simp: admitted_cons split: if_splits prod.splits option.splits)

lemma spent_mono: "spent g now i s \<Longrightarrow> now \<le> now' \<Longrightarrow> spent g now' i s"
  unfolding spent_def using time_Sub_mono by (meson less_le_trans)

text \<open>Once spent, a signature is accepted afterwards only with another issuance.\<close>

lemma spent_never_admitted:
  assumes "spent g now i s" and "0 \<le> rg_window g" and "sorted (now # map pr_now ps)"
    and "q \<in> set (admitted v ps g)" and "pr_sig q = s"
  shows "pr_issuedAt q \<noteq> i"
  using assms(1-4)
proof (induction ps arbitrary: g now)
  case (Cons p ps)
  obtain r g' where st: "replayGuard_admit (pr_now p) (pr_issuedAt p) (pr_sig p) g = (r, g')" by fastforce
  have le: "now \<le> pr_now p" and so: "sorted (pr_now p # map pr_now ps)" using Cons.prems(3) by simp_all
  have w: "0 \<le> rg_window g'" using Cons.prems(2) admit_window [OF st] by simp
  consider "q \<in> set (admitted v ps g)" | "q \<in> set (admitted v ps g')" | "r = None" "q = p"
    using Cons.prems(4) st by (auto simp: admitted_cons split: if_splits option.splits)
  then show ?case
  proof cases
    case 1
    then show ?thesis using Cons.IH [OF spent_mono [OF Cons.prems(1) le] Cons.prems(2) so] by simp
  next
    case 2
    then show ?thesis using Cons.IH [OF spent_step [OF Cons.prems(1) le st] w so] by simp
  next
    case 3
    then show ?thesis using spent_refused [OF Cons.prems(1) le Cons.prems(2)] st assms(5) by auto
  qed
qed simp

text \<open>Two requests that one signature makes authentic, with different signed bytes.\<close>

definition signature_reused :: "soar_verifier \<Rightarrow> presentation \<Rightarrow> presentation \<Rightarrow> bool" where
  "signature_reused v p q \<longleftrightarrow> pr_sig p = pr_sig q \<and> signed_bytes p \<noteq> signed_bytes q \<and> verified v p \<and> verified v q"

lemma admitted_distinct:
  assumes "0 \<le> rg_window g" and "sorted (map pr_now ps)"
    and "\<And>p q. p \<in> set ps \<Longrightarrow> q \<in> set ps \<Longrightarrow> \<not> signature_reused v p q"
  shows "distinct (map pr_sig (admitted v ps g))"
  using assms
proof (induction ps arbitrary: g)
  case (Cons p ps)
  obtain r g' where st: "replayGuard_admit (pr_now p) (pr_issuedAt p) (pr_sig p) g = (r, g')" by fastforce
  have so: "sorted (map pr_now ps)" and le: "sorted (pr_now p # map pr_now ps)" using Cons.prems(2) by simp_all
  have w: "0 \<le> rg_window g'" using Cons.prems(1) admit_window [OF st] by simp
  have "pr_sig q \<noteq> pr_sig p" if r: "r = None" and v: "verified v p" and q: "q \<in> set (admitted v ps g')" for q
  proof
    assume s: "pr_sig q = pr_sig p"
    have "q \<in> set ps" "verified v q" using admitted_verified [OF q] by simp_all
    then have "signed_bytes p = signed_bytes q"
      using Cons.prems(3) [of p q] v s by (simp add: signature_reused_def)
    then obtain b where "signed_bytes p = Inr b" "signed_bytes q = Inr b"
      using v by (auto simp: verified_def split: sum.splits)
    then have "pr_issuedAt q = pr_issuedAt p" unfolding signed_bytes_def using payload_fields by blast
    then show False using spent_never_admitted [OF admit_spends(1) [OF st [unfolded r]] w le q s] by simp
  qed
  moreover have "distinct (map pr_sig (admitted v ps g))" "distinct (map pr_sig (admitted v ps g'))"
    using Cons.IH [OF Cons.prems(1) so] Cons.IH [OF w so] Cons.prems(3) by simp_all
  ultimately show ?case using st by (fastforce simp: admitted_cons split: option.splits)
qed simp

lemma verify_keys_Some: "verify_keys ed prs b s = Some i \<Longrightarrow> \<exists>pl \<in> set prs. \<exists>k \<in> set (PlKeys pl). ed k b s"
  by (induction prs) (auto simp: list_ex_iff split: if_splits)

text \<open>
  C12: no signature is admitted twice. Take any sequence of requests at non-decreasing instants, with
  any fields and signatures, so that a captured signature may be presented again, with the old fields
  or re-dated or re-aimed with new ones. The signatures of the requests the gate accepts are pairwise
  distinct, whatever the guard evicted in between; or two of the requests show one signature that the
  configured keys accept over two different byte strings, which is what the signature scheme excludes.
\<close>

theorem soar_admitted_once:
  assumes "0 \<le> rg_window g" and "sorted (map pr_now ps)"
  shows "distinct (map pr_sig (admitted (Verifier_Verify ed prs) ps g)) \<or>
    (\<exists>p q b b' pl pl' k k'. {p, q} \<subseteq> set ps \<and> pr_sig p = pr_sig q \<and>
      canonicalPayload (pr_scope p) (pr_target p) (pr_issuedAt p) = Inr b \<and>
      canonicalPayload (pr_scope q) (pr_target q) (pr_issuedAt q) = Inr b' \<and> b \<noteq> b' \<and>
      {pl, pl'} \<subseteq> set prs \<and> k \<in> set (PlKeys pl) \<and> k' \<in> set (PlKeys pl') \<and> ed k b (pr_sig p) \<and> ed k' b' (pr_sig q))"
proof (cases "\<exists>p \<in> set ps. \<exists>q \<in> set ps. signature_reused (Verifier_Verify ed prs) p q")
  case True
  then obtain p q where pq: "p \<in> set ps" "q \<in> set ps" "signature_reused (Verifier_Verify ed prs) p q" by blast
  have v: "\<exists>b. signed_bytes x = Inr b \<and> (\<exists>pl \<in> set prs. \<exists>k \<in> set (PlKeys pl). ed k b (pr_sig x))"
    if "verified (Verifier_Verify ed prs) x" for x
    using that verify_keys_Some [of ed prs]
    by (auto simp: verified_def Verifier_Verify_def split: sum.splits option.splits if_splits)
  have "verified (Verifier_Verify ed prs) p" "verified (Verifier_Verify ed prs) q" "signed_bytes p \<noteq> signed_bytes q" "pr_sig p = pr_sig q"
    using pq(3) by (simp_all add: signature_reused_def)
  with v [of p] v [of q] pq(1,2) show ?thesis unfolding signed_bytes_def
    by (metis empty_subsetI insert_subset)
next
  case False
  then have "distinct (map pr_sig (admitted (Verifier_Verify ed prs) ps g))"
    by (intro admitted_distinct [OF assms]) blast
  then show ?thesis ..
qed

definition demo_ed :: ed25519 where
  "demo_ed k payload sig = (sig = replicate 64 (CHR ''s'') \<and> k = replicate 32 (CHR ''k'') \<and>
     Inr payload = canonicalPayload ''session'' ''k1'' ''2026-01-01T00:00:00Z'')"

definition demo_responder :: Principal where
  "demo_responder = \<lparr>PlName = ''responder'', PlTenant = ''acme'', PlKeys = [replicate 32 (CHR ''k'')]\<rparr>"

definition demo_revoke :: "time \<Rightarrow> presentation" where
  "demo_revoke now = \<lparr>pr_now = now, pr_scope = ''session'', pr_target = ''k1'', pr_issuedAt = ''2026-01-01T00:00:00Z'',
     pr_sig = replicate 64 (CHR ''s'')\<rparr>"

lemma demo_revoke_time: "parse_rfc3339 ''2026-01-01T00:00:00Z'' = Some 63902822400000000000"
  by code_simp

lemma demo_revoke_verified: "verified (Verifier_Verify demo_ed [demo_responder]) (demo_revoke now)"
proof -
  obtain b where "canonicalPayload ''session'' ''k1'' ''2026-01-01T00:00:00Z'' = Inr b"
    by (simp add: canonicalPayload_def appendField_def maxFieldLen_def)
  then show ?thesis by (simp add: verified_def signed_bytes_def demo_revoke_def Verifier_Verify_def demo_ed_def demo_responder_def)
qed

lemma demo_revoke_first:
  "admitted (Verifier_Verify demo_ed [demo_responder]) (demo_revoke 63902822460000000000 # ps) (newReplayGuard defaultSOARReplayWindow) =
   demo_revoke 63902822460000000000 # admitted (Verifier_Verify demo_ed [demo_responder]) ps
     (snd (replayGuard_admit 63902822460000000000 ''2026-01-01T00:00:00Z'' (replicate 64 (CHR ''s'')) (newReplayGuard defaultSOARReplayWindow)))"
  using demo_revoke_verified [of 63902822460000000000]
  by (simp add: admitted_cons demo_revoke_def replayGuard_admit_def
      demo_revoke_time skew_of_def time_Sub_def newReplayGuard_def defaultSOARReplayWindow_def evictLocked_def
      int64_min_def int64_max_def)

text \<open>The same request again, and an hour later re-dated: neither is accepted.\<close>

theorem soar_admitted_once_witness:
  "let p = demo_revoke 63902822460000000000; q = (demo_revoke 63902826060000000000)\<lparr>pr_issuedAt := ''2026-01-01T01:01:00Z''\<rparr> in
   admitted (Verifier_Verify demo_ed [demo_responder]) [p, p, q] (newReplayGuard defaultSOARReplayWindow) = [p]"
proof -
  let ?p = "demo_revoke 63902822460000000000" and ?g = "newReplayGuard defaultSOARReplayWindow"
  let ?q = "(demo_revoke 63902826060000000000)\<lparr>pr_issuedAt := ''2026-01-01T01:01:00Z''\<rparr>"
  let ?v = "Verifier_Verify demo_ed [demo_responder]"
  define rest where "rest = admitted ?v [?p, ?q] (snd (replayGuard_admit 63902822460000000000 ''2026-01-01T00:00:00Z''
    (replicate 64 (CHR ''s'')) ?g))"
  have "0 \<le> rg_window ?g" "sorted (map pr_now [?p, ?p, ?q])"
    by (simp_all add: newReplayGuard_def defaultSOARReplayWindow_def demo_revoke_def)
  from soar_admitted_once [OF this, of demo_ed "[demo_responder]"]
  have "distinct (map pr_sig (admitted ?v [?p, ?p, ?q] ?g))" unfolding demo_ed_def by (metis Inr_inject)
  then have d: "distinct (map pr_sig (?p # rest))" by (simp add: demo_revoke_first rest_def)
  have "pr_sig x = pr_sig ?p" if "x \<in> set rest" for x
    using admitted_verified [OF that [unfolded rest_def]] by (auto simp: demo_revoke_def)
  with d have "rest = []" by (cases rest) auto
  then show ?thesis by (simp add: Let_def demo_revoke_first rest_def)
qed

subsection \<open>The window, exactly\<close>

lemma wrap64_min: "wrap64 (- int64_min) = int64_min"
  by (simp add: wrap64_def int64_min_def)

lemma skew_wraps:
  assumes "now - t \<le> int64_min"
  shows "skew_of now t = int64_min"
proof -
  have "time_Sub now t = int64_min" using assms by (simp add: time_Sub_def int64_min_def int64_max_def)
  moreover have "int64_min < 0" by (simp add: int64_min_def)
  ultimately show ?thesis by (simp add: skew_of_def wrap64_min)
qed

lemma skew_abs:
  assumes "int64_min < now - t" and "now - t \<le> int64_max"
  shows "skew_of now t = \<bar>now - t\<bar>"
proof -
  have "wrap64 (- (now - t)) = - (now - t)" if "now - t < 0"
    using assms that unfolding wrap64_def int64_min_def int64_max_def by (simp add: mod_pos_pos_trivial)
  then show ?thesis using assms by (auto simp: skew_of_def time_Sub_def Let_def)
qed

lemma skew_late: "int64_max < now - t \<Longrightarrow> skew_of now t = int64_max"
  by (simp add: skew_of_def time_Sub_def int64_max_def int64_min_def)

text \<open>
  C28: what the replay guard admits, exactly. A text that is not an RFC 3339 instant is refused. An
  instant within the 64-bit range of nanoseconds is admitted when it is at most the window away from
  the present, before or after, and its signature is not remembered. An instant more than that range
  ahead of the present, about 292 years, is admitted as well: the difference saturates at the most
  negative duration, whose negation is itself, so that the skew is negative and below every window.
\<close>

theorem soar_window_wraps:
  assumes "0 \<le> rg_window g" and "rg_window g < int64_max"
  shows "fst (replayGuard_admit now issuedAt sig g) = None \<longleftrightarrow>
    (\<exists>t. parse_rfc3339 issuedAt = Some t
      \<and> (\<bar>now - t\<bar> \<le> rg_window g \<or> now - t \<le> int64_min)
      \<and> (case rg_seen g (sha256 sig) of None \<Rightarrow> True | Some i \<Rightarrow> rg_window g < time_Sub now i))"
proof (cases "parse_rfc3339 issuedAt")
  case None
  then show ?thesis by (simp add: replayGuard_admit_def)
next
  case (Some t)
  consider "now - t \<le> int64_min" | "int64_min < now - t" "now - t \<le> int64_max" | "int64_max < now - t" by linarith
  then have "\<not> rg_window g < skew_of now t \<longleftrightarrow> \<bar>now - t\<bar> \<le> rg_window g \<or> now - t \<le> int64_min"
  proof cases
    case 1
    then show ?thesis using assms by (simp add: skew_wraps int64_min_def)
  next
    case 2
    then show ?thesis by (auto simp: skew_abs)
  next
    case 3
    then show ?thesis using assms by (auto simp: skew_late int64_min_def int64_max_def)
  qed
  moreover have "rg_seen (evictLocked now g) (sha256 sig) = None \<longleftrightarrow>
      (case rg_seen g (sha256 sig) of None \<Rightarrow> True | Some i \<Rightarrow> rg_window g < time_Sub now i)"
    by (simp add: evictLocked_def split: option.split)
  moreover have "fst (replayGuard_admit now issuedAt sig g) = None \<longleftrightarrow>
      \<not> rg_window g < skew_of now t \<and> rg_seen (evictLocked now g) (sha256 sig) = None"
    using Some by (simp add: replayGuard_admit_def Let_def)
  ultimately show ?thesis by (simp only: Some option.inject) blast
qed

theorem soar_window_wraps_witness:
  "fst (replayGuard_admit 63902822400000000000 ''2400-01-01T00:00:00Z'' ''sig'' (newReplayGuard defaultSOARReplayWindow)) = None"
proof -
  have t: "parse_rfc3339 ''2400-01-01T00:00:00Z'' = Some 75705062400000000000" by code_simp
  have "0 \<le> rg_window (newReplayGuard defaultSOARReplayWindow)"
    "rg_window (newReplayGuard defaultSOARReplayWindow) < int64_max"
    by (simp_all add: newReplayGuard_def defaultSOARReplayWindow_def int64_max_def)
  from soar_window_wraps [OF this, of 63902822400000000000 "''2400-01-01T00:00:00Z''" "''sig''"] t
  show ?thesis by (simp add: newReplayGuard_def int64_min_def)
qed

end
