(* ===== verification/Json_Indent.thy ===== *)
theory Json_Indent
  imports Json
begin

text \<open>
  Two more forms of JSON text: \<open>json.MarshalIndent\<close> with no prefix and two blanks per level, and byte
  slices, which \<open>encoding/json\<close> writes as strings in the standard base64 alphabet. What is written is
  read back: by the reader of whole texts, and by the base64 decoder.
\<close>

subsection \<open>Indented text\<close>

definition nl :: "nat \<Rightarrow> string" where
  "nl d = char_of (10::nat) # replicate (2 * d) CHR '' ''"

fun join :: "string \<Rightarrow> string list \<Rightarrow> string" where
  "join sep [] = []"
| "join sep [t] = t"
| "join sep (t # ts) = t @ sep @ join sep ts"

text \<open>A bracketed, indented sequence; an empty one has no line breaks.\<close>

definition bracket :: "char \<Rightarrow> char \<Rightarrow> nat \<Rightarrow> string list \<Rightarrow> string" where
  "bracket a b d ts =
     (if ts = [] then [a, b] else a # nl (Suc d) @ join (CHR '','' # nl (Suc d)) ts @ nl d @ [b])"

fun json_indent :: "nat \<Rightarrow> json \<Rightarrow> string" where
  "json_indent d JNull = ''null''"
| "json_indent d (JBool b) = (if b then ''true'' else ''false'')"
| "json_indent d (JNum l) = l"
| "json_indent d (JStr s) = json_quote s"
| "json_indent d (JArr vs) = bracket (CHR ''['') (CHR '']'') d (map (json_indent (Suc d)) vs)"
| "json_indent d (JObj kvs) =
     bracket (CHR ''{'') (CHR ''}'') d (map (\<lambda>(k, v). json_quote k @ '': '' @ json_indent (Suc d) v) kvs)"

definition MarshalIndent :: "json \<Rightarrow> string" where
  "MarshalIndent v = json_indent 0 v"

subsection \<open>White space does not matter\<close>

lemma skip_ws_append [simp]: "list_all is_ws w \<Longrightarrow> skip_ws (w @ s) = skip_ws s"
  by (induction w) auto

lemma expect_ws [simp]: "list_all is_ws w \<Longrightarrow> expect c (w @ s) = expect c s"
  by (simp add: expect_def)

lemma read_value_ws: "list_all is_ws w \<Longrightarrow> read_value n (w @ s) = read_value n s"
  by (cases n) (simp_all cong: option.case_cong)

lemma read_elems_ws: "list_all is_ws w \<Longrightarrow> read_elems n (w @ s) = read_elems n s"
proof (cases n)
  case (Suc m)
  assume "list_all is_ws w"
  then show ?thesis unfolding Suc read_elems.simps(2) by (simp only: read_value_ws)
qed simp

lemma read_members_ws: "list_all is_ws w \<Longrightarrow> read_members n (w @ s) = read_members n s"
  by (cases n) simp_all

lemma ws_nl [simp]: "list_all is_ws (nl d)"
  by (simp add: nl_def is_ws_def list_all_iff)

lemma delim_ws: "list_all is_ws w \<Longrightarrow> delim x \<Longrightarrow> delim (w @ x)"
  by (cases w) (auto simp: delim_def is_ws_def is_digit_def)

lemma delim_nl: "delim x \<Longrightarrow> delim (nl d @ x)"
  by (rule delim_ws) simp_all

abbreviation spaced_member :: "string \<times> string \<Rightarrow> string" where
  "spaced_member \<equiv> \<lambda>(k, t). json_quote k @ '': '' @ t"

lemma read_spaced_member:
  assumes "valid_utf8 k" and "reads t v" and "delim x" and "length t \<le> n"
  shows "read_members (Suc n) (spaced_member (k, t) @ x) =
    (case expect (CHR '','') x of
       Some r4 \<Rightarrow> (case read_members n r4 of None \<Rightarrow> None | Some (ms, r5) \<Rightarrow> Some ((k, t, v) # ms, r5))
     | None \<Rightarrow> (case expect (CHR ''}'') x of Some r4 \<Rightarrow> Some ([(k, t, v)], r4) | None \<Rightarrow> None))"
proof -
  have blank: "is_ws CHR '' ''" by (simp add: is_ws_def)
  have ws: "skip_ws (t @ x) = t @ x" using reads_front [OF assms(2)] by auto
  have "read_value n (t @ x) = Some (v, x)" using assms(4) by (intro reads_value [OF assms(2,3)]) simp
  then show ?thesis
    by (simp add: json_quote_def unquote_escape utf8_fix_valid [OF assms(1)] ws blank split: option.splits)
qed

lemma read_spaced_members:
  assumes "\<And>k t v. (k, t, v) \<in> set ms \<Longrightarrow> valid_utf8 k \<and> reads t v" and "ms \<noteq> []"
    and "list_all is_ws w" and "list_all is_ws w'"
    and "length (join (CHR '','' # w) (map (\<lambda>(k, t, v). spaced_member (k, t)) ms)) < n"
  shows "read_members n (join (CHR '','' # w) (map (\<lambda>(k, t, v). spaced_member (k, t)) ms) @ w' @ CHR ''}'' # x) = Some (ms, x)"
  using assms
proof (induction ms arbitrary: n)
  case (Cons m ms)
  obtain k t v where m: "m = (k, t, v)" by (cases m)
  from Cons.prems(1) have kt: "valid_utf8 k" "reads t v" by (auto simp: m)
  obtain n' where n: "n = Suc n'" using Cons.prems(5) by (cases n) auto
  show ?case
  proof (cases ms)
    case Nil
    then show ?thesis
      using Cons.prems(4,5) read_spaced_member [OF kt, of "w' @ CHR ''}'' # x" n'] by (simp add: m n delim_ws)
  next
    case (Cons m' ms')
    let ?t = "join (CHR '','' # w) (map (\<lambda>(k, t, v). spaced_member (k, t)) ms)"
    have c: "join (CHR '','' # w) (map (\<lambda>(k, t, v). spaced_member (k, t)) (m # ms)) = spaced_member (k, t) @ CHR '','' # w @ ?t"
      by (simp add: m Cons)
    have "read_members n' (?t @ w' @ CHR ''}'' # x) = Some (ms, x)"
      using Cons.prems c n by (intro Cons.IH) (auto simp: Cons)
    then have "read_members n' (w @ ?t @ w' @ CHR ''}'' # x) = Some (ms, x)" using Cons.prems(3) by (simp add: read_members_ws)
    then show ?thesis
      using Cons.prems(5) read_spaced_member [OF kt, of "CHR '','' # w @ ?t @ w' @ CHR ''}'' # x" n'] c by (simp add: m n)
  qed
qed simp

lemma read_spaced_elems:
  assumes "list_all2 reads ts vs" and "ts \<noteq> []" and "list_all is_ws w" and "list_all is_ws w'"
    and "length (join (CHR '','' # w) ts) < n"
  shows "read_elems n (join (CHR '','' # w) ts @ w' @ CHR '']'' # x) = Some (vs, x)"
  using assms
proof (induction ts arbitrary: n vs)
  case (Cons t ts)
  from Cons.prems(1) obtain v vs' where v: "vs = v # vs'" "reads t v" "list_all2 reads ts vs'"
    by (auto simp: list_all2_Cons1)
  obtain n' where n: "n = Suc n'" using Cons.prems(5) by (cases n) auto
  show ?case
  proof (cases ts)
    case Nil
    have "read_value n' (t @ w' @ CHR '']'' # x) = Some (v, w' @ CHR '']'' # x)"
      using Cons.prems(4,5) by (intro reads_value [OF v(2)] delim_ws) (simp_all add: Nil n)
    then show ?thesis using v Cons.prems(4) by (simp add: Nil n)
  next
    case (Cons t' ts')
    have c: "join (CHR '','' # w) (t # ts) = t @ CHR '','' # w @ join (CHR '','' # w) ts" by (simp add: Cons)
    have "read_value n' (t @ CHR '','' # w @ join (CHR '','' # w) ts @ w' @ CHR '']'' # x) =
        Some (v, CHR '','' # w @ join (CHR '','' # w) ts @ w' @ CHR '']'' # x)"
      using Cons.prems(5) c n by (intro reads_value [OF v(2)]) simp_all
    moreover have "read_elems n' (join (CHR '','' # w) ts @ w' @ CHR '']'' # x) = Some (vs', x)"
      using Cons.prems(3-5) c n v(3) by (intro Cons.IH) (simp_all add: Cons)
    ultimately show ?thesis using Cons.prems(3) by (simp add: c n v(1) read_elems_ws)
  qed
qed simp

subsection \<open>Reading indented text\<close>

lemma join_front: "ts \<noteq> [] \<Longrightarrow> hd ts = c # s \<Longrightarrow> \<exists>s'. join sep ts = c # s'"
  by (cases ts; cases "tl ts") auto

lemma reads_indent_arr:
  assumes "list_all2 reads ts vs"
  shows "reads (bracket (CHR ''['') (CHR '']'') d ts) (JArr vs)"
proof (cases "ts = []")
  case True
  then show ?thesis using assms by (auto simp: reads_def bracket_def intro!: exI [of _ "Suc 0"])
next
  case False
  let ?j = "join (CHR '','' # nl (Suc d)) ts"
  obtain v where "reads (hd ts) v" using assms False by (cases ts) (auto simp: list_all2_Cons1)
  then obtain c s where c: "?j = c # s" "\<not> is_ws c" "c \<noteq> CHR '']''"
    using reads_front join_front [OF False] by metis
  have "read_value (Suc (Suc (length ?j))) (bracket (CHR ''['') (CHR '']'') d ts @ x) = Some (JArr vs, x)" for x
  proof -
    have "read_elems (Suc (length ?j)) (nl (Suc d) @ ?j @ nl d @ CHR '']'' # x) = Some (vs, x)"
      using read_spaced_elems [OF assms False, of "nl (Suc d)" "nl d" "Suc (length ?j)" x] by (simp add: read_elems_ws del: read_elems.simps)
    moreover have "expect (CHR '']'') (nl (Suc d) @ ?j @ nl d @ CHR '']'' # x) = None" using c by simp
    ultimately show ?thesis using False
      by (subst read_value.simps) (simp add: bracket_def del: read_elems.simps)
  qed
  then show ?thesis unfolding reads_def using False
    by (auto simp: bracket_def intro!: exI [of _ "Suc (Suc (length ?j))"])
qed

lemma reads_indent_obj:
  assumes "\<And>k t v. (k, t, v) \<in> set ms \<Longrightarrow> valid_utf8 k \<and> reads t v"
  shows "reads (bracket (CHR ''{'') (CHR ''}'') d (map (\<lambda>(k, t, v). spaced_member (k, t)) ms)) (JObj (map (\<lambda>(k, t, v). (k, v)) ms))"
proof (cases "ms = []")
  case True
  then show ?thesis by (auto simp: reads_def bracket_def intro!: exI [of _ "Suc 0"])
next
  case False
  let ?ts = "map (\<lambda>(k, t, v). spaced_member (k, t)) ms"
  let ?j = "join (CHR '','' # nl (Suc d)) ?ts"
  have "hd ?ts = dquote # tl (hd ?ts)" using False by (cases ms) (auto simp: json_quote_def)
  then obtain s where c: "?j = dquote # s" using join_front [of ?ts] False by blast
  have "read_value (Suc (Suc (length ?j))) (bracket (CHR ''{'') (CHR ''}'') d ?ts @ x) =
      Some (JObj (map (\<lambda>(k, t, v). (k, v)) ms), x)" for x
  proof -
    have "read_members (Suc (length ?j)) (nl (Suc d) @ ?j @ nl d @ CHR ''}'' # x) = Some (ms, x)"
      using read_spaced_members [OF assms False, of "nl (Suc d)" "nl d" "Suc (length ?j)" x]
      by (simp add: read_members_ws del: read_members.simps)
    moreover have "expect (CHR ''}'') (nl (Suc d) @ ?j @ nl d @ CHR ''}'' # x) = None" using c by simp
    ultimately show ?thesis using False
      by (subst read_value.simps) (simp add: bracket_def del: read_members.simps)
  qed
  then show ?thesis unfolding reads_def using False
    by (auto simp: bracket_def intro!: exI [of _ "Suc (Suc (length ?j))"])
qed

lemma reads_indent: "json_ok v \<Longrightarrow> reads (json_indent d v) (json_norm v)"
proof (induction d v rule: json_indent.induct)
  case (5 d vs)
  then have "list_all2 reads (map (json_indent (Suc d)) vs) (map json_norm vs)"
    by (auto simp: list_all2_conv_all_nth list_all_length)
  then show ?case by (simp add: reads_indent_arr)
next
  case (6 d kvs)
  let ?ms = "map (\<lambda>(k, v). (k, json_indent (Suc d) v, json_norm v)) kvs"
  have "reads (bracket (CHR ''{'') (CHR ''}'') d (map (\<lambda>(k, t, v). spaced_member (k, t)) ?ms)) (JObj (map (\<lambda>(k, t, v). (k, v)) ?ms))"
    using "6.IH" "6.prems" by (intro reads_indent_obj) (auto simp: list_all_iff)
  then show ?case by (simp add: comp_def case_prod_unfold)
qed (simp_all add: reads_word reads_num reads_quote)

lemma parse_indent:
  assumes "json_ok v" and "list_all is_ws w"
  shows "json_parse (MarshalIndent v @ w) = Some (json_norm v)"
proof -
  have "delim w" using delim_ws [OF assms(2), of "[]"] by simp
  then have "read_value (Suc (length (MarshalIndent v @ w))) (MarshalIndent v @ w) = Some (json_norm v, w)"
    unfolding MarshalIndent_def by (intro reads_value [OF reads_indent [OF assms(1)]]) simp_all
  moreover have "skip_ws w = []" using skip_ws_append [OF assms(2), of "[]"] by simp
  ultimately show ?thesis unfolding json_parse_def by simp
qed

subsection \<open>Base64\<close>

definition b64_char :: "nat \<Rightarrow> char" where
  "b64_char n =
     char_of (if n < 26 then 65 + n else if n < 52 then 71 + n else if n < 62 then n - 4
              else if n = 62 then 43 else (47::nat))"

definition b64_val :: "char \<Rightarrow> nat option" where
  "b64_val c =
     (let b = byte c in
      if 65 \<le> b \<and> b \<le> 90 then Some (b - 65) else if 97 \<le> b \<and> b \<le> 122 then Some (b - 71)
      else if 48 \<le> b \<and> b \<le> 57 then Some (b + 4) else if b = 43 then Some 62
      else if b = 47 then Some 63 else None)"

fun b64_encode :: "string \<Rightarrow> string" where
  "b64_encode [] = []"
| "b64_encode [a] = [b64_char (byte a div 4), b64_char (byte a mod 4 * 16), CHR ''='', CHR ''='']"
| "b64_encode [a, b] =
     [b64_char (byte a div 4), b64_char (byte a mod 4 * 16 + byte b div 16), b64_char (byte b mod 16 * 4), CHR ''='']"
| "b64_encode (a # b # c # s) =
     b64_char (byte a div 4) # b64_char (byte a mod 4 * 16 + byte b div 16) #
     b64_char (byte b mod 16 * 4 + byte c div 64) # b64_char (byte c mod 64) # b64_encode s"

text \<open>
  \<open>StdEncoding.DecodeString\<close> ignores line breaks; the padding ends the text, and the bits that the
  last character before it has too many are not looked at.
\<close>

fun b64_quads :: "string \<Rightarrow> string option" where
  "b64_quads [] = Some []"
| "b64_quads (a # b # c # d # s) =
     (case (b64_val a, b64_val b) of
        (Some w, Some x) \<Rightarrow>
          if c = CHR ''='' then
            if d = CHR ''='' \<and> s = [] then Some [char_of (w * 4 + x div 16)] else None
          else (case b64_val c of None \<Rightarrow> None | Some y \<Rightarrow>
            if d = CHR ''='' then
              if s = [] then Some [char_of (w * 4 + x div 16), char_of (x mod 16 * 16 + y div 4)] else None
            else (case (b64_val d, b64_quads s) of
                (Some z, Some r) \<Rightarrow>
                  Some (char_of (w * 4 + x div 16) # char_of (x mod 16 * 16 + y div 4) # char_of (y mod 4 * 64 + z) # r)
              | _ \<Rightarrow> None))
      | _ \<Rightarrow> None)"
| "b64_quads _ = None"

definition b64_decode :: "string \<Rightarrow> string option" where
  "b64_decode s = b64_quads (filter (\<lambda>c. byte c \<noteq> 10 \<and> byte c \<noteq> 13) s)"

lemma b64_val_char:
  assumes "n < 64"
  shows "b64_val (b64_char n) = Some n" and "b64_char n \<noteq> CHR ''=''" and "byte (b64_char n) \<noteq> 10"
    and "byte (b64_char n) \<noteq> 13" and "byte (b64_char n) < 128" 
  using assms by (auto simp: b64_val_def b64_char_def Let_def char_byte_eq)

lemma b64_quads_encode: "b64_quads (b64_encode s) = Some s"
proof (induction s rule: b64_encode.induct)
  case (2 a)
  have "byte a div 4 * 4 + byte a mod 4 = byte a" by simp
  then show ?case
    using byte_less [of a] by (simp add: b64_val_char less_mult_imp_div_less)
next
  case (3 a b)
  have "byte a div 4 < 64" "byte b div 16 < 16" using byte_less [of a] byte_less [of b] by (auto simp: less_mult_imp_div_less)
  moreover have "byte a mod 4 * 16 + byte b div 16 < 64" using calculation(2) mod_less_divisor [of 4 "byte a"] by linarith
  moreover have "byte b mod 16 * 4 < 64" using mod_less_divisor [of 16 "byte b"] by linarith
  ultimately show ?case by (simp add: b64_val_char)
next
  case (4 a b c s)
  have d: "byte a div 4 < 64" "byte b div 16 < 16" "byte c div 64 < 4"
    using byte_less [of a] byte_less [of b] byte_less [of c] by (auto simp: less_mult_imp_div_less)
  moreover have "byte a mod 4 * 16 + byte b div 16 < 64" using d(2) mod_less_divisor [of 4 "byte a"] by linarith
  moreover have "byte b mod 16 * 4 + byte c div 64 < 64" using d(3) mod_less_divisor [of 16 "byte b"] by linarith
  ultimately show ?case using 4 by (simp add: b64_val_char)
qed simp

lemma b64_encode_chars: "c \<in> set (b64_encode s) \<Longrightarrow> byte c \<noteq> 10 \<and> byte c \<noteq> 13 \<and> byte c < 128"
proof (induction s rule: b64_encode.induct)
  case (4 a b d s)
  have "byte a div 4 < 64" "byte b div 16 < 16" "byte d div 64 < 4"
    using byte_less [of a] byte_less [of b] byte_less [of d] by (auto simp: less_mult_imp_div_less)
  moreover have "byte a mod 4 * 16 + byte b div 16 < 64" using calculation(2) mod_less_divisor [of 4 "byte a"] by linarith
  moreover have "byte b mod 16 * 4 + byte d div 64 < 64" using calculation(3) mod_less_divisor [of 16 "byte b"] by linarith
  moreover have "byte d mod 64 < 64" by simp
  ultimately show ?case using 4 b64_val_char(3-5) by auto
next
  case (2 a)
  have "byte a div 4 < 64" "byte a mod 4 * 16 < 64"
    using byte_less [of a] mod_less_divisor [of 4 "byte a"] by (auto simp: less_mult_imp_div_less)
  then show ?case using 2 b64_val_char(3-5) by auto
next
  case (3 a b)
  have "byte a div 4 < 64" "byte b div 16 < 16" using byte_less [of a] byte_less [of b] by (auto simp: less_mult_imp_div_less)
  moreover have "byte a mod 4 * 16 + byte b div 16 < 64" using calculation(2) mod_less_divisor [of 4 "byte a"] by linarith
  moreover have "byte b mod 16 * 4 < 64" using mod_less_divisor [of 16 "byte b"] by linarith
  ultimately show ?case using 3 b64_val_char(3-5) by auto
qed simp

lemma b64_decode_encode [simp]: "b64_decode (b64_encode s) = Some s"
proof -
  have "filter (\<lambda>c. byte c \<noteq> 10 \<and> byte c \<noteq> 13) (b64_encode s) = b64_encode s"
    using b64_encode_chars by (intro filter_True) auto
  then show ?thesis by (simp add: b64_decode_def b64_quads_encode)
qed

end
