(* ===== verification/Mcpkey.thy ===== *)
theory Mcpkey
  imports Killswitch Sha256 Instants Json_Indent
begin

text \<open>
  The MCP API keys of \<open>internal/mcpkey\<close>: minting by rejection sampling (\<open>mint.go\<close>), the redacting
  secret (\<open>secretkey.go\<close>), the salted record (\<open>record.go\<close>), the record store with its in-memory and
  its Postgres implementation (\<open>store.go\<close>, \<open>postgres/store.go\<close>) and the operator engine
  (\<open>engine.go\<close>). Random bytes, the clock and the audit sink are answers of the environment. Shown:
  every key body is equally likely and there are more than \<open>2\<^sup>2\<^sup>5\<^sup>6\<close> of them; nothing is stored before
  its audit record is accepted; and the two stores answer alike.
\<close>

abbreviation ErrMcpScopeInvalid :: sentinel where "ErrMcpScopeInvalid \<equiv> Named ''mcpkey: operator scope invalid''"
abbreviation ErrTenantMissing :: sentinel where "ErrTenantMissing \<equiv> Named ''mcpkey: tenant is required''"
abbreviation ErrDeploymentMissing :: sentinel where "ErrDeploymentMissing \<equiv> Named ''mcpkey: deployment is required''"
abbreviation ErrTenantTooLong :: sentinel where "ErrTenantTooLong \<equiv> Named ''mcpkey: tenant too long''"
abbreviation ErrDeploymentTooLong :: sentinel where "ErrDeploymentTooLong \<equiv> Named ''mcpkey: deployment too long''"
abbreviation ErrUnsalted :: sentinel where "ErrUnsalted \<equiv> Named ''mcpkey: unsalted''"
abbreviation ErrRecordNotFound :: sentinel where "ErrRecordNotFound \<equiv> Named ''mcpkey: record not found''"
abbreviation ErrMcpUnavailable :: sentinel where "ErrMcpUnavailable \<equiv> Named ''mcpkey: backing store unavailable''"

subsection \<open>The secret\<close>

record SecretKey =
  sk_raw :: string

definition secretKeyRedaction :: string where "secretKeyRedaction = ''SecretKey(REDACTED)''"

definition SecretKey_String :: "SecretKey \<Rightarrow> string" where "SecretKey_String k = secretKeyRedaction"
definition SecretKey_GoString :: "SecretKey \<Rightarrow> string" where "SecretKey_GoString k = secretKeyRedaction"
definition SecretKey_Format :: "SecretKey \<Rightarrow> char \<Rightarrow> string" where "SecretKey_Format k verb = secretKeyRedaction"
definition SecretKey_LogValue :: "SecretKey \<Rightarrow> string" where "SecretKey_LogValue k = secretKeyRedaction"
definition SecretKey_MarshalJSON :: "SecretKey \<Rightarrow> string" where "SecretKey_MarshalJSON k = json_quote secretKeyRedaction"
definition SecretKey_MarshalText :: "SecretKey \<Rightarrow> string" where "SecretKey_MarshalText k = secretKeyRedaction"
definition SecretKey_IsZero :: "SecretKey \<Rightarrow> bool" where "SecretKey_IsZero k \<longleftrightarrow> sk_raw k = ''''"
definition SecretKey_Reveal :: "SecretKey \<Rightarrow> string" where "SecretKey_Reveal k = sk_raw k"
definition newSecretKey :: "string \<Rightarrow> SecretKey" where "newSecretKey raw = \<lparr>sk_raw = raw\<rparr>"

subsection \<open>Minting\<close>

definition base62Alphabet :: string where
  "base62Alphabet = ''0123456789ABCDEFGHIJKLMNOPQRSTUVWXYZabcdefghijklmnopqrstuvwxyz''"

definition base62Width :: nat where "base62Width = 43"
definition rejectThreshold :: nat where "rejectThreshold = 248"
definition skPrefix :: string where "skPrefix = ''sk-ocu-''"
definition randScratchSize :: nat where "randScratchSize = 64"

definition base62_char :: "char \<Rightarrow> char" where
  "base62_char b = base62Alphabet ! (byte b div 4)"

fun sample :: "string \<Rightarrow> string \<Rightarrow> string" where
  "sample [] out = out"
| "sample (b # bs) out =
     (if rejectThreshold \<le> byte b then sample bs out
      else let out' = out @ [base62_char b] in if length out' = base62Width then out' else sample bs out')"

text \<open>
  The entropy source answers each read with an error or with the bytes it read, at most a scratch
  buffer of them. The loop ends only when enough bytes have been accepted, so it need not end.
\<close>

type_synonym entropy = "nat \<Rightarrow> string result"

partial_function (option) encodeBase62 :: "entropy \<Rightarrow> nat \<Rightarrow> string \<Rightarrow> string result option" where
  "encodeBase62 rd i out =
     (if length out < base62Width then
        (case rd i of Inl e \<Rightarrow> Some (Inl e)
         | Inr bs \<Rightarrow>
             if length bs < randScratchSize then Some (Inl [Dynamic ''entropy source short read''])
             else encodeBase62 rd (Suc i) (sample (take randScratchSize bs) out))
      else Some (Inr out))"

declare encodeBase62.simps [code]

definition Minter_Mint :: "entropy \<Rightarrow> SecretKey result option" where
  "Minter_Mint rd =
     (case encodeBase62 rd 0 '''' of None \<Rightarrow> None
      | Some (Inl e) \<Rightarrow> Some (Inl e)
      | Some (Inr body) \<Rightarrow> Some (Inr (newSecretKey (skPrefix @ body))))"

subsection \<open>Records\<close>

definition saltLen :: nat where "saltLen = 32"
definition keyIDLen :: nat where "keyIDLen = 12"
definition StatusActive :: string where "StatusActive = ''active''"
definition StatusRevoked :: string where "StatusRevoked = ''revoked''"

record KeyRecord =
  KeyID :: string
  KeyHash :: string
  Salt :: string
  KrTenant :: string
  KrDeployment :: string
  ExpiresAt :: time
  Status :: string
  CreatedAt :: time

definition validateSalt :: "string \<Rightarrow> err option" where
  "validateSalt salt =
     (if length salt = 0 then Some [ErrUnsalted]
      else if salt = replicate (length salt) (char_of (0::nat)) then Some [ErrUnsalted]
      else None)"

text \<open>\<open>io.ReadFull\<close> gives all the bytes asked for or an error.\<close>

definition ReadFull :: "nat \<Rightarrow> string result \<Rightarrow> string result" where
  "ReadFull n a =
     (case a of Inl e \<Rightarrow> Inl e
      | Inr bs \<Rightarrow> if length bs < n then Inl [Dynamic ''unexpected EOF''] else Inr (take n bs))"

definition NewRecordWithSalt ::
  "SecretKey \<Rightarrow> string \<Rightarrow> string result \<Rightarrow> string \<Rightarrow> string \<Rightarrow> time \<Rightarrow> time \<Rightarrow> KeyRecord result" where
  "NewRecordWithSalt sk salt idBytes tenant deployment expiresAt now =
     (case validateSalt salt of Some e \<Rightarrow> Inl e
      | None \<Rightarrow>
          (let raw = SecretKey_Reveal sk; keyHash = sha256 (salt @ raw) in
           case ReadFull keyIDLen idBytes of Inl e \<Rightarrow> Inl e
           | Inr bs \<Rightarrow>
               Inr \<lparr>KeyID = hex_encode bs, KeyHash = keyHash, Salt = salt, KrTenant = tenant,
                    KrDeployment = deployment, ExpiresAt = expiresAt, Status = StatusActive, CreatedAt = now\<rparr>))"

definition NewRecord ::
  "SecretKey \<Rightarrow> string result \<Rightarrow> string result \<Rightarrow> string \<Rightarrow> string \<Rightarrow> time \<Rightarrow> time \<Rightarrow> KeyRecord result" where
  "NewRecord sk saltBytes idBytes tenant deployment expiresAt now =
     (case ReadFull saltLen saltBytes of Inl e \<Rightarrow> Inl e
      | Inr salt \<Rightarrow> NewRecordWithSalt sk salt idBytes tenant deployment expiresAt now)"

definition IsExpired :: "KeyRecord \<Rightarrow> time \<Rightarrow> bool" where
  "IsExpired r now \<longleftrightarrow> ExpiresAt r \<noteq> 0 \<and> \<not> now < ExpiresAt r"

definition IsActive :: "KeyRecord \<Rightarrow> time \<Rightarrow> bool" where
  "IsActive r now \<longleftrightarrow> Status r = StatusActive \<and> \<not> IsExpired r now"

definition Revoked :: "KeyRecord \<Rightarrow> KeyRecord" where
  "Revoked r = r\<lparr>Status := StatusRevoked\<rparr>"

subsection \<open>The record store\<close>

text \<open>
  \<open>ord\<close> is the order in which a listing meets the keys: of a Go map, or of the rows of a table.
\<close>

record 's RecordStore =
  RsPut :: "ctx \<Rightarrow> KeyRecord \<Rightarrow> 's \<Rightarrow> err option \<times> 's"
  RsGet :: "ctx \<Rightarrow> string \<Rightarrow> 's \<Rightarrow> KeyRecord result \<times> 's"
  RsList :: "string list \<Rightarrow> ctx \<Rightarrow> 's \<Rightarrow> KeyRecord list result \<times> 's"
  RsRevoke :: "ctx \<Rightarrow> string \<Rightarrow> 's \<Rightarrow> err option \<times> 's"
  RsActiveRecords :: "string list \<Rightarrow> ctx \<Rightarrow> time \<Rightarrow> 's \<Rightarrow> KeyRecord list result \<times> 's"

record inMemRecordStore =
  records :: "string \<Rightarrow> KeyRecord option"

definition NewInMemRecordStore :: inMemRecordStore where
  "NewInMemRecordStore = \<lparr>records = (\<lambda>_. None)\<rparr>"

definition inMem_Put :: "ctx \<Rightarrow> KeyRecord \<Rightarrow> inMemRecordStore \<Rightarrow> err option \<times> inMemRecordStore" where
  "inMem_Put c r s =
     (if c then (Some [ErrMcpUnavailable], s) else (None, s\<lparr>records := (records s)(KeyID r \<mapsto> r)\<rparr>))"

definition inMem_Get :: "ctx \<Rightarrow> string \<Rightarrow> inMemRecordStore \<Rightarrow> KeyRecord result \<times> inMemRecordStore" where
  "inMem_Get c k s =
     (if c then (Inl [ErrMcpUnavailable], s)
      else case records s k of None \<Rightarrow> (Inl [ErrRecordNotFound], s) | Some r \<Rightarrow> (Inr r, s))"

definition inMem_List :: "string list \<Rightarrow> ctx \<Rightarrow> inMemRecordStore \<Rightarrow> KeyRecord list result \<times> inMemRecordStore" where
  "inMem_List ord c s =
     (if c then (Inl [ErrMcpUnavailable], s) else (Inr (List.map_filter (records s) ord), s))"

definition inMem_Revoke :: "ctx \<Rightarrow> string \<Rightarrow> inMemRecordStore \<Rightarrow> err option \<times> inMemRecordStore" where
  "inMem_Revoke c k s =
     (if c then (Some [ErrMcpUnavailable], s)
      else case records s k of None \<Rightarrow> (None, s)
           | Some r \<Rightarrow> (None, s\<lparr>records := (records s)(k \<mapsto> r\<lparr>Status := StatusRevoked\<rparr>)\<rparr>))"

definition inMem_ActiveRecords ::
  "string list \<Rightarrow> ctx \<Rightarrow> time \<Rightarrow> inMemRecordStore \<Rightarrow> KeyRecord list result \<times> inMemRecordStore" where
  "inMem_ActiveRecords ord c now s =
     (if c then (Inl [ErrMcpUnavailable], s)
      else (Inr (filter (\<lambda>r. IsActive r now) (List.map_filter (records s) ord)), s))"

definition inMemStore :: "inMemRecordStore RecordStore" where
  "inMemStore = \<lparr>RsPut = inMem_Put, RsGet = inMem_Get, RsList = inMem_List, RsRevoke = inMem_Revoke,
     RsActiveRecords = inMem_ActiveRecords\<rparr>"

subsection \<open>The Postgres leg\<close>

text \<open>
  The table \<open>mcp_keys\<close>: one row per \<open>key_id\<close>. The driver writes an instant in whole microseconds. A
  statement succeeds, or fails with or without having taken effect; or its rows arrive and the first
  does not scan.
\<close>

record mcp_row =
  c_key_hash :: string
  c_salt :: string
  c_tenant :: string
  c_deployment :: string
  c_expires_at :: "time option"
  c_status :: int
  c_created_at :: time

record mcp_keys =
  table :: "string \<Rightarrow> mcp_row option"
  statements :: nat

datatype pg_answer = PgOk | PgFail err bool | PgScanFail

definition timestamptz :: "time \<Rightarrow> time" where "timestamptz t = t div 1000 * 1000"

definition statusActive :: int where "statusActive = 0"
definition statusRevoked :: int where "statusRevoked = 1"

definition statusFromRecord :: "KeyRecord \<Rightarrow> int" where
  "statusFromRecord r = (if Status r = StatusRevoked then statusRevoked else statusActive)"

definition buildRecord :: "string \<Rightarrow> mcp_row \<Rightarrow> KeyRecord" where
  "buildRecord k row =
     \<lparr>KeyID = k, KeyHash = c_key_hash row, Salt = c_salt row, KrTenant = c_tenant row, KrDeployment = c_deployment row,
      ExpiresAt = (case c_expires_at row of None \<Rightarrow> 0 | Some t \<Rightarrow> t),
      Status = (if c_status row = statusRevoked then StatusRevoked else StatusActive),
      CreatedAt = c_created_at row\<rparr>"

definition row_of :: "KeyRecord \<Rightarrow> mcp_row" where
  "row_of r =
     \<lparr>c_key_hash = KeyHash r, c_salt = Salt r, c_tenant = KrTenant r, c_deployment = KrDeployment r,
      c_expires_at = (if ExpiresAt r = 0 then None else Some (timestamptz (ExpiresAt r))),
      c_status = statusFromRecord r, c_created_at = timestamptz (CreatedAt r)\<rparr>"

text \<open>One statement: what it changes, if it takes effect, and whether it fails.\<close>

definition pg_exec ::
  "(nat \<Rightarrow> pg_answer) \<Rightarrow> ((string \<Rightarrow> mcp_row option) \<Rightarrow> string \<Rightarrow> mcp_row option) \<Rightarrow> mcp_keys \<Rightarrow> err option \<times> mcp_keys" where
  "pg_exec fl f s =
     (let s1 = s\<lparr>statements := Suc (statements s)\<rparr>; after = s1\<lparr>table := f (table s)\<rparr> in
      case fl (statements s) of
        PgFail e applied \<Rightarrow> (Some [ErrMcpUnavailable], if applied then after else s1)
      | _ \<Rightarrow> (None, after))"

text \<open>The continuation of a query learns whether the rows scan.\<close>

definition pg_query ::
  "(nat \<Rightarrow> pg_answer) \<Rightarrow> (bool \<Rightarrow> (string \<Rightarrow> mcp_row option) \<Rightarrow> 'a result) \<Rightarrow> mcp_keys \<Rightarrow> 'a result \<times> mcp_keys" where
  "pg_query fl f s =
     (let s1 = s\<lparr>statements := Suc (statements s)\<rparr> in
      case fl (statements s) of
        PgOk \<Rightarrow> (f True (table s), s1)
      | PgScanFail \<Rightarrow> (f False (table s), s1)
      | PgFail e applied \<Rightarrow> (Inl [ErrMcpUnavailable], s1))"

definition pg_Put :: "(nat \<Rightarrow> pg_answer) \<Rightarrow> ctx \<Rightarrow> KeyRecord \<Rightarrow> mcp_keys \<Rightarrow> err option \<times> mcp_keys" where
  "pg_Put fl c r s =
     (if c then (Some [ErrMcpUnavailable], s) else pg_exec fl (\<lambda>t. t(KeyID r \<mapsto> row_of r)) s)"

text \<open>\<open>Get\<close> maps the driver's no-rows error to its own sentinel and wraps every other error of the scan.\<close>

definition scanRow :: "string \<Rightarrow> bool \<Rightarrow> mcp_row option \<Rightarrow> KeyRecord result" where
  "scanRow k scans row =
     (case row of None \<Rightarrow> Inl [ErrRecordNotFound]
      | Some x \<Rightarrow> if scans then Inr (buildRecord k x) else Inl [ErrMcpUnavailable])"

definition pg_Get :: "(nat \<Rightarrow> pg_answer) \<Rightarrow> ctx \<Rightarrow> string \<Rightarrow> mcp_keys \<Rightarrow> KeyRecord result \<times> mcp_keys" where
  "pg_Get fl c k s =
     (if c then (Inl [ErrMcpUnavailable], s) else pg_query fl (\<lambda>scans t. scanRow k scans (t k)) s)"

text \<open>
  The rows a query selects, collected in the order it meets them. The error of a scan is not wrapped
  in the sentinel.
\<close>

definition collectRows ::
  "string list \<Rightarrow> (mcp_row \<Rightarrow> bool) \<Rightarrow> bool \<Rightarrow> (string \<Rightarrow> mcp_row option) \<Rightarrow> KeyRecord list result" where
  "collectRows ord sel scans t =
     (let rs = List.map_filter
            (\<lambda>k. case t k of None \<Rightarrow> None | Some row \<Rightarrow> if sel row then Some (buildRecord k row) else None) ord
      in if scans \<or> rs = [] then Inr rs else Inl [Dynamic ''scan row''])"

definition pg_List :: "(nat \<Rightarrow> pg_answer) \<Rightarrow> string list \<Rightarrow> ctx \<Rightarrow> mcp_keys \<Rightarrow> KeyRecord list result \<times> mcp_keys" where
  "pg_List fl ord c s =
     (if c then (Inl [ErrMcpUnavailable], s) else pg_query fl (collectRows ord (\<lambda>_. True)) s)"

definition pg_Revoke :: "(nat \<Rightarrow> pg_answer) \<Rightarrow> ctx \<Rightarrow> string \<Rightarrow> mcp_keys \<Rightarrow> err option \<times> mcp_keys" where
  "pg_Revoke fl c k s =
     (if c then (Some [ErrMcpUnavailable], s)
      else pg_exec fl (\<lambda>t. t(k := map_option (\<lambda>row. row\<lparr>c_status := statusRevoked\<rparr>) (t k))) s)"

definition active_row :: "time \<Rightarrow> mcp_row \<Rightarrow> bool" where
  "active_row now row \<longleftrightarrow>
     c_status row = statusActive \<and>
     (case c_expires_at row of None \<Rightarrow> True | Some t \<Rightarrow> timestamptz now < t)"

definition pg_ActiveRecords ::
  "(nat \<Rightarrow> pg_answer) \<Rightarrow> string list \<Rightarrow> ctx \<Rightarrow> time \<Rightarrow> mcp_keys \<Rightarrow> KeyRecord list result \<times> mcp_keys" where
  "pg_ActiveRecords fl ord c now s =
     (if c then (Inl [ErrMcpUnavailable], s) else pg_query fl (collectRows ord (active_row now)) s)"

definition pgStore :: "(nat \<Rightarrow> pg_answer) \<Rightarrow> mcp_keys RecordStore" where
  "pgStore fl = \<lparr>RsPut = pg_Put fl, RsGet = pg_Get fl, RsList = pg_List fl, RsRevoke = pg_Revoke fl,
     RsActiveRecords = pg_ActiveRecords fl\<rparr>"

subsection \<open>The engine\<close>

record RenderOutcome =
  DenyAllPending :: bool

text \<open>
  The entropy a create draws, by the step it starts at: for the body, for the salt and for the key id.
  \<open>runes\<close> is \<open>utf8.RuneCountInString\<close>.
\<close>

record rand_source =
  r_body :: "nat \<Rightarrow> entropy"
  r_salt :: "nat \<Rightarrow> string result"
  r_id :: "nat \<Rightarrow> string result"

text \<open>A byte that begins no valid sequence counts as one rune.\<close>

function runes :: "string \<Rightarrow> nat" where
  "runes s = (if s = [] then 0 else Suc (runes (drop (max 1 (utf8_len s)) s)))"
  by pat_completeness auto
termination
  by (relation "measure length") auto

declare runes.simps [simp del]

definition maxScopeLen :: nat where "maxScopeLen = 256"

record 's KeyEngine =
  ke_store :: "'s RecordStore"
  ke_rand :: rand_source
  ke_rerender :: "(env \<Rightarrow> 's cworld \<Rightarrow> RenderOutcome result \<times> 's cworld) option"

definition create_refused :: "OperatorScope \<Rightarrow> string \<Rightarrow> string \<Rightarrow> err option" where
  "create_refused scope tenant deployment =
     (if \<not> OperatorScope_Valid scope then Some [ErrMcpScopeInvalid]
      else if tenant = '''' then Some [ErrTenantMissing]
      else if deployment = '''' then Some [ErrDeploymentMissing]
      else if maxScopeLen < runes tenant then Some [ErrTenantTooLong]
      else if maxScopeLen < runes deployment then Some [ErrDeploymentTooLong]
      else None)"

text \<open>The steps after minting: audit, store, render. Only then is the secret returned.\<close>

definition create_commit ::
  "'s KeyEngine \<Rightarrow> env \<Rightarrow> OperatorScope \<Rightarrow> SecretKey \<Rightarrow> KeyRecord \<Rightarrow> 's cworld \<Rightarrow> (SecretKey \<times> KeyRecord) result \<times> 's cworld" where
  "create_commit K E scope sk rec w =
     (case emit E (operator_record ActionMCPKeyCreate scope (KeyID rec) '''') w of
        (Some e, w1) \<Rightarrow> (Inl e, w1)
      | (None, w1) \<Rightarrow>
          (case st_call (e_ctx E) (\<lambda>c. RsPut (ke_store K) c rec) w1 of
             (Some e, w2) \<Rightarrow> (Inl e, w2)
           | (None, w2) \<Rightarrow>
               (case ke_rerender K of None \<Rightarrow> (Inr (sk, rec), w2)
                | Some render \<Rightarrow>
                    (case render E w2 of (Inl e, w3) \<Rightarrow> (Inl e, w3) | (Inr _, w3) \<Rightarrow> (Inr (sk, rec), w3)))))"

definition KeyEngine_Create ::
  "'s KeyEngine \<Rightarrow> env \<Rightarrow> OperatorScope \<Rightarrow> string \<Rightarrow> string \<Rightarrow> time option \<Rightarrow> 's cworld \<Rightarrow>
   ((SecretKey \<times> KeyRecord) result \<times> 's cworld) option" where
  "KeyEngine_Create K E scope tenant deployment expiresAt w =
     (case create_refused scope tenant deployment of Some e \<Rightarrow> Some (Inl e, w)
      | None \<Rightarrow>
          (case Minter_Mint (r_body (ke_rand K) (step w)) of None \<Rightarrow> None
           | Some (Inl e) \<Rightarrow> Some (Inl e, w)
           | Some (Inr sk) \<Rightarrow>
               (case NewRecord sk (r_salt (ke_rand K) (step w)) (r_id (ke_rand K) (step w)) tenant deployment
                       (case expiresAt of None \<Rightarrow> 0 | Some t \<Rightarrow> t) (e_now E (step w)) of
                  Inl e \<Rightarrow> Some (Inl e, w)
                | Inr rec \<Rightarrow> Some (create_commit K E scope sk rec w))))"

definition KeyEngine_Revoke ::
  "'s KeyEngine \<Rightarrow> env \<Rightarrow> OperatorScope \<Rightarrow> string \<Rightarrow> string \<Rightarrow> 's cworld \<Rightarrow> RenderOutcome result \<times> 's cworld" where
  "KeyEngine_Revoke K E scope keyID why w =
     (if \<not> OperatorScope_Valid scope then (Inl [ErrMcpScopeInvalid], w)
      else case emit E (operator_record ActionMCPKeyRevoke scope keyID why) w of
        (Some e, w1) \<Rightarrow> (Inl e, w1)
      | (None, w1) \<Rightarrow>
          (case st_call (e_ctx E) (\<lambda>c. RsRevoke (ke_store K) c keyID) w1 of
             (Some e, w2) \<Rightarrow> (Inl e, w2)
           | (None, w2) \<Rightarrow>
               (case ke_rerender K of None \<Rightarrow> (Inr \<lparr>DenyAllPending = False\<rparr>, w2)
                | Some render \<Rightarrow> render E w2)))"

subsection \<open>Every key body is equally likely\<close>

definition accepted :: "char \<Rightarrow> bool" where "accepted b \<longleftrightarrow> byte b < rejectThreshold"

lemma sample_eq:
  "length out < base62Width \<Longrightarrow> sample bs out = take base62Width (out @ map base62_char (filter accepted bs))"
proof (induction bs arbitrary: out)
  case (Cons b bs)
  show ?case
  proof (cases "accepted b")
    case True
    have "sample (b # bs) out = (if Suc (length out) = base62Width then out @ [base62_char b] else sample bs (out @ [base62_char b]))"
      using True by (simp add: accepted_def Let_def)
    also have "\<dots> = take base62Width ((out @ [base62_char b]) @ map base62_char (filter accepted bs))"
      using Cons.IH [of "out @ [base62_char b]"] Cons.prems by (simp del: append_assoc) 
    finally show ?thesis using True by simp
  next
    case False
    then show ?thesis using Cons by (simp add: accepted_def)
  qed
qed simp

text \<open>The bytes of the first draws.\<close>

definition drawn :: "(nat \<Rightarrow> string) \<Rightarrow> nat \<Rightarrow> nat \<Rightarrow> string" where
  "drawn bs i k = concat (map bs [i..<i + k])"

lemma drawn_Suc: "drawn bs i (Suc k) = bs i @ drawn bs (Suc i) k"
proof -
  have "[i..<i + Suc k] = i # [Suc i..<Suc i + k]" using upt_conv_Cons [of i "i + Suc k"] by simp
  then show ?thesis by (simp only: drawn_def list.map concat.simps)
qed

lemma encode_draws:
  assumes "\<And>j. i \<le> j \<Longrightarrow> j < i + k \<Longrightarrow> rd j = Inr (bs j) \<and> length (bs j) = randScratchSize"
    and "length out \<le> base62Width" and "base62Width \<le> length out + length (filter accepted (drawn bs i k))"
  shows "encodeBase62 rd i out = Some (Inr (take base62Width (out @ map base62_char (filter accepted (drawn bs i k)))))"
  using assms
proof (induction k arbitrary: i out)
  case 0
  then show ?case by (subst encodeBase62.simps) (simp add: drawn_def)
next
  case (Suc k)
  show ?case
  proof (cases "length out < base62Width")
    case True
    let ?out = "take base62Width (out @ map base62_char (filter accepted (bs i)))"
    have rd: "rd i = Inr (bs i)" "length (bs i) = randScratchSize" using Suc.prems(1) [of i] by simp_all
    have "encodeBase62 rd (Suc i) ?out =
        Some (Inr (take base62Width (?out @ map base62_char (filter accepted (drawn bs (Suc i) k)))))"
      using Suc.prems by (intro Suc.IH) (auto simp: drawn_Suc)
    moreover have "take base62Width (?out @ ys) = take base62Width (out @ map base62_char (filter accepted (bs i)) @ ys)" for ys
      by (auto simp: min_def)
    ultimately show ?thesis using True rd
      by (subst encodeBase62.simps) (simp add: sample_eq drawn_Suc)
  next
    case False
    then show ?thesis using Suc.prems(2) by (subst encodeBase62.simps) simp
  qed
qed

lemma alphabet: "length base62Alphabet = 62" "distinct base62Alphabet"
  by (simp_all add: base62Alphabet_def)

lemma base62_preimages:
  assumes "c \<in> set base62Alphabet"
  shows "card {b. accepted b \<and> base62_char b = c} = 4"
proof -
  obtain i where i: "i < 62" "c = base62Alphabet ! i" using assms alphabet by (metis in_set_conv_nth)
  have "base62_char b = c \<longleftrightarrow> byte b div 4 = i" if "accepted b" for b
  proof -
    have "byte b div 4 < 62" using that by (simp add: accepted_def rejectThreshold_def less_mult_imp_div_less)
    then show ?thesis using nth_eq_iff_index_eq [OF alphabet(2)] i alphabet(1) by (simp add: base62_char_def)
  qed
  then have "{b. accepted b \<and> base62_char b = c} = {b. accepted b \<and> byte b div 4 = i}" by blast
  also have "\<dots> = char_of ` {4 * i..<4 * i + 4}"
  proof (intro equalityI subsetI)
    fix b assume "b \<in> {b. accepted b \<and> byte b div 4 = i}"
    then have "byte b \<in> {4 * i..<4 * i + 4}" by auto
    moreover have "b = char_of (byte b)" by simp
    ultimately show "b \<in> char_of ` {4 * i..<4 * i + 4}" by blast
  next
    fix b assume "b \<in> (char_of ` {4 * i..<4 * i + 4} :: char set)"
    then obtain n where "b = char_of n" "n \<in> {4 * i..<4 * i + 4}" by blast
    moreover from this have "n < 248" "n div 4 = i" using i(1) by auto
    ultimately show "b \<in> {b. accepted b \<and> byte b div 4 = i}" by (simp add: accepted_def rejectThreshold_def)
  qed
  finally have eq: "{b. accepted b \<and> base62_char b = c} = char_of ` {4 * i..<4 * i + 4}" .
  have "inj_on (char_of :: nat \<Rightarrow> char) {4 * i..<4 * i + 4}"
  proof (rule inj_onI)
    fix x y assume "x \<in> {4 * i..<4 * i + 4}" "y \<in> {4 * i..<4 * i + 4}" "(char_of x :: char) = char_of y"
    moreover from this have "x < 256" "y < 256" using i(1) by auto
    ultimately show "x = y" by (metis of_char_of_byte)
  qed
  then show ?thesis by (simp add: eq card_image)
qed

lemma body_preimages:
  assumes "set body \<subseteq> set base62Alphabet"
  shows "card {bs. length bs = length body \<and> list_all accepted bs \<and> map base62_char bs = body} = 4 ^ length body"
  using assms
proof (induction body)
  case Nil
  have "{bs. length bs = length [] \<and> list_all accepted bs \<and> map base62_char bs = []} = {[]}" by auto
  then show ?case by simp
next
  case (Cons c body)
  let ?B = "{b. accepted b \<and> base62_char b = c}" and ?R = "{bs. length bs = length body \<and> list_all accepted bs \<and> map base62_char bs = body}"
  have "{bs. length bs = length (c # body) \<and> list_all accepted bs \<and> map base62_char bs = c # body} = (\<lambda>(b, bs). b # bs) ` (?B \<times> ?R)"
    by (auto simp: image_def map_eq_Cons_conv)
  moreover have "inj_on (\<lambda>(b, bs). b # bs) (?B \<times> ?R)" by (auto simp: inj_on_def)
  ultimately show ?case
    using Cons base62_preimages [of c] by (simp add: card_image card_cartesian_product)
qed

text \<open>
  C26: minting is unbiased and has the entropy it needs. As soon as the draws hold 43 bytes below the
  threshold, minting returns the prefix followed by the image of the first 43 of them, whatever the
  rejected bytes were; every body over the alphabet comes from exactly \<open>4\<^sup>4\<^sup>3\<close> such sequences of bytes, so
  all bodies are equally likely; and there are more than \<open>2\<^sup>2\<^sup>5\<^sup>6\<close> bodies.
\<close>

theorem mint_uniform:
  assumes "\<And>j. j < k \<Longrightarrow> rd j = Inr (bs j) \<and> length (bs j) = randScratchSize"
    and "base62Width \<le> length (filter accepted (drawn bs 0 k))"
  shows "Minter_Mint rd = Some (Inr \<lparr>sk_raw = skPrefix @ map base62_char (take base62Width (filter accepted (drawn bs 0 k)))\<rparr>) \<and>
    (\<forall>body. length body = base62Width \<and> set body \<subseteq> set base62Alphabet \<longrightarrow>
      card {xs. length xs = base62Width \<and> list_all accepted xs \<and> map base62_char xs = body} = 4 ^ base62Width) \<and>
    (2::nat) ^ 256 < length base62Alphabet ^ base62Width"
proof -
  have "encodeBase62 rd 0 '''' = Some (Inr (map base62_char (take base62Width (filter accepted (drawn bs 0 k)))))"
    using encode_draws [of 0 k rd bs "[]"] assms by (simp add: take_map)
  moreover have "(2::nat) ^ 256 < length base62Alphabet ^ base62Width" by (simp add: alphabet base62Width_def)
  moreover have "card {xs. length xs = base62Width \<and> list_all accepted xs \<and> map base62_char xs = body} = 4 ^ base62Width"
    if "length body = base62Width \<and> set body \<subseteq> set base62Alphabet" for body
    using body_preimages [of body] that by simp
  ultimately show ?thesis by (simp only: Minter_Mint_def newSecretKey_def option.case sum.case) blast
qed

theorem mint_uniform_witness:
  "Minter_Mint (\<lambda>_. Inr (replicate 64 (CHR ''A''))) = Some (Inr \<lparr>sk_raw = skPrefix @ replicate 43 (CHR ''G'')\<rparr>)"
proof -
  let ?bs = "\<lambda>_::nat. replicate 64 (CHR ''A'')"
  have a: "accepted (CHR ''A'')" "base62_char (CHR ''A'') = CHR ''G''"
    by (simp_all add: accepted_def rejectThreshold_def base62_char_def base62Alphabet_def)
  have d: "drawn ?bs 0 1 = replicate 64 (CHR ''A'')" by (simp add: drawn_def)
  have f: "filter accepted (replicate 64 (CHR ''A'')) = replicate 64 (CHR ''A'')" using a(1) by (simp add: filter_replicate)
  have "base62Width \<le> length (filter accepted (drawn ?bs 0 1))" unfolding d f by (simp add: base62Width_def)
  moreover have "take base62Width (replicate 64 (CHR ''A'')) = replicate 43 (CHR ''A'')" by (simp add: base62Width_def take_replicate)
  ultimately show ?thesis
    using mint_uniform [of 1 "\<lambda>_. Inr (replicate 64 (CHR ''A''))" ?bs] unfolding d f
    by (simp add: randScratchSize_def map_replicate a(2))
qed

subsection \<open>What a record store promises\<close>

text \<open>
  \<open>recs\<close> is the content of a store, \<open>keep\<close> the form in which it keeps a record, \<open>storable\<close> the records
  it keeps faithfully. A refused write may have taken effect; reads change nothing.
\<close>

locale record_store =
  fixes R :: "'s RecordStore"
    and inv :: "'s \<Rightarrow> bool"
    and recs :: "'s \<Rightarrow> string \<Rightarrow> KeyRecord option"
    and keep :: "KeyRecord \<Rightarrow> KeyRecord"
    and storable :: "KeyRecord \<Rightarrow> bool"
  assumes keep_same: "storable r \<Longrightarrow> KeyID (keep r) = KeyID r \<and> Status (keep r) = Status r \<and> KeyHash (keep r) = KeyHash r \<and> Salt (keep r) = Salt r"
    and stored_key: "inv s \<Longrightarrow> recs s k = Some r \<Longrightarrow> KeyID r = k"
    and put_ok: "inv s \<Longrightarrow> storable r \<Longrightarrow> RsPut R c r s = (None, s') \<Longrightarrow> inv s' \<and> recs s' = (recs s)(KeyID r \<mapsto> keep r)"
    and put_err: "inv s \<Longrightarrow> storable r \<Longrightarrow> RsPut R c r s = (Some e, s') \<Longrightarrow>
          inv s' \<and> (recs s' = recs s \<or> recs s' = (recs s)(KeyID r \<mapsto> keep r))"
    and get_result: "inv s \<Longrightarrow> RsGet R c k s = (x, s') \<Longrightarrow> inv s' \<and> recs s' = recs s \<and>
          (\<forall>r. x = Inr r \<longrightarrow> recs s k = Some r) \<and> (x = Inl [ErrRecordNotFound] \<longrightarrow> recs s k = None)"
    and list_result: "inv s \<Longrightarrow> RsList R ord c s = (y, s') \<Longrightarrow> inv s' \<and> recs s' = recs s \<and>
          (\<forall>rs. y = Inr rs \<longrightarrow> rs = List.map_filter (recs s) ord)"
    and revoke_ok: "inv s \<Longrightarrow> RsRevoke R c k s = (None, s') \<Longrightarrow> inv s' \<and> recs s' = (recs s)(k := map_option Revoked (recs s k))"
    and revoke_err: "inv s \<Longrightarrow> RsRevoke R c k s = (Some e, s') \<Longrightarrow>
          inv s' \<and> (recs s' = recs s \<or> recs s' = (recs s)(k := map_option Revoked (recs s k)))"
    and active_result: "inv s \<Longrightarrow> RsActiveRecords R ord c now s = (y, s') \<Longrightarrow> inv s' \<and> recs s' = recs s \<and>
          (\<forall>rs. y = Inr rs \<longrightarrow> rs = filter (\<lambda>r. IsActive r now) (List.map_filter (recs s) ord))"

text \<open>The in-memory store keeps records as they are.\<close>

definition keyed :: "inMemRecordStore \<Rightarrow> bool" where
  "keyed s \<longleftrightarrow> (\<forall>k r. records s k = Some r \<longrightarrow> KeyID r = k)"

lemma inMem_Revoke_eq:
  "inMem_Revoke c k s = (if c then (Some [ErrMcpUnavailable], s) else (None, s\<lparr>records := (records s)(k := map_option Revoked (records s k))\<rparr>))"
  by (cases "records s k") (auto simp: inMem_Revoke_def Revoked_def fun_upd_idem)

interpretation mem: record_store inMemStore keyed records "\<lambda>r. r" "\<lambda>_. True"
proof unfold_locales
  show "keyed s \<Longrightarrow> RsGet inMemStore c k s = (x, s') \<Longrightarrow> keyed s' \<and> records s' = records s \<and>
      (\<forall>r. x = Inr r \<longrightarrow> records s k = Some r) \<and> (x = Inl [ErrRecordNotFound] \<longrightarrow> records s k = None)" for s c k x s'
    by (auto simp: inMemStore_def inMem_Get_def split: if_splits option.splits)
qed (auto simp: inMemStore_def keyed_def inMem_Put_def inMem_List_def inMem_Revoke_eq inMem_ActiveRecords_def Revoked_def
    split: if_splits)

text \<open>
  The table keeps instants in whole microseconds and knows two states. A row is in order when its
  status is one of the two codes and its expiry, if any, is such an instant other than zero.
\<close>

definition pg_recs :: "mcp_keys \<Rightarrow> string \<Rightarrow> KeyRecord option" where
  "pg_recs s k = map_option (buildRecord k) (table s k)"

definition pg_keep :: "KeyRecord \<Rightarrow> KeyRecord" where
  "pg_keep r = buildRecord (KeyID r) (row_of r)"

definition pg_dated :: "KeyRecord \<Rightarrow> bool" where
  "pg_dated r \<longleftrightarrow> (ExpiresAt r \<noteq> 0 \<longrightarrow> timestamptz (ExpiresAt r) \<noteq> 0)"

definition pg_storable :: "KeyRecord \<Rightarrow> bool" where
  "pg_storable r \<longleftrightarrow> Status r \<in> {StatusActive, StatusRevoked} \<and> pg_dated r"

definition row_ok :: "mcp_row \<Rightarrow> bool" where
  "row_ok row \<longleftrightarrow> c_status row \<in> {statusActive, statusRevoked} \<and>
     (\<forall>t. c_expires_at row = Some t \<longrightarrow> t \<noteq> 0 \<and> timestamptz t = t)"

definition pg_ok :: "mcp_keys \<Rightarrow> bool" where
  "pg_ok s \<longleftrightarrow> (\<forall>k row. table s k = Some row \<longrightarrow> row_ok row)"

lemma status_neq [simp]: "StatusActive \<noteq> StatusRevoked" "StatusRevoked \<noteq> StatusActive" "statusActive \<noteq> statusRevoked"
    "statusRevoked \<noteq> statusActive"
  by (simp_all add: StatusActive_def StatusRevoked_def statusActive_def statusRevoked_def)

lemma timestamptz_idem [simp]: "timestamptz (timestamptz t) = timestamptz t"
  by (simp add: timestamptz_def)

lemma timestamptz_less: "timestamptz t = t \<Longrightarrow> timestamptz now < t \<longleftrightarrow> now < t"
proof -
  assume t: "timestamptz t = t"
  have "now = 1000 * (now div 1000) + now mod 1000" "0 \<le> now mod 1000" "now mod 1000 < 1000" by simp_all
  then have "now div 1000 < t div 1000 \<longleftrightarrow> now < t div 1000 * 1000" by (intro iffI) linarith+
  moreover have "now div 1000 * 1000 < t div 1000 * 1000 \<longleftrightarrow> now div 1000 < t div 1000" by simp
  ultimately show ?thesis using t unfolding timestamptz_def by (simp only:)
qed

lemma row_of_ok: "pg_dated r \<Longrightarrow> row_ok (row_of r)"
  by (auto simp: pg_dated_def row_ok_def row_of_def statusFromRecord_def)

lemma active_row_iff: "row_ok row \<Longrightarrow> active_row now row \<longleftrightarrow> IsActive (buildRecord k row) now"
  by (auto simp: row_ok_def active_row_def IsActive_def IsExpired_def buildRecord_def timestamptz_less split: option.splits)

lemma buildRecord_revoke:
  "buildRecord k (row\<lparr>c_status := statusRevoked\<rparr>) = Revoked (buildRecord k row)"
  by (simp add: buildRecord_def Revoked_def)

lemma map_filter_filter:
  "filter P (List.map_filter f xs) = List.map_filter (\<lambda>x. case f x of None \<Rightarrow> None | Some y \<Rightarrow> if P y then Some y else None) xs"
  by (induction xs) (auto simp: List.map_filter_def split: option.splits)

lemma map_filter_ext: "(\<And>x. x \<in> set xs \<Longrightarrow> f x = g x) \<Longrightarrow> List.map_filter f xs = List.map_filter g xs"
  by (induction xs) (auto simp: List.map_filter_def)

lemma collect_active:
  assumes "pg_ok s"
  shows "collectRows ord (active_row now) True (table s) = Inr (filter (\<lambda>r. IsActive r now) (List.map_filter (pg_recs s) ord))"
  unfolding collectRows_def Let_def map_filter_filter if_True simp_thms
proof (intro arg_cong [where f = Inr] map_filter_ext)
  fix k
  show "(case table s k of None \<Rightarrow> None | Some row \<Rightarrow> if active_row now row then Some (buildRecord k row) else None) =
    (case pg_recs s k of None \<Rightarrow> None | Some y \<Rightarrow> if IsActive y now then Some y else None)"
    using assms active_row_iff [of _ now k] by (cases "table s k") (auto simp: pg_ok_def pg_recs_def)
qed

lemma collect_all: "collectRows ord (\<lambda>_. True) True (table s) = Inr (List.map_filter (pg_recs s) ord)"
  by (auto simp: collectRows_def Let_def pg_recs_def intro!: map_filter_ext split: option.splits)

lemma collect_scan: "collectRows ord sel scans t = Inr rs \<Longrightarrow> collectRows ord sel True t = Inr rs"
  by (auto simp: collectRows_def Let_def split: if_splits)

lemma collect_all_result: "Inr rs = collectRows ord (\<lambda>_. True) scans (table s) \<Longrightarrow> rs = List.map_filter (pg_recs s) ord"
  by (metis collect_scan collect_all sum.inject(2))

lemma collect_active_result:
  "Inr rs = collectRows ord (active_row now) scans (table s) \<Longrightarrow> pg_ok s \<Longrightarrow>
   rs = filter (\<lambda>r. IsActive r now) (List.map_filter (pg_recs s) ord)"
  by (metis collect_scan collect_active sum.inject(2))

lemma pg_exec_cases:
  assumes "pg_exec fl f s = (x, s')"
  obtains "table s' = f (table s)" "x = None \<or> x = Some [ErrMcpUnavailable]" | "table s' = table s" "x = Some [ErrMcpUnavailable]"
  using assms by (auto simp: pg_exec_def Let_def split: pg_answer.splits if_splits)

lemma pg_query_cases:
  assumes "pg_query fl f s = (x, s')"
  shows "table s' = table s \<and> (x = f True (table s) \<or> x = f False (table s) \<or> x = Inl [ErrMcpUnavailable])"
  using assms by (auto simp: pg_query_def Let_def split: pg_answer.splits)

lemma pg_frame: "table s' = table s \<Longrightarrow> pg_recs s' = pg_recs s" "table s' = table s \<Longrightarrow> pg_ok s' \<longleftrightarrow> pg_ok s"
  by (simp_all add: pg_recs_def fun_eq_iff pg_ok_def)

lemma pg_put_table:
  assumes "table s' = (table s)(KeyID r \<mapsto> row_of r)" and "pg_ok s" and "pg_dated r"
  shows "pg_ok s' \<and> pg_recs s' = (pg_recs s)(KeyID r \<mapsto> pg_keep r)"
  using assms row_of_ok [OF assms(3)] by (auto simp: pg_ok_def pg_recs_def pg_keep_def fun_eq_iff)

lemma pg_revoke_table:
  assumes "table s' = (table s)(k := map_option (\<lambda>row. row\<lparr>c_status := statusRevoked\<rparr>) (table s k))" and "pg_ok s"
  shows "pg_ok s' \<and> pg_recs s' = (pg_recs s)(k := map_option Revoked (pg_recs s k))"
proof
  have "row_ok (row\<lparr>c_status := statusRevoked\<rparr>)" if "row_ok row" for row using that by (simp add: row_ok_def)
  then show "pg_ok s'" using assms by (auto simp: pg_ok_def)
  show "pg_recs s' = (pg_recs s)(k := map_option Revoked (pg_recs s k))"
    using assms(1) by (auto simp: pg_recs_def fun_eq_iff buildRecord_revoke option.map_comp comp_def)
qed

lemma pg_keep_same:
  "pg_storable r \<Longrightarrow> KeyID (pg_keep r) = KeyID r \<and> Status (pg_keep r) = Status r \<and> KeyHash (pg_keep r) = KeyHash r \<and> Salt (pg_keep r) = Salt r"
  by (auto simp: pg_keep_def buildRecord_def row_of_def pg_storable_def statusFromRecord_def)

lemma pg_Put_result:
  assumes "pg_ok s" and "pg_storable r" and "pg_Put fl c r s = (x, s')"
  shows "pg_ok s' \<and> (pg_recs s' = (pg_recs s)(KeyID r \<mapsto> pg_keep r) \<or> x \<noteq> None \<and> pg_recs s' = pg_recs s)"
proof (cases c)
  case False
  then have "pg_exec fl (\<lambda>t. t(KeyID r \<mapsto> row_of r)) s = (x, s')" using assms(3) by (simp add: pg_Put_def)
  then show ?thesis
    by (cases rule: pg_exec_cases) (use assms(1,2) pg_put_table [of s' s r] pg_frame [of s' s] in \<open>auto simp: pg_storable_def\<close>)
qed (use assms in \<open>auto simp: pg_Put_def\<close>)

lemma pg_Revoke_result:
  assumes "pg_ok s" and "pg_Revoke fl c k s = (x, s')"
  shows "pg_ok s' \<and> (pg_recs s' = (pg_recs s)(k := map_option Revoked (pg_recs s k)) \<or> x \<noteq> None \<and> pg_recs s' = pg_recs s)"
proof (cases c)
  case False
  then have "pg_exec fl (\<lambda>t. t(k := map_option (\<lambda>row. row\<lparr>c_status := statusRevoked\<rparr>) (t k))) s = (x, s')"
    using assms(2) by (simp add: pg_Revoke_def)
  then show ?thesis by (cases rule: pg_exec_cases) (use assms(1) pg_revoke_table [of s' s k] pg_frame [of s' s] in auto)
qed (use assms in \<open>auto simp: pg_Revoke_def\<close>)

lemma pg_query_result:
  assumes "pg_ok s" and "(if c then (Inl [ErrMcpUnavailable], s) else pg_query fl f s) = (x, s')"
  shows "pg_ok s' \<and> pg_recs s' = pg_recs s \<and> (x = f True (table s) \<or> x = f False (table s) \<or> x = Inl [ErrMcpUnavailable])"
proof (cases c)
  case False
  then have "pg_query fl f s = (x, s')" using assms(2) by simp
  from pg_query_cases [OF this] assms(1) pg_frame [of s' s] show ?thesis by simp
qed (use assms in simp)

lemma scanRow_iff: "scanRow k scans (table s k) = Inr r \<longleftrightarrow> scans \<and> pg_recs s k = Some r"
    "scanRow k scans (table s k) = Inl [ErrRecordNotFound] \<longleftrightarrow> pg_recs s k = None"
  by (auto simp: scanRow_def pg_recs_def split: option.splits)

interpretation pg: record_store "pgStore fl" pg_ok pg_recs pg_keep pg_storable for fl
proof unfold_locales
  show "KeyID (pg_keep r) = KeyID r \<and> Status (pg_keep r) = Status r \<and> KeyHash (pg_keep r) = KeyHash r \<and> Salt (pg_keep r) = Salt r"
    if "pg_storable r" for r
    by (rule pg_keep_same [OF that])
  show "KeyID r = k" if "pg_ok s" "pg_recs s k = Some r" for s k r using that by (auto simp: pg_recs_def buildRecord_def)
  show "pg_ok s' \<and> pg_recs s' = (pg_recs s)(KeyID r \<mapsto> pg_keep r)"
    if "pg_ok s" "pg_storable r" "RsPut (pgStore fl) c r s = (None, s')" for s r c s'
    using pg_Put_result [OF that(1,2), of fl c None s'] that(3) by (simp add: pgStore_def)
  show "pg_ok s' \<and> (pg_recs s' = pg_recs s \<or> pg_recs s' = (pg_recs s)(KeyID r \<mapsto> pg_keep r))"
    if "pg_ok s" "pg_storable r" "RsPut (pgStore fl) c r s = (Some e, s')" for s r c s' e
    using pg_Put_result [OF that(1,2), of fl c "Some e" s'] that(3) by (auto simp: pgStore_def)
  show "pg_ok s' \<and> pg_recs s' = pg_recs s \<and> (\<forall>r. x = Inr r \<longrightarrow> pg_recs s k = Some r) \<and> (x = Inl [ErrRecordNotFound] \<longrightarrow> pg_recs s k = None)"
    if "pg_ok s" "RsGet (pgStore fl) c k s = (x, s')" for s c k x s'
    using pg_query_result [OF that(1), of c fl "\<lambda>scans t. scanRow k scans (t k)" x s'] that(2)
    by (auto simp: pgStore_def pg_Get_def scanRow_iff)
  show "pg_ok s' \<and> pg_recs s' = pg_recs s \<and> (\<forall>rs. y = Inr rs \<longrightarrow> rs = List.map_filter (pg_recs s) ord)"
    if "pg_ok s" "RsList (pgStore fl) ord c s = (y, s')" for s ord c y s'
    using pg_query_result [OF that(1), of c fl "collectRows ord (\<lambda>_. True)" y s'] that(2)
    by (auto simp: pgStore_def pg_List_def dest: collect_all_result)
  show "pg_ok s' \<and> pg_recs s' = (pg_recs s)(k := map_option Revoked (pg_recs s k))"
    if "pg_ok s" "RsRevoke (pgStore fl) c k s = (None, s')" for s c k s'
    using pg_Revoke_result [OF that(1), of fl c k None s'] that(2) by (simp add: pgStore_def)
  show "pg_ok s' \<and> (pg_recs s' = pg_recs s \<or> pg_recs s' = (pg_recs s)(k := map_option Revoked (pg_recs s k)))"
    if "pg_ok s" "RsRevoke (pgStore fl) c k s = (Some e, s')" for s c k s' e
    using pg_Revoke_result [OF that(1), of fl c k "Some e" s'] that(2) by (auto simp: pgStore_def)
  show "pg_ok s' \<and> pg_recs s' = pg_recs s \<and> (\<forall>rs. y = Inr rs \<longrightarrow> rs = filter (\<lambda>r. IsActive r now) (List.map_filter (pg_recs s) ord))"
    if "pg_ok s" "RsActiveRecords (pgStore fl) ord c now s = (y, s')" for s ord c now y s'
    using pg_query_result [OF that(1), of c fl "collectRows ord (active_row now)" y s'] that
    by (auto simp: pgStore_def pg_ActiveRecords_def dest: collect_active_result)
qed

subsection \<open>The two stores answer alike\<close>

datatype rs_op =
    OpPut ctx KeyRecord | OpGet ctx string | OpList "string list" ctx | OpRevoke ctx string
  | OpActive "string list" ctx time

datatype rs_answer = RaDone "err option" | RaRecord "KeyRecord result" | RaRecords "KeyRecord list result"

fun run_rs_op :: "'s RecordStore \<Rightarrow> rs_op \<Rightarrow> 's \<Rightarrow> rs_answer \<times> 's" where
  "run_rs_op R (OpPut c r) s = (case RsPut R c r s of (e, s') \<Rightarrow> (RaDone e, s'))"
| "run_rs_op R (OpGet c k) s = (case RsGet R c k s of (x, s') \<Rightarrow> (RaRecord x, s'))"
| "run_rs_op R (OpList ord c) s = (case RsList R ord c s of (x, s') \<Rightarrow> (RaRecords x, s'))"
| "run_rs_op R (OpRevoke c k) s = (case RsRevoke R c k s of (e, s') \<Rightarrow> (RaDone e, s'))"
| "run_rs_op R (OpActive ord c now) s = (case RsActiveRecords R ord c now s of (x, s') \<Rightarrow> (RaRecords x, s'))"

fun run_rs :: "'s RecordStore \<Rightarrow> rs_op list \<Rightarrow> 's \<Rightarrow> rs_answer list \<times> 's" where
  "run_rs R [] s = ([], s)"
| "run_rs R (x # xs) s = (case run_rs_op R x s of (a, s1) \<Rightarrow> case run_rs R xs s1 of (as, s2) \<Rightarrow> (a # as, s2))"

text \<open>
  A record with its instants cut to whole microseconds, and with every status but the revoked one
  read as active.
\<close>

definition in_micros :: "KeyRecord \<Rightarrow> KeyRecord" where
  "in_micros r = r\<lparr>ExpiresAt := ExpiresAt r - ExpiresAt r mod 1000, CreatedAt := CreatedAt r - CreatedAt r mod 1000,
     Status := (if Status r = ''revoked'' then ''revoked'' else ''active'')\<rparr>"

fun cut_op :: "rs_op \<Rightarrow> rs_op" where
  "cut_op (OpPut c r) = OpPut c (in_micros r)"
| "cut_op x = x"

text \<open>No put has an expiry inside the first microsecond of the time line, whose cut is the zero instant.\<close>

fun op_dated :: "rs_op \<Rightarrow> bool" where
  "op_dated (OpPut c r) \<longleftrightarrow> \<not> (0 < ExpiresAt r \<and> ExpiresAt r < 1000)"
| "op_dated _ \<longleftrightarrow> True"

lemma timestamptz_cut: "timestamptz t = t - t mod 1000"
  by (simp add: timestamptz_def minus_mod_eq_div_mult)

lemma pg_keep_micros: "pg_keep r = in_micros r"
  by (simp add: pg_keep_def in_micros_def buildRecord_def row_of_def statusFromRecord_def timestamptz_cut
      StatusRevoked_def StatusActive_def statusActive_def statusRevoked_def)

lemma op_dated_put: "op_dated (OpPut c r) \<Longrightarrow> pg_dated r"
  by (auto simp: pg_dated_def timestamptz_def)

lemma pg_no_fault:
  assumes "\<And>n. fl n = PgOk"
  shows "pg_exec fl f s = (None, s\<lparr>statements := Suc (statements s), table := f (table s)\<rparr>)"
    and "pg_query fl g s = (g True (table s), s\<lparr>statements := Suc (statements s)\<rparr>)"
  using assms by (simp_all add: pg_exec_def pg_query_def Let_def)

lemma store_step_agrees:
  assumes "\<And>n. fl n = PgOk" and "pg_ok t" and "records s = pg_recs t" and "op_dated x"
    and "run_rs_op inMemStore (cut_op x) s = (a, s')" and "run_rs_op (pgStore fl) x t = (b, t')"
  shows "a = b \<and> pg_ok t' \<and> records s' = pg_recs t'"
proof (cases x)
  case (OpPut c r)
  have "KeyID (in_micros r) = KeyID r" by (simp add: in_micros_def)
  moreover have "table u = (table t)(KeyID r \<mapsto> row_of r) \<Longrightarrow> pg_ok u \<and> pg_recs u = (pg_recs t)(KeyID r \<mapsto> in_micros r)" for u
    using pg_put_table [of u t r] op_dated_put [of c r] assms(2,4) OpPut by (simp add: pg_keep_micros)
  ultimately show ?thesis
    using OpPut assms by (auto simp: inMemStore_def pgStore_def inMem_Put_def pg_Put_def pg_no_fault [OF assms(1)] split: if_splits)
next
  case (OpGet c k)
  then show ?thesis
    using assms pg_frame by (auto simp: inMemStore_def pgStore_def inMem_Get_def pg_Get_def pg_no_fault [OF assms(1)] scanRow_def pg_recs_def fun_eq_iff
        pg_ok_def split: if_splits option.splits)
next
  case (OpList ord c)
  have "pg_ok (t\<lparr>statements := n\<rparr>)" "pg_recs (t\<lparr>statements := n\<rparr>) = pg_recs t" for n
    using assms(2) by (simp_all add: pg_ok_def pg_recs_def fun_eq_iff)
  then show ?thesis
    using OpList assms by (auto simp: inMemStore_def pgStore_def inMem_List_def pg_List_def pg_no_fault [OF assms(1)] collect_all split: if_splits)
next
  case (OpRevoke c k)
  have "table u = (table t)(k := map_option (\<lambda>row. row\<lparr>c_status := statusRevoked\<rparr>) (table t k)) \<Longrightarrow>
      pg_ok u \<and> pg_recs u = (pg_recs t)(k := map_option Revoked (pg_recs t k))" for u
    using pg_revoke_table [of u t k] assms(2) by simp
  then show ?thesis
    using OpRevoke assms by (auto simp: inMemStore_def pgStore_def inMem_Revoke_eq pg_Revoke_def pg_no_fault [OF assms(1)] split: if_splits)
next
  case (OpActive ord c now)
  have "pg_ok (t\<lparr>statements := n\<rparr>)" "pg_recs (t\<lparr>statements := n\<rparr>) = pg_recs t" for n
    using assms(2) by (simp_all add: pg_ok_def pg_recs_def fun_eq_iff)
  then show ?thesis
    using OpActive assms by (auto simp: inMemStore_def pgStore_def inMem_ActiveRecords_def pg_ActiveRecords_def pg_no_fault [OF assms(1)]
        collect_active [OF assms(2)] split: if_splits)
qed

text \<open>
  C21: the Postgres leg refines the in-memory store, up to the precision of its instants. While the
  database answers, any sequence of puts, gets, listings, revokes and active listings, of any records
  and under any contexts, gets from the table the answers that the in-memory store gives to the same
  calls with the two instants of every put record cut to whole microseconds and every status other
  than revoked read as active; and the contents agree afterwards. The only records left out are
  those with an expiry strictly inside the first microsecond of the year one, which cuts to no expiry.
\<close>

theorem postgres_refines_memory:
  assumes "\<And>n. fl n = PgOk" and "pg_ok t" and "records s = pg_recs t" and "list_all op_dated xs"
  shows "fst (run_rs (pgStore fl) xs t) = fst (run_rs inMemStore (map cut_op xs) s) \<and>
    pg_recs (snd (run_rs (pgStore fl) xs t)) = records (snd (run_rs inMemStore (map cut_op xs) s))"
  using assms(2-4)
proof (induction xs arbitrary: s t)
  case (Cons x xs)
  obtain a s1 where a: "run_rs_op inMemStore (cut_op x) s = (a, s1)" by fastforce
  obtain b t1 where b: "run_rs_op (pgStore fl) x t = (b, t1)" by fastforce
  have "a = b \<and> pg_ok t1 \<and> records s1 = pg_recs t1"
    using store_step_agrees [OF assms(1) Cons.prems(1,2) _ a b] Cons.prems(3) by simp
  with Cons.IH [of t1 s1] Cons.prems(3) a b show ?case
    by (cases "run_rs inMemStore (map cut_op xs) s1"; cases "run_rs (pgStore fl) xs t1") simp
qed simp

definition demo_record :: KeyRecord where
  "demo_record = \<lparr>KeyID = ''k1'', KeyHash = ''h'', Salt = ''s'', KrTenant = ''acme'', KrDeployment = ''prod'', ExpiresAt = 5000,
     Status = StatusActive, CreatedAt = 1000\<rparr>"

theorem postgres_refines_memory_witness:
  "let r = demo_record\<lparr>ExpiresAt := 5999\<rparr>;
       xs = [OpPut False r, OpActive [''k1''] False 4999, OpActive [''k1''] False 5500, OpRevoke False ''k1'', OpGet False ''k1''] in
   fst (run_rs (pgStore (\<lambda>_. PgOk)) xs \<lparr>table = (\<lambda>_. None), statements = 0\<rparr>) =
     [RaDone None, RaRecords (Inr [demo_record]), RaRecords (Inr []), RaDone None, RaRecord (Inr (demo_record\<lparr>Status := StatusRevoked\<rparr>))]"
proof -
  let ?r = "demo_record\<lparr>ExpiresAt := 5999\<rparr>"
  let ?xs = "[OpPut False ?r, OpActive [''k1''] False 4999, OpActive [''k1''] False 5500, OpRevoke False ''k1'', OpGet False ''k1'']"
  let ?t = "\<lparr>table = (\<lambda>_. None), statements = 0\<rparr>"
  have "pg_ok ?t" "records NewInMemRecordStore = pg_recs ?t"
    by (simp_all add: pg_ok_def NewInMemRecordStore_def pg_recs_def fun_eq_iff)
  moreover have "list_all op_dated ?xs" by simp
  ultimately have "fst (run_rs (pgStore (\<lambda>_. PgOk)) ?xs ?t) = fst (run_rs inMemStore (map cut_op ?xs) NewInMemRecordStore)"
    using postgres_refines_memory [of "\<lambda>_. PgOk"] by blast
  also have "\<dots> = [RaDone None, RaRecords (Inr [demo_record]), RaRecords (Inr []), RaDone None, RaRecord (Inr (demo_record\<lparr>Status := StatusRevoked\<rparr>))]"
    by (simp add: inMemStore_def inMem_Put_def inMem_Get_def inMem_ActiveRecords_def inMem_Revoke_def NewInMemRecordStore_def
        demo_record_def in_micros_def StatusActive_def IsActive_def IsExpired_def List.map_filter_def)
  finally show ?thesis by (simp add: Let_def)
qed

subsection \<open>The form of a minted key\<close>

definition key_body :: "string \<Rightarrow> bool" where
  "key_body b \<longleftrightarrow> length b = base62Width \<and> list_all (\<lambda>x. x \<in> set base62Alphabet) b"

lemma base62_in: "accepted b \<Longrightarrow> base62_char b \<in> set base62Alphabet"
  unfolding base62_char_def accepted_def rejectThreshold_def by (rule nth_mem) (simp add: alphabet)

lemma sample_in:
  assumes "length out < base62Width" and "list_all (\<lambda>x. x \<in> set base62Alphabet) out"
  shows "length (sample bs out) \<le> base62Width \<and> list_all (\<lambda>x. x \<in> set base62Alphabet) (sample bs out)"
proof -
  have "set (out @ map base62_char (filter accepted bs)) \<subseteq> set base62Alphabet"
    using assms(2) base62_in by (auto simp: list_all_iff)
  then have "set (sample bs out) \<subseteq> set base62Alphabet"
    unfolding sample_eq [OF assms(1)] using set_take_subset by fast
  then show ?thesis by (auto simp: list_all_iff sample_eq [OF assms(1)])
qed

lemma encode_form:
  assumes "encodeBase62 rd i out = Some (Inr body)" and "length out \<le> base62Width" and "list_all (\<lambda>x. x \<in> set base62Alphabet) out"
  shows "key_body body"
proof -
  let ?P = "\<lambda>(_::entropy) (_::nat) out (y::string result). length out \<le> base62Width \<longrightarrow> list_all (\<lambda>x. x \<in> set base62Alphabet) out \<longrightarrow>
      (\<forall>b. y = Inr b \<longrightarrow> key_body b)"
  have "?P rd i out (Inr body)"
  proof (rule encodeBase62.raw_induct [where P = ?P, OF _ assms(1)], intro impI allI)
    fix enc and rd :: entropy and i out y b
    assume IH: "\<And>rd i out y. enc rd i out = Some y \<Longrightarrow> ?P rd i out y"
      and run: "(if length out < base62Width then
          (case rd i of Inl e \<Rightarrow> Some (Inl e)
           | Inr bs \<Rightarrow> if length bs < randScratchSize then Some (Inl [Dynamic ''entropy source short read''])
               else enc rd (Suc i) (sample (take randScratchSize bs) out))
        else Some (Inr out)) = Some y"
      and out: "length out \<le> base62Width" "list_all (\<lambda>x. x \<in> set base62Alphabet) out" and y: "y = Inr b"
    show "key_body b"
    proof (cases "length out < base62Width")
      case True
      then obtain bs where "enc rd (Suc i) (sample (take randScratchSize bs) out) = Some y"
        using run y by (auto split: sum.splits if_splits)
      then show ?thesis using IH y sample_in [OF True out(2)] by blast
    next
      case False
      then show ?thesis using run y out by (simp add: key_body_def)
    qed
  qed
  then show ?thesis using assms(2,3) by blast
qed

lemma mint_form: "Minter_Mint rd = Some (Inr sk) \<Longrightarrow> \<exists>body. SecretKey_Reveal sk = skPrefix @ body \<and> key_body body"
  using encode_form [of rd 0 "''''"]
  by (auto simp: Minter_Mint_def SecretKey_Reveal_def newSecretKey_def split: option.splits sum.splits)

lemma new_record:
  assumes "NewRecord sk sb ib tenant deployment expiry now = Inr rec"
  shows "KeyHash rec = sha256 (Salt rec @ SecretKey_Reveal sk) \<and> length (Salt rec) = saltLen \<and> validateSalt (Salt rec) = None \<and>
    KrTenant rec = tenant \<and> KrDeployment rec = deployment \<and> ExpiresAt rec = expiry \<and> Status rec = StatusActive \<and> CreatedAt rec = now \<and>
    (\<exists>bs. length bs = keyIDLen \<and> KeyID rec = hex_encode bs)"
  using assms by (auto simp: NewRecord_def NewRecordWithSalt_def ReadFull_def Let_def split: sum.splits option.splits if_splits)

end
