(* ===== verification/Atomic_File.thy ===== *)
theory Atomic_File
  imports Ctl_Prelude
begin

text \<open>
  Replacing a file in one step: \<open>writeAtomicWithPerm\<close> of \<open>internal/mcpkeyset/artifact.go\<close>, which
  \<open>internal/jwks/artifact.go\<close> repeats as \<open>writeAtomic\<close>. A directory tree maps paths to a mode and a
  content, and keeps every state it went through; each system call takes its answer from a schedule.
  Shown: whatever fails and wherever the daemon is stopped, a reader of the target sees the old file
  or the whole new one.
\<close>

type_synonym tree = "string \<Rightarrow> (nat \<times> string) option"

record afs =
  tree :: tree
  af_calls :: nat
  af_past :: "tree list"

text \<open>
  The answers: \<open>os.CreateTemp\<close> chooses a name that does not exist; a write puts a number of bytes and
  answers an error or none; the other calls answer an error or none.
\<close>

record afs_answers =
  at_temp :: "nat \<Rightarrow> string result"
  at_chmod :: "nat \<Rightarrow> err option"
  at_write :: "nat \<Rightarrow> nat \<times> err option"
  at_sync :: "nat \<Rightarrow> err option"
  at_close :: "nat \<Rightarrow> err option"
  at_rename :: "nat \<Rightarrow> err option"
  at_remove :: "nat \<Rightarrow> err option"
  at_stat :: "nat \<Rightarrow> err option"
  at_read :: "nat \<Rightarrow> err option"

definition af_tick :: "afs \<Rightarrow> afs" where
  "af_tick s = s\<lparr>af_calls := Suc (af_calls s)\<rparr>"

definition af_put :: "tree \<Rightarrow> afs \<Rightarrow> afs" where
  "af_put t s = s\<lparr>tree := t, af_calls := Suc (af_calls s), af_past := af_past s @ [t]\<rparr>"

text \<open>The deferred clean-up: after a rename there is nothing left to remove.\<close>

definition remove_temp :: "afs_answers \<Rightarrow> string \<Rightarrow> afs \<Rightarrow> afs" where
  "remove_temp A tmp s =
     (if at_remove A (af_calls s) = None then af_put ((tree s)(tmp := None)) s else af_tick s)"

definition fill_temp :: "afs_answers \<Rightarrow> string \<Rightarrow> string \<Rightarrow> nat \<Rightarrow> afs \<Rightarrow> err option \<times> afs" where
  "fill_temp A tmp data perm s =
     (case at_chmod A (af_calls s) of Some e \<Rightarrow> (Some e, af_tick s)
      | None \<Rightarrow>
          let s1 = af_put ((tree s)(tmp := Some (perm, ''''))) s; (n, werr) = at_write A (af_calls s1);
              s2 = af_put ((tree s1)(tmp := Some (perm, take n data))) s1 in
          case werr of Some e \<Rightarrow> (Some e, s2)
          | None \<Rightarrow>
              if length (take n data) \<noteq> length data then (Some [Dynamic ''short write''], s2)
              else case at_sync A (af_calls s2) of Some e \<Rightarrow> (Some e, af_tick s2)
              | None \<Rightarrow>
                  (case at_close A (Suc (af_calls s2)) of Some e \<Rightarrow> (Some e, af_tick (af_tick s2))
                   | None \<Rightarrow> (None, af_tick (af_tick s2))))"

definition rename_temp :: "afs_answers \<Rightarrow> string \<Rightarrow> string \<Rightarrow> afs \<Rightarrow> err option \<times> afs" where
  "rename_temp A tmp path s =
     (case at_rename A (af_calls s) of Some e \<Rightarrow> (Some e, af_tick s)
      | None \<Rightarrow> (None, af_put ((tree s)(path := tree s tmp, tmp := None)) s))"

definition writeAtomicWithPerm :: "afs_answers \<Rightarrow> string \<Rightarrow> string \<Rightarrow> nat \<Rightarrow> afs \<Rightarrow> err option \<times> afs" where
  "writeAtomicWithPerm A path data perm s =
     (case at_temp A (af_calls s) of Inl e \<Rightarrow> (Some e, af_tick s)
      | Inr tmp \<Rightarrow>
          if tree s tmp \<noteq> None then (Some [Dynamic ''create temp: file exists''], af_tick s)
          else
            let s1 = af_put ((tree s)(tmp := Some (384, ''''))) s in
            case fill_temp A tmp data perm s1 of
              (Some e, s2) \<Rightarrow> (Some e, remove_temp A tmp s2)
            | (None, s2) \<Rightarrow>
                (case rename_temp A tmp path s2 of (e, s3) \<Rightarrow> (e, remove_temp A tmp s3)))"

definition artifactPerm :: nat where "artifactPerm = 420"

text \<open>The same steps with the mode of a public document.\<close>

definition writeAtomic :: "afs_answers \<Rightarrow> string \<Rightarrow> string \<Rightarrow> afs \<Rightarrow> err option \<times> afs" where
  "writeAtomic A path data = writeAtomicWithPerm A path data artifactPerm"

subsection \<open>Old or new, never torn\<close>

text \<open>
  A tree a write may show: the target is as before or complete, and every other file that existed is
  as before.
\<close>

definition whole :: "string \<Rightarrow> nat \<times> string \<Rightarrow> tree \<Rightarrow> tree \<Rightarrow> bool" where
  "whole path new old t \<longleftrightarrow>
     (t path = old path \<or> t path = Some new) \<and> (\<forall>p. p \<noteq> path \<longrightarrow> old p \<noteq> None \<longrightarrow> t p = old p)"

text \<open>The states a run goes through, from one state to a later one.\<close>

definition via :: "(tree \<Rightarrow> bool) \<Rightarrow> afs \<Rightarrow> afs \<Rightarrow> bool" where
  "via P s s' \<longleftrightarrow> (\<exists>ts. af_past s' = af_past s @ ts \<and> (\<forall>t \<in> set ts. P t)) \<and> P (tree s')"

lemma via_refl: "P (tree s) \<Longrightarrow> via P s s"
  by (auto simp: via_def intro: exI [of _ "[]"])

lemma via_trans: "via P s s' \<Longrightarrow> via P s' s'' \<Longrightarrow> via P s s''"
  by (auto simp: via_def)

lemma via_put: "via P s s' \<Longrightarrow> P t \<Longrightarrow> via P s (af_put t s')"
  by (auto simp: via_def af_put_def)

lemma via_tick: "via P s s' \<Longrightarrow> via P s (af_tick s')"
  by (auto simp: via_def af_tick_def)

lemma tree_simps [simp]: "tree (af_put t s) = t" "tree (af_tick s) = tree s"
  by (simp_all add: af_put_def af_tick_def)

lemma via_remove:
  assumes "via P s s'" and "P ((tree s')(tmp := None))"
  shows "via P s (remove_temp A tmp s')"
  using assms by (simp add: remove_temp_def via_put via_tick)

text \<open>Only the temporary file changes while it is filled; without an error it is complete.\<close>

lemma fill_temp_tree:
  assumes "fill_temp A tmp data perm s = (r, s')"
  shows "\<exists>c. tree s' = (tree s)(tmp := c) \<and> (r = None \<longrightarrow> c = Some (perm, data))"
  using assms
  by (auto simp: fill_temp_def Let_def intro: exI [of _ "tree s tmp"] split: option.splits prod.splits if_splits)

lemma fill_temp_via:
  assumes "fill_temp A tmp data perm s = (r, s')" and "\<And>c. P ((tree s)(tmp := c))"
  shows "via P s s'"
proof -
  have "P (tree s)" using assms(2) [of "tree s tmp"] by simp
  then have s: "via P s s" by (rule via_refl)
  have 1: "via P s (af_put ((tree s)(tmp := Some (perm, ''''))) s)" by (intro via_put s assms(2))
  have 2: "via P s (af_put ((tree s)(tmp := Some (perm, take n data))) (af_put ((tree s)(tmp := Some (perm, ''''))) s))" for n
    by (intro via_put 1 assms(2))
  show ?thesis
    using assms(1) s 2 2 [of "length data"]
    by (auto simp: fill_temp_def Let_def intro!: via_tick split: option.splits prod.splits if_splits)
qed

lemma whole_temp: "whole path new old t \<Longrightarrow> tmp \<noteq> path \<Longrightarrow> old tmp = None \<Longrightarrow> whole path new old (t(tmp := c))"
  by (auto simp: whole_def)

lemma whole_refl: "whole path new old old"
  by (simp add: whole_def)

lemma rename_temp_whole:
  assumes "rename_temp A tmp path s = (r, s')" and "tmp \<noteq> path" and "old tmp = None" and "tree s = old(tmp := Some new)"
  shows "via (whole path new old) s s'"
    and "tree s' = (if r = None then old(path := Some new) else old(tmp := Some new))"
proof -
  have s: "via (whole path new old) s s"
    using assms(2-4) by (intro via_refl) (simp add: whole_temp whole_refl)
  have new: "via (whole path new old) s (af_put (old(path := Some new)) s)"
    by (intro via_put s) (simp add: whole_def)
  have "(tree s)(path := tree s tmp, tmp := None) = old(path := Some new)" using assms(2-4) by auto
  then show "via (whole path new old) s s'"
    and "tree s' = (if r = None then old(path := Some new) else old(tmp := Some new))"
    using assms(1,4) new via_tick [OF s] by (auto simp: rename_temp_def split: option.splits)
qed

lemma remove_temp_cases:
  obtains "tree (remove_temp A tmp s) = (tree s)(tmp := None)"
  | "tree (remove_temp A tmp s) = tree s" "at_remove A (af_calls s) \<noteq> None"
  by (cases "at_remove A (af_calls s)") (auto simp: remove_temp_def)

text \<open>From an open temporary file to the end.\<close>

lemma atomic_write_open:
  assumes "tmp \<noteq> path" and "old tmp = None" and "tree s1 = old(tmp := Some x)"
    and "(case fill_temp A tmp data perm s1 of (Some e, s2) \<Rightarrow> (Some e, remove_temp A tmp s2)
          | (None, s2) \<Rightarrow> (case rename_temp A tmp path s2 of (e, s3) \<Rightarrow> (e, remove_temp A tmp s3))) = (r, s')"
  shows "via (whole path (perm, data) old) s1 s' \<and>
    tree s' path = (if r = None then Some (perm, data) else old path) \<and>
    (r = None \<or> (\<forall>k. at_remove A k = None) \<longrightarrow> (\<forall>p. p \<noteq> path \<longrightarrow> tree s' p = old p))"
proof -
  let ?P = "whole path (perm, data) old"
  obtain r2 s2 where f: "fill_temp A tmp data perm s1 = (r2, s2)" by fastforce
  obtain c where c: "tree s2 = old(tmp := c)" "r2 = None \<Longrightarrow> c = Some (perm, data)"
    using fill_temp_tree [OF f] assms(3) by auto
  have v2: "via ?P s1 s2"
    using fill_temp_via [OF f, of ?P] assms(1-3) by (simp add: whole_temp whole_refl)
  show ?thesis
  proof (cases r2)
    case (Some e)
    then have s': "r = Some e" "s' = remove_temp A tmp s2" using assms(4) f by simp_all
    have "via ?P s1 s'" unfolding s' using v2 assms(1,2) c(1)
      by (intro via_remove) (simp_all add: whole_temp whole_refl)
    moreover have "old(tmp := None) = old" using assms(2) by auto
    ultimately show ?thesis using remove_temp_cases [of A tmp s2] s' c(1) assms(1) by (metis fun_upd_apply fun_upd_upd option.distinct(1))
  next
    case None
    obtain r3 s3 where g: "rename_temp A tmp path s2 = (r3, s3)" by fastforce
    have s': "r = r3" "s' = remove_temp A tmp s3" using assms(4) f g None by simp_all
    note n = rename_temp_whole [where old = old and new = "(perm, data)", OF g assms(1,2)]
    have t2: "tree s2 = old(tmp := Some (perm, data))" using c None by simp
    have u: "?P (t(tmp := None))" if "?P t" for t using whole_temp [OF that assms(1,2)] .
    have "via ?P s1 s3" using via_trans [OF v2 n(1) [OF t2]] .
    moreover from this have "?P (tree s3)" by (simp add: via_def)
    ultimately have "via ?P s1 s'" unfolding s' by (intro via_remove u)
    moreover have "tree s' path = (if r = None then Some (perm, data) else old path)"
      using remove_temp_cases [of A tmp s3] n(2) [OF t2] s' assms(1) by (metis fun_upd_apply)
    moreover have "tree s' p = old p" if "r = None \<or> (\<forall>k. at_remove A k = None)" "p \<noteq> path" for p
      using n(2) [OF t2] s' that assms(2) by (cases rule: remove_temp_cases [of A tmp s3]) (auto split: if_splits)
    ultimately show ?thesis by blast
  qed
qed

lemma atomic_write_run:
  assumes "writeAtomicWithPerm A path data perm s = (r, s')" and "\<And>k. at_temp A k \<noteq> Inr path"
  shows "via (whole path (perm, data) (tree s)) s s' \<and>
    tree s' path = (if r = None then Some (perm, data) else tree s path) \<and>
    (r = None \<or> (\<forall>k. at_remove A k = None) \<longrightarrow> (\<forall>p. p \<noteq> path \<longrightarrow> tree s' p = tree s p))"
proof (cases "\<exists>tmp. at_temp A (af_calls s) = Inr tmp \<and> tree s tmp = None")
  case True
  then obtain tmp where tmp: "at_temp A (af_calls s) = Inr tmp" "tree s tmp = None" by blast
  then have ne: "tmp \<noteq> path" using assms(2) by metis
  let ?s1 = "af_put ((tree s)(tmp := Some (384, ''''))) s"
  have "via (whole path (perm, data) (tree s)) s ?s1"
    using ne tmp(2) by (intro via_put via_refl) (simp_all add: whole_temp whole_refl)
  moreover note atomic_write_open [where old = "tree s" and ?s1.0 = ?s1 and x = "(384, '''')", OF ne tmp(2), of A data perm r s']
  ultimately show ?thesis using assms(1) tmp via_trans by (auto simp: writeAtomicWithPerm_def Let_def)
next
  case False
  then have "r \<noteq> None" "s' = af_tick s"
    using assms(1) by (auto simp: writeAtomicWithPerm_def split: sum.splits if_splits)
  moreover have "via (whole path (perm, data) (tree s)) s (af_tick s)" by (intro via_tick via_refl whole_refl)
  ultimately show ?thesis by auto
qed

text \<open>What the writers of the artifacts rest on.\<close>

lemma atomic_write_done:
  assumes "writeAtomicWithPerm A path data perm s = (None, s')" and "\<And>k. at_temp A k \<noteq> Inr path"
  shows "tree s' = (tree s)(path := Some (perm, data))"
  using atomic_write_run [OF assms] by (auto simp: fun_eq_iff)

lemma atomic_write_failed:
  assumes "writeAtomicWithPerm A path data perm s = (Some e, s')" and "\<And>k. at_temp A k \<noteq> Inr path"
  shows "tree s' path = tree s path"
  using atomic_write_run [OF assms] by simp

text \<open>
  C20: replacing an artifact is all or nothing. Whatever the system calls answer, in every state the
  files go through the target holds its old content or the complete new one with the given mode, and
  every other file that existed is unchanged. On success the target is new and nothing else has
  changed; on an error it is old, and if clean-up works nothing at all has changed. A reader of the
  published key set or of the JWKS document never sees a part of it.
\<close>

theorem atomic_write:
  assumes "writeAtomicWithPerm A path data perm s = (r, s')" and "\<And>k. at_temp A k \<noteq> Inr path"
  shows "via (whole path (perm, data) (tree s)) s s' \<and>
    tree s' path = (if r = None then Some (perm, data) else tree s path) \<and>
    (r = None \<or> (\<forall>k. at_remove A k = None) \<longrightarrow> (\<forall>p. p \<noteq> path \<longrightarrow> tree s' p = tree s p))"
  by (rule atomic_write_run [OF assms])

definition demo_afs :: afs where
  "demo_afs = \<lparr>tree = (\<lambda>p. if p = ''keys'' then Some (420, ''old'') else None), af_calls = 0, af_past = []\<rparr>"

definition demo_answers :: afs_answers where
  "demo_answers = \<lparr>at_temp = (\<lambda>_. Inr ''.tmp''), at_chmod = (\<lambda>_. None), at_write = (\<lambda>_. (100, None)), at_sync = (\<lambda>_. None),
     at_close = (\<lambda>_. None), at_rename = (\<lambda>_. None), at_remove = (\<lambda>_. None), at_stat = (\<lambda>_. None), at_read = (\<lambda>_. None)\<rparr>"

theorem atomic_write_witness:
  "let (r, s') = writeAtomicWithPerm demo_answers ''keys'' ''new'' 420 demo_afs in
   r = None \<and> via (whole ''keys'' (420, ''new'') (tree demo_afs)) demo_afs s' \<and> tree s' ''keys'' = Some (420, ''new'') \<and>
   tree s' ''.tmp'' = None"
proof -
  obtain r s' where w: "writeAtomicWithPerm demo_answers ''keys'' ''new'' 420 demo_afs = (r, s')" by fastforce
  have "r = None"
    using w by (simp add: writeAtomicWithPerm_def fill_temp_def rename_temp_def demo_answers_def demo_afs_def)
  moreover have "at_temp demo_answers k \<noteq> Inr ''keys''" for k by (simp add: demo_answers_def)
  moreover have "tree demo_afs ''.tmp'' = None" by (simp add: demo_afs_def)
  ultimately show ?thesis using atomic_write [OF w] w by (simp add: demo_afs_def)
qed

end
