(* ===== verification/Mcpkey_Set.thy ===== *)
theory Mcpkey_Set
  imports Mcpkey Atomic_File
begin

text \<open>
  The two files of the MCP keys, \<open>internal/mcpkeyset/artifact.go\<close>, and the daemon's wiring of them,
  \<open>renderMCPKeyArtifacts\<close> and \<open>buildMCPKeyEngine\<close> of \<open>cmd/ocu-controld/main.go\<close>: the published key set
  with the active records, and the entries file with all records, from which a restarted daemon
  seeds its store. Shown: what the published file says after a revoke; that a restart reads back
  every record; and how a failed write of the entries file lets a later boot activate a revoked key
  of a durable store.
\<close>

abbreviation ErrLoosePermissions :: sentinel where "ErrLoosePermissions \<equiv> Named ''mcpkeyset: loose permissions''"
abbreviation ErrNotExist :: sentinel where "ErrNotExist \<equiv> Named ''os: file does not exist''"

subsection \<open>The published key set\<close>

definition keySetPerm :: nat where "keySetPerm = 420"
definition entriesPerm :: nat where "entriesPerm = 384"
definition stateActive :: string where "stateActive = ''active''"
definition stateDenyAll :: string where "stateDenyAll = ''deny-all''"

definition newline_byte :: char where "newline_byte = char_of (10::nat)"

definition keySetRecord :: "KeyRecord \<Rightarrow> json" where
  "keySetRecord r = JObj (
     [(''key_id'', JStr (KeyID r)), (''key_hash'', JStr (hex_encode (KeyHash r))), (''salt'', JStr (hex_encode (Salt r))),
      (''tenant'', JStr (KrTenant r)), (''deployment'', JStr (KrDeployment r)), (''status'', JStr StatusActive)] @
     (if ExpiresAt r = 0 then [] else [(''expires_at'', JStr (format_RFC3339 (ExpiresAt r)))]) @
     [(''created_at'', JStr (format_RFC3339 (CreatedAt r)))])"

definition keySetDoc :: "KeyRecord list \<Rightarrow> json" where
  "keySetDoc active = JObj
     [(''version'', jnat 1), (''state'', JStr (if active = [] then stateDenyAll else stateActive)),
      (''records'', JArr (map keySetRecord active))]"

definition WriteKeySet :: "afs_answers \<Rightarrow> string \<Rightarrow> KeyRecord list \<Rightarrow> time \<Rightarrow> afs \<Rightarrow> err option \<times> afs" where
  "WriteKeySet A path rs now =
     writeAtomicWithPerm A path (MarshalIndent (keySetDoc (filter (\<lambda>r. IsActive r now) rs)) @ [newline_byte]) keySetPerm"

subsection \<open>The entries file\<close>

text \<open>
  Instants are written in UTC. Go keeps the offset of a value's location in the text; the instant that
  is read back is the same, and the refusal of years past 9999 differs only within a day of that edge.
\<close>

definition entry_json :: "KeyRecord \<Rightarrow> json option" where
  "entry_json r =
     (case (time_text (ExpiresAt r), time_text (CreatedAt r)) of
        (Some ex, Some cr) \<Rightarrow> Some (JObj
          [(''key_id'', JStr (KeyID r)), (''key_hash'', JStr (b64_encode (KeyHash r))), (''salt'', JStr (b64_encode (Salt r))),
           (''tenant'', JStr (KrTenant r)), (''deployment'', JStr (KrDeployment r)), (''expires_at'', JStr ex),
           (''status'', JStr (Status r)), (''created_at'', JStr cr)])
      | _ \<Rightarrow> None)"

fun entries_json :: "KeyRecord list \<Rightarrow> json list option" where
  "entries_json [] = Some []"
| "entries_json (r # rs) =
     (case (entry_json r, entries_json rs) of (Some j, Some js) \<Rightarrow> Some (j # js) | _ \<Rightarrow> None)"

definition entriesDoc :: "json list \<Rightarrow> json" where
  "entriesDoc js = JObj [(''version'', jnat 1), (''records'', JArr js)]"

definition WriteEntriesFile :: "afs_answers \<Rightarrow> string \<Rightarrow> KeyRecord list \<Rightarrow> afs \<Rightarrow> err option \<times> afs" where
  "WriteEntriesFile A path rs s =
     (case entries_json rs of None \<Rightarrow> (Some [Dynamic ''marshal entries''], s)
      | Some js \<Rightarrow> writeAtomicWithPerm A path (MarshalIndent (entriesDoc js) @ [newline_byte]) entriesPerm s)"

text \<open>
  Reading back: byte slices from base64, or from a list of numbers, instants from their text. A text
  with escapes in an instant, which the decoder of instants refuses, is not told apart.
\<close>

definition zeroRecord :: KeyRecord where
  "zeroRecord = \<lparr>KeyID = '''', KeyHash = '''', Salt = '''', KrTenant = '''', KrDeployment = '''', ExpiresAt = 0, Status = '''', CreatedAt = 0\<rparr>"

fun byte_list :: "json list \<Rightarrow> string option" where
  "byte_list [] = Some []"
| "byte_list (v # vs) =
     (case (field_uint 8 v 0, byte_list vs) of (Some n, Some bs) \<Rightarrow> Some (char_of n # bs) | _ \<Rightarrow> None)"

fun field_bytes :: "json \<Rightarrow> string option" where
  "field_bytes (JStr s) = b64_decode s"
| "field_bytes JNull = Some []"
| "field_bytes (JArr vs) = byte_list vs"
| "field_bytes _ = None"

fun field_time :: "json \<Rightarrow> time \<Rightarrow> time option" where
  "field_time (JStr s) old = parse_rfc3339 s"
| "field_time JNull old = Some old"
| "field_time _ old = None"

definition record_field :: "KeyRecord \<Rightarrow> string \<Rightarrow> string \<Rightarrow> json \<Rightarrow> KeyRecord option" where
  "record_field r k t v =
     (if k = ''key_id'' then map_option (\<lambda>x. r\<lparr>KeyID := x\<rparr>) (field_string v (KeyID r))
      else if k = ''key_hash'' then map_option (\<lambda>x. r\<lparr>KeyHash := x\<rparr>) (field_bytes v)
      else if k = ''salt'' then map_option (\<lambda>x. r\<lparr>Salt := x\<rparr>) (field_bytes v)
      else if k = ''tenant'' then map_option (\<lambda>x. r\<lparr>KrTenant := x\<rparr>) (field_string v (KrTenant r))
      else if k = ''deployment'' then map_option (\<lambda>x. r\<lparr>KrDeployment := x\<rparr>) (field_string v (KrDeployment r))
      else if k = ''expires_at'' then map_option (\<lambda>x. r\<lparr>ExpiresAt := x\<rparr>) (field_time v (ExpiresAt r))
      else if k = ''status'' then map_option (\<lambda>x. r\<lparr>Status := x\<rparr>) (field_string v (Status r))
      else if k = ''created_at'' then map_option (\<lambda>x. r\<lparr>CreatedAt := x\<rparr>) (field_time v (CreatedAt r))
      else Some r)"

fun decode_value :: "('a \<Rightarrow> string \<Rightarrow> string \<Rightarrow> json \<Rightarrow> 'a option) \<Rightarrow> 'a \<Rightarrow> json \<Rightarrow> 'a option" where
  "decode_value f zero (JObj kvs) = decode_members f (map (\<lambda>(k, v). (k, '''', v)) kvs) zero"
| "decode_value f zero JNull = Some zero"
| "decode_value f zero _ = None"

fun record_list :: "json list \<Rightarrow> KeyRecord list option" where
  "record_list [] = Some []"
| "record_list (v # vs) =
     (case (decode_value record_field zeroRecord v, record_list vs) of (Some r, Some rs) \<Rightarrow> Some (r # rs) | _ \<Rightarrow> None)"

fun field_records :: "json \<Rightarrow> KeyRecord list option" where
  "field_records (JArr vs) = record_list vs"
| "field_records JNull = Some []"
| "field_records _ = None"

definition entries_field :: "int \<times> KeyRecord list \<Rightarrow> string \<Rightarrow> string \<Rightarrow> json \<Rightarrow> (int \<times> KeyRecord list) option" where
  "entries_field d k t v =
     (if k = ''version'' then map_option (\<lambda>x. (x, snd d)) (field_int64 v (fst d))
      else if k = ''records'' then map_option (\<lambda>x. (fst d, x)) (field_records v)
      else Some d)"

definition LoadEntriesFile :: "afs_answers \<Rightarrow> string \<Rightarrow> afs \<Rightarrow> KeyRecord list result \<times> afs" where
  "LoadEntriesFile A path s =
     (case at_stat A (af_calls s) of Some e \<Rightarrow> (Inl e, af_tick s)
      | None \<Rightarrow>
          (case tree s path of None \<Rightarrow> (Inl [ErrNotExist], af_tick s)
           | Some (mode, raw) \<Rightarrow>
               if mode mod 128 \<noteq> 0 then (Inl [ErrLoosePermissions], af_tick s)
               else case at_read A (Suc (af_calls s)) of Some e \<Rightarrow> (Inl e, af_tick (af_tick s))
               | None \<Rightarrow>
                   (case json_parse raw of None \<Rightarrow> (Inl [Dynamic ''parse entries file''], af_tick (af_tick s))
                    | Some v \<Rightarrow>
                        (case decode_value entries_field (0, []) v of
                           None \<Rightarrow> (Inl [Dynamic ''parse entries file''], af_tick (af_tick s))
                         | Some d \<Rightarrow> (Inr (snd d), af_tick (af_tick s))))))"

subsection \<open>The daemon\<close>

text \<open>The state of the engine in the daemon is the record store and the file tree.\<close>

definition with_files :: "'r RecordStore \<Rightarrow> ('r \<times> afs) RecordStore" where
  "with_files R =
     \<lparr>RsPut = (\<lambda>c r (s, fs). case RsPut R c r s of (x, s') \<Rightarrow> (x, s', fs)),
      RsGet = (\<lambda>c k (s, fs). case RsGet R c k s of (x, s') \<Rightarrow> (x, s', fs)),
      RsList = (\<lambda>ord c (s, fs). case RsList R ord c s of (x, s') \<Rightarrow> (x, s', fs)),
      RsRevoke = (\<lambda>c k (s, fs). case RsRevoke R c k s of (x, s') \<Rightarrow> (x, s', fs)),
      RsActiveRecords = (\<lambda>ord c now (s, fs). case RsActiveRecords R ord c now s of (x, s') \<Rightarrow> (x, s', fs))\<rparr>"

definition on_files :: "(afs \<Rightarrow> 'a \<times> afs) \<Rightarrow> ('r \<times> afs) cworld \<Rightarrow> 'a \<times> ('r \<times> afs) cworld" where
  "on_files f w = (case f (snd (store w)) of (x, fs') \<Rightarrow> (x, w\<lparr>store := (fst (store w), fs')\<rparr>))"

record mcp_config =
  mcpKeyFile :: string
  mcpKeysetPath :: string

definition render_entries :: "'r RecordStore \<Rightarrow> afs_answers \<Rightarrow> mcp_config \<Rightarrow> env \<Rightarrow> ('r \<times> afs) cworld \<Rightarrow> err option \<times> ('r \<times> afs) cworld" where
  "render_entries R A cfg E w =
     (if mcpKeyFile cfg = '''' then (None, w)
      else case st_call (e_ctx E) (RsList (with_files R) (e_order E (step w))) w of
        (Inl e, w1) \<Rightarrow> (Some e, w1)
      | (Inr all, w1) \<Rightarrow> on_files (WriteEntriesFile A (mcpKeyFile cfg) all) w1)"

definition render_keyset :: "'r RecordStore \<Rightarrow> afs_answers \<Rightarrow> mcp_config \<Rightarrow> env \<Rightarrow> time \<Rightarrow> ('r \<times> afs) cworld \<Rightarrow> RenderOutcome result \<times> ('r \<times> afs) cworld" where
  "render_keyset R A cfg E now w =
     (if mcpKeysetPath cfg = '''' then (Inr \<lparr>DenyAllPending = False\<rparr>, w)
      else case st_call (e_ctx E) (\<lambda>c. RsActiveRecords (with_files R) (e_order E (step w)) c now) w of
        (Inl e, w1) \<Rightarrow> (Inl e, w1)
      | (Inr active, w1) \<Rightarrow>
          (case on_files (WriteKeySet A (mcpKeysetPath cfg) active now) w1 of
             (Some e, w2) \<Rightarrow> (Inl e, w2)
           | (None, w2) \<Rightarrow> (Inr \<lparr>DenyAllPending = (active = [])\<rparr>, w2)))"

definition renderMCPKeyArtifacts ::
  "'r RecordStore \<Rightarrow> afs_answers \<Rightarrow> mcp_config \<Rightarrow> env \<Rightarrow> ('r \<times> afs) cworld \<Rightarrow> RenderOutcome result \<times> ('r \<times> afs) cworld" where
  "renderMCPKeyArtifacts R A cfg E w =
     (let now = e_now E (step w) in
      case render_entries R A cfg E w of
        (Some e, w1) \<Rightarrow> (Inl e, w1)
      | (None, w1) \<Rightarrow> render_keyset R A cfg E now w1)"

fun seed :: "'r RecordStore \<Rightarrow> ctx \<Rightarrow> KeyRecord list \<Rightarrow> 'r \<Rightarrow> err option \<times> 'r" where
  "seed R c [] s = (None, s)"
| "seed R c (r # rs) s =
     (case RsPut R c r s of (Some e, s') \<Rightarrow> (Some e, s') | (None, s') \<Rightarrow> seed R c rs s')"

definition buildMCPKeyEngine ::
  "'r RecordStore \<Rightarrow> afs_answers \<Rightarrow> mcp_config \<Rightarrow> rand_source \<Rightarrow> ctx \<Rightarrow> 'r \<times> afs \<Rightarrow> ('r \<times> afs) KeyEngine result \<times> ('r \<times> afs)" where
  "buildMCPKeyEngine R A cfg rnd c sf =
     (let engine = \<lparr>ke_store = with_files R, ke_rand = rnd, ke_rerender = Some (renderMCPKeyArtifacts R A cfg)\<rparr> in
      if mcpKeyFile cfg = '''' then (Inr engine, sf)
      else case LoadEntriesFile A (mcpKeyFile cfg) (snd sf) of
        (Inl e, fs) \<Rightarrow> (if errors_is e ErrNotExist then Inr engine else Inl e, fst sf, fs)
      | (Inr rs, fs) \<Rightarrow>
          (case seed R c rs (fst sf) of
             (Some e, s) \<Rightarrow> (Inl e, s, fs) | (None, s) \<Rightarrow> (Inr engine, s, fs)))"

subsection \<open>A record reads back\<close>

definition readable :: "KeyRecord \<Rightarrow> bool" where
  "readable r \<longleftrightarrow>
     valid_utf8 (KeyID r) \<and> valid_utf8 (KrTenant r) \<and> valid_utf8 (KrDeployment r) \<and> valid_utf8 (Status r) \<and>
     0 \<le> ExpiresAt r \<and> ExpiresAt r < year10000 \<and> 0 \<le> CreatedAt r \<and> CreatedAt r < year10000"

definition ascii :: "string \<Rightarrow> bool" where "ascii s \<longleftrightarrow> list_all (\<lambda>c. byte c < 128) s"

lemma ascii_simps [simp]: "ascii []" "ascii (c # s) \<longleftrightarrow> byte c < 128 \<and> ascii s" "ascii (s @ t) \<longleftrightarrow> ascii s \<and> ascii t"
  by (simp_all add: ascii_def)

lemma ascii_pad [simp]: "ascii (pad w n)"
  using pad_digits [of _ w n] by (force simp: ascii_def list_all_iff is_digit_def)

lemma ascii_nanos [simp]: "ascii (format_nanos n)"
proof -
  obtain k where "pad 9 n = drop_zeros (pad 9 n) @ replicate k CHR ''0''" using drop_zeros_split by blast
  then have "ascii (drop_zeros (pad 9 n))" using ascii_pad [of 9 n] by (metis ascii_simps(3))
  then show ?thesis by (simp add: format_nanos_def)
qed

lemma ascii_seconds [simp]: "ascii (format_seconds t)"
  by (simp add: format_seconds_def format_year_def Let_def split: prod.split)

lemma ascii_times [simp]: "ascii (format_RFC3339 t)" "ascii (format_RFC3339Nano t)"
  by (simp_all add: format_RFC3339_def format_RFC3339Nano_def)

lemma fix_ascii: "ascii s \<Longrightarrow> utf8_fix s = s"
  by (rule utf8_fix_valid, rule ascii_utf8) (simp add: ascii_def)

lemma ascii_b64: "ascii (b64_encode s)"
  using b64_encode_chars [of _ s] by (auto simp: ascii_def list_all_iff)

lemma ascii_hex: "ascii (hex_encode s)"
proof -
  have "byte (hex_digit n) < 128" if "n < 16" for n using that by (auto simp: hex_digit_def)
  then show ?thesis by (auto simp: ascii_def list_all_iff hex_encode_def hex_byte_def)
qed

lemma lower_keys [simp]:
  "fold_name ''key_id'' = ''key_id''" "fold_name ''key_hash'' = ''key_hash''" "fold_name ''salt'' = ''salt''"
  "fold_name ''tenant'' = ''tenant''" "fold_name ''deployment'' = ''deployment''" "fold_name ''expires_at'' = ''expires_at''"
  "fold_name ''status'' = ''status''" "fold_name ''created_at'' = ''created_at''" "fold_name ''version'' = ''version''"
  "fold_name ''records'' = ''records''"
  by (simp_all add: to_lower_def)

lemma valid_ascii: "ascii s \<Longrightarrow> valid_utf8 s"
  by (rule ascii_utf8) (simp add: ascii_def)

lemma entry_reads:
  assumes "readable r"
  obtains j where "entry_json r = Some j" "json_ok j" "json_norm j = j" "decode_value record_field zeroRecord j = Some r"
proof -
  have tt: "time_text t = Some (format_RFC3339Nano t)" if "0 \<le> t" "t < year10000" for t
    using time_text_read [OF that] by (auto simp: time_text_def Let_def split: if_splits)
  have ex: "time_text (ExpiresAt r) = Some (format_RFC3339Nano (ExpiresAt r))" "time_text (CreatedAt r) = Some (format_RFC3339Nano (CreatedAt r))"
    and p: "parse_rfc3339 (format_RFC3339Nano (ExpiresAt r)) = Some (ExpiresAt r)" "parse_rfc3339 (format_RFC3339Nano (CreatedAt r)) = Some (CreatedAt r)"
    using assms tt parse_format_nano by (simp_all add: readable_def)
  let ?j = "JObj
      [(''key_id'', JStr (KeyID r)), (''key_hash'', JStr (b64_encode (KeyHash r))), (''salt'', JStr (b64_encode (Salt r))),
       (''tenant'', JStr (KrTenant r)), (''deployment'', JStr (KrDeployment r)), (''expires_at'', JStr (format_RFC3339Nano (ExpiresAt r))),
       (''status'', JStr (Status r)), (''created_at'', JStr (format_RFC3339Nano (CreatedAt r)))]"
  have "entry_json r = Some ?j" by (simp add: entry_json_def ex)
  moreover have "json_ok ?j" by (simp add: valid_ascii)
  moreover have "json_norm ?j = ?j" using assms by (simp add: readable_def fix_ascii ascii_b64 utf8_fix_valid)
  moreover have "decode_value record_field zeroRecord ?j = Some r"
    by (simp add: record_field_def p zeroRecord_def)
  ultimately show thesis by (rule that)
qed

lemma entries_read:
  assumes "list_all readable rs"
  obtains js where "entries_json rs = Some js" "list_all json_ok js" "map json_norm js = js" "record_list js = Some rs"
proof -
  have "\<exists>js. entries_json rs = Some js \<and> list_all json_ok js \<and> map json_norm js = js \<and> record_list js = Some rs"
    using assms
  proof (induction rs)
    case (Cons r rs)
    then obtain js where "entries_json rs = Some js" "list_all json_ok js" "map json_norm js = js" "record_list js = Some rs" by auto
    moreover obtain j where "entry_json r = Some j" "json_ok j" "json_norm j = j" "decode_value record_field zeroRecord j = Some r"
      using entry_reads [of r] Cons.prems by auto
    ultimately show ?case by simp
  qed simp
  then show thesis using that by blast
qed

lemma entries_doc_read:
  assumes "list_all readable rs"
  obtains js where "entries_json rs = Some js" "json_parse (MarshalIndent (entriesDoc js) @ [newline_byte]) = Some (entriesDoc js)"
    "decode_value entries_field (0, []) (entriesDoc js) = Some (1, rs)"
proof -
  obtain js where js: "entries_json rs = Some js" "list_all json_ok js" "map json_norm js = js" "record_list js = Some rs"
    using entries_read [OF assms] by blast
  have ok: "json_ok (entriesDoc js)" "json_norm (entriesDoc js) = entriesDoc js"
    using js(2,3) by (simp_all add: entriesDoc_def valid_ascii)
  have "list_all is_ws [newline_byte]" by (simp add: newline_byte_def is_ws_def)
  from parse_indent [OF ok(1) this] ok(2)
  have "json_parse (MarshalIndent (entriesDoc js) @ [newline_byte]) = Some (entriesDoc js)" by simp
  moreover have "jnat 1 = jint 1" by (simp add: jnat_def jint_def)
  then have "field_int64 (jnat 1) 0 = Some 1" using field_int64_jint [of 1 0] by (simp add: int64_min_def int64_max_def)
  then have "decode_value entries_field (0, []) (entriesDoc js) = Some (1, rs)"
    using js(4) by (simp add: entriesDoc_def entries_field_def)
  ultimately show thesis using that js(1) by blast
qed

subsection \<open>Seeding and rendering over any record store\<close>

text \<open>A sequence of puts, one record after the other.\<close>

definition put_all :: "(KeyRecord \<Rightarrow> KeyRecord) \<Rightarrow> (string \<Rightarrow> KeyRecord option) \<Rightarrow> KeyRecord list \<Rightarrow> string \<Rightarrow> KeyRecord option" where
  "put_all keep m rs = foldl (\<lambda>f r. f(KeyID r \<mapsto> keep r)) m rs"

lemma put_all_simps [simp]: "put_all keep m [] = m" "put_all keep m (r # rs) = put_all keep (m(KeyID r \<mapsto> keep r)) rs"
  by (simp_all add: put_all_def)

lemma put_all_listed:
  assumes "\<And>k r. f k = Some r \<Longrightarrow> KeyID r = k"
  shows "put_all keep m (List.map_filter f ks) = (\<lambda>k. if k \<in> set ks \<and> f k \<noteq> None then map_option keep (f k) else m k)"
proof (induction ks arbitrary: m)
  case (Cons k ks)
  show ?case
  proof (cases "f k")
    case None
    then show ?thesis using Cons [of m] by (auto simp: List.map_filter_def fun_eq_iff)
  next
    case (Some r)
    then have "List.map_filter f (k # ks) = r # List.map_filter f ks" "KeyID r = k"
      using assms by (simp_all add: List.map_filter_def)
    then have "put_all keep m (List.map_filter f (k # ks)) =
        (\<lambda>j. if j \<in> set ks \<and> f j \<noteq> None then map_option keep (f j) else (m(k \<mapsto> keep r)) j)"
      by (simp only: put_all_simps Cons)
    then show ?thesis using Some by auto
  qed
qed (simp add: List.map_filter_def)

lemma with_files_simps [simp]:
  "RsPut (with_files R) c r (s, fs) = (case RsPut R c r s of (x, s') \<Rightarrow> (x, s', fs))"
  "RsGet (with_files R) c k (s, fs) = (case RsGet R c k s of (x, s') \<Rightarrow> (x, s', fs))"
  "RsList (with_files R) ord c (s, fs) = (case RsList R ord c s of (x, s') \<Rightarrow> (x, s', fs))"
  "RsRevoke (with_files R) c k (s, fs) = (case RsRevoke R c k s of (x, s') \<Rightarrow> (x, s', fs))"
  "RsActiveRecords (with_files R) ord c now (s, fs) = (case RsActiveRecords R ord c now s of (x, s') \<Rightarrow> (x, s', fs))"
  by (simp_all add: with_files_def)

lemma map_filter_in: "r \<in> set (List.map_filter f ks) \<longleftrightarrow> (\<exists>k \<in> set ks. f k = Some r)"
  by (induction ks) (auto simp: List.map_filter_def)

lemma distinct_listed:
  assumes "distinct ks" and "\<And>k r. f k = Some r \<Longrightarrow> g r = k"
  shows "distinct (map g (List.map_filter f ks))"
proof -
  have "map g (List.map_filter f ks) = filter (\<lambda>k. f k \<noteq> None) ks"
    using assms(2) by (induction ks) (auto simp: List.map_filter_def)
  then show ?thesis using assms(1) by simp
qed

context record_store
begin

lemma seed_done:
  "inv s \<Longrightarrow> list_all storable rs \<Longrightarrow> seed R c rs s = (None, s') \<Longrightarrow> inv s' \<and> recs s' = put_all keep (recs s) rs"
proof (induction rs arbitrary: s)
  case (Cons r rs)
  obtain x s1 where p: "RsPut R c r s = (x, s1)" by fastforce
  then have x: "x = None" using Cons.prems(3) by (cases x) simp_all
  have "inv s1 \<and> recs s1 = (recs s)(KeyID r \<mapsto> keep r)" using put_ok [OF Cons.prems(1), of r c s1] Cons.prems(2) p x by simp
  moreover have "seed R c rs s1 = (None, s')" using Cons.prems(3) p x by simp
  ultimately show ?case using Cons.IH [of s1] Cons.prems(2) by (simp del: fun_upd_apply)
qed simp

lemma render_entries_done:
  assumes "inv (fst (store w))" and "mcpKeyFile cfg \<noteq> ''''" and "render_entries R A cfg E w = (None, w')"
    and "\<And>k. at_temp A k \<noteq> Inr (mcpKeyFile cfg)"
  shows "\<exists>js. entries_json (List.map_filter (recs (fst (store w))) (e_order E (step w))) = Some js \<and>
    tree (snd (store w')) = (tree (snd (store w)))(mcpKeyFile cfg := Some (entriesPerm, MarshalIndent (entriesDoc js) @ [newline_byte])) \<and>
    inv (fst (store w')) \<and> recs (fst (store w')) = recs (fst (store w)) \<and> step w' = Suc (step w) \<and> log w' = log w"
proof -
  obtain s fs where st: "store w = (s, fs)" by fastforce
  obtain y s1 where l: "RsList R (e_order E (step w)) (e_ctx E (step w)) s = (y, s1)" by fastforce
  note r = list_result [OF _ l]
  have i: "inv s" using assms(1) st by simp
  obtain all where y: "y = Inr all" using assms(2,3) l st by (cases y) (auto simp: render_entries_def st_call_def)
  then have all: "all = List.map_filter (recs s) (e_order E (step w))" "inv s1" "recs s1 = recs s" using r [OF i] by simp_all
  obtain x fs1 where wr: "WriteEntriesFile A (mcpKeyFile cfg) all fs = (x, fs1)" by fastforce
  have x: "x = None" "w' = w\<lparr>step := Suc (step w), store := (s1, fs1)\<rparr>"
    using assms(2,3) l y st wr by (simp_all add: render_entries_def st_call_def on_files_def)
  obtain js where js: "entries_json all = Some js" using wr x by (cases "entries_json all") (simp_all add: WriteEntriesFile_def)
  with wr x have "tree fs1 = (tree fs)(mcpKeyFile cfg := Some (entriesPerm, MarshalIndent (entriesDoc js) @ [newline_byte]))"
    using atomic_write_done [OF _ assms(4)] by (simp add: WriteEntriesFile_def)
  then show ?thesis using js all x st by simp
qed

lemma render_keyset_done:
  assumes "inv (fst (store w))" and "mcpKeysetPath cfg \<noteq> ''''" and "render_keyset R A cfg E now w = (Inr out, w')"
    and "\<And>k. at_temp A k \<noteq> Inr (mcpKeysetPath cfg)"
  shows "\<exists>active. active = filter (\<lambda>r. IsActive r now) (List.map_filter (recs (fst (store w))) (e_order E (step w))) \<and>
    tree (snd (store w')) = (tree (snd (store w)))(mcpKeysetPath cfg := Some (keySetPerm, MarshalIndent (keySetDoc active) @ [newline_byte])) \<and>
    inv (fst (store w')) \<and> recs (fst (store w')) = recs (fst (store w)) \<and> out = \<lparr>DenyAllPending = (active = [])\<rparr> \<and> log w' = log w"
proof -
  obtain s fs where st: "store w = (s, fs)" by fastforce
  obtain y s1 where l: "RsActiveRecords R (e_order E (step w)) (e_ctx E (step w)) now s = (y, s1)" by fastforce
  have i: "inv s" using assms(1) st by simp
  note r = active_result [OF i l]
  obtain act where y: "y = Inr act" using assms(2,3) l st by (cases y) (auto simp: render_keyset_def st_call_def)
  then have act: "act = filter (\<lambda>r. IsActive r now) (List.map_filter (recs s) (e_order E (step w)))" "inv s1" "recs s1 = recs s"
    using r by simp_all
  have again: "filter (\<lambda>r. IsActive r now) act = act" by (simp add: act(1))
  obtain x fs1 where wr: "WriteKeySet A (mcpKeysetPath cfg) act now fs = (x, fs1)" by fastforce
  have x: "x = None" "w' = w\<lparr>step := Suc (step w), store := (s1, fs1)\<rparr>" "out = \<lparr>DenyAllPending = (act = [])\<rparr>"
    using assms(2,3) l y st wr by (cases x; simp add: render_keyset_def st_call_def on_files_def)+
  have "tree fs1 = (tree fs)(mcpKeysetPath cfg := Some (keySetPerm, MarshalIndent (keySetDoc act) @ [newline_byte]))"
    using wr x(1) atomic_write_done [OF _ assms(4)] again by (simp add: WriteKeySet_def)
  then show ?thesis using act x st by simp
qed

end

text \<open>The engine of the daemon.\<close>

definition daemon_engine :: "'r RecordStore \<Rightarrow> afs_answers \<Rightarrow> mcp_config \<Rightarrow> rand_source \<Rightarrow> ('r \<times> afs) KeyEngine" where
  "daemon_engine R A cfg rnd =
     \<lparr>ke_store = with_files R, ke_rand = rnd, ke_rerender = Some (renderMCPKeyArtifacts R A cfg)\<rparr>"

lemma build_engine: "buildMCPKeyEngine R A cfg rnd c sf = (Inr K, sf') \<Longrightarrow> K = daemon_engine R A cfg rnd"
  by (auto simp: buildMCPKeyEngine_def daemon_engine_def Let_def split: if_splits sum.splits prod.splits option.splits)

context record_store
begin

text \<open>A successful rendering: both files hold what the store holds.\<close>

lemma render_done:
  assumes "inv (fst (store w))" and "renderMCPKeyArtifacts R A cfg E w = (Inr out, w')"
    and "mcpKeyFile cfg \<noteq> mcpKeysetPath cfg"
    and "\<And>k. at_temp A k \<noteq> Inr (mcpKeyFile cfg)" and "\<And>k. at_temp A k \<noteq> Inr (mcpKeysetPath cfg)"
  shows "inv (fst (store w')) \<and> recs (fst (store w')) = recs (fst (store w)) \<and> log w' = log w \<and>
    (mcpKeyFile cfg \<noteq> '''' \<longrightarrow> (\<exists>js. entries_json (List.map_filter (recs (fst (store w))) (e_order E (step w))) = Some js \<and>
      tree (snd (store w')) (mcpKeyFile cfg) = Some (entriesPerm, MarshalIndent (entriesDoc js) @ [newline_byte]))) \<and>
    (mcpKeysetPath cfg \<noteq> '''' \<longrightarrow> (\<exists>i active.
      active = filter (\<lambda>r. IsActive r (e_now E (step w))) (List.map_filter (recs (fst (store w))) (e_order E i)) \<and>
      out = \<lparr>DenyAllPending = (active = [])\<rparr> \<and>
      tree (snd (store w')) (mcpKeysetPath cfg) = Some (keySetPerm, MarshalIndent (keySetDoc active) @ [newline_byte])))"
proof -
  let ?now = "e_now E (step w)"
  obtain x w1 where e: "render_entries R A cfg E w = (x, w1)" by fastforce
  then have x: "x = None" and k: "render_keyset R A cfg E ?now w1 = (Inr out, w')"
    using assms(2) by (auto simp: renderMCPKeyArtifacts_def split: option.splits)
  have w1: "inv (fst (store w1)) \<and> recs (fst (store w1)) = recs (fst (store w)) \<and> log w1 = log w \<and>
      (mcpKeyFile cfg \<noteq> '''' \<longrightarrow> (\<exists>js. entries_json (List.map_filter (recs (fst (store w))) (e_order E (step w))) = Some js \<and>
        tree (snd (store w1)) (mcpKeyFile cfg) = Some (entriesPerm, MarshalIndent (entriesDoc js) @ [newline_byte])))"
  proof (cases "mcpKeyFile cfg = ''''")
    case True
    then show ?thesis using e assms(1) by (simp add: render_entries_def)
  next
    case False
    from render_entries_done [OF assms(1) False e [unfolded x] assms(4)] show ?thesis by auto
  qed
  show ?thesis
  proof (cases "mcpKeysetPath cfg = ''''")
    case True
    then have "w' = w1" using k by (simp add: render_keyset_def)
    then show ?thesis using w1 True by simp
  next
    case False
    from render_keyset_done [OF conjunct1 [OF w1] False k assms(5)] w1 assms(3) show ?thesis by auto
  qed
qed

lemma revoke_done:
  assumes "inv (fst (store w))" and "KeyEngine_Revoke (daemon_engine R A cfg rnd) E scope k why w = (Inr out, w')"
  obtains w2 where "renderMCPKeyArtifacts R A cfg E w2 = (Inr out, w')" "step w2 = step w + 2" "inv (fst (store w2))"
    "recs (fst (store w2)) = (recs (fst (store w)))(k := map_option Revoked (recs (fst (store w)) k))"
    "log w2 = log w @ [EvEmit (operator_record ActionMCPKeyRevoke scope k why) None]" "OperatorScope_Valid scope"
proof -
  obtain s fs where st: "store w = (s, fs)" by fastforce
  let ?rec = "operator_record ActionMCPKeyRevoke scope k why"
  have v: "OperatorScope_Valid scope" "e_emit E (step w) = None"
    using assms(2) by (auto simp: KeyEngine_Revoke_def emit_def ext_call_def split: if_splits option.splits)
  obtain x s1 where r: "RsRevoke R (e_ctx E (Suc (step w))) k s = (x, s1)" by fastforce
  let ?w2 = "w\<lparr>log := log w @ [EvEmit ?rec None], store := (s1, fs), step := step w + 2\<rparr>"
  have "x = None" "renderMCPKeyArtifacts R A cfg E ?w2 = (Inr out, w')"
    using assms(2) v r st by (auto simp: KeyEngine_Revoke_def emit_def ext_call_def st_call_def daemon_engine_def split: option.splits)
  moreover from this have "inv s1 \<and> recs s1 = (recs s)(k := map_option Revoked (recs s k))"
    using revoke_ok [of s] assms(1) r st by simp
  ultimately show thesis using that [of ?w2] v st by simp
qed

lemma listed_all: "dom (recs s) \<subseteq> set ord \<Longrightarrow> set (List.map_filter (recs s) ord) = ran (recs s)"
  by (auto simp: map_filter_in ran_def) (metis domI subsetD)

end

lemma keyset_text: "json_parse (MarshalIndent (keySetDoc rs) @ [newline_byte]) = Some (json_norm (keySetDoc rs))"
proof -
  have "json_ok (keySetDoc rs)" by (auto simp: keySetDoc_def keySetRecord_def list_all_iff valid_ascii)
  moreover have "list_all is_ws [newline_byte]" by (simp add: newline_byte_def is_ws_def)
  ultimately show ?thesis by (rule parse_indent)
qed

text \<open>
  What a published file must say, member by member and apart from the code that writes it: version 1,
  the state, and one object for each of the given records, in order. A name that is not UTF-8 is read
  with its bad bytes replaced.
\<close>

fun member_of :: "json \<Rightarrow> string \<Rightarrow> json option" where
  "member_of (JObj kvs) k = map_of kvs k"
| "member_of _ k = None"

definition describes :: "json \<Rightarrow> KeyRecord \<Rightarrow> bool" where
  "describes v r \<longleftrightarrow>
     member_of v ''key_id'' = Some (JStr (utf8_fix (KeyID r))) \<and>
     member_of v ''key_hash'' = Some (JStr (hex_encode (KeyHash r))) \<and>
     member_of v ''salt'' = Some (JStr (hex_encode (Salt r))) \<and>
     member_of v ''tenant'' = Some (JStr (utf8_fix (KrTenant r))) \<and>
     member_of v ''deployment'' = Some (JStr (utf8_fix (KrDeployment r))) \<and>
     member_of v ''status'' = Some (JStr ''active'') \<and>
     member_of v ''expires_at'' = (if ExpiresAt r = 0 then None else Some (JStr (format_RFC3339 (ExpiresAt r)))) \<and>
     member_of v ''created_at'' = Some (JStr (format_RFC3339 (CreatedAt r)))"

definition publishes :: "string \<Rightarrow> KeyRecord list \<Rightarrow> bool" where
  "publishes doc rs \<longleftrightarrow>
     (\<exists>j vs. json_parse doc = Some j \<and> member_of j ''version'' = Some (JNum ''1'') \<and>
        member_of j ''state'' = Some (JStr (if rs = [] then ''deny-all'' else ''active'')) \<and>
        member_of j ''records'' = Some (JArr vs) \<and> list_all2 describes vs rs)"

lemma record_describes: "describes (json_norm (keySetRecord r)) r"
  by (simp add: describes_def keySetRecord_def fix_ascii ascii_hex StatusActive_def)

lemma keyset_publishes: "publishes (MarshalIndent (keySetDoc rs) @ [newline_byte]) rs"
proof -
  have "list_all2 describes (map (\<lambda>r. json_norm (keySetRecord r)) rs) rs"
    using record_describes by (simp add: list_all2_conv_all_nth)
  moreover have "dec 1 = ''1''" by code_simp
  ultimately show ?thesis unfolding publishes_def keyset_text
    by (simp add: keySetDoc_def stateActive_def stateDenyAll_def jnat_def fix_ascii comp_def)
qed

lemma published_active:
  assumes "record_store R good recs keep storable" and "good (fst (store w))"
    and "renderMCPKeyArtifacts R A cfg E w = (Inr out, w')"
    and "mcpKeysetPath cfg \<noteq> ''''" and "mcpKeyFile cfg \<noteq> mcpKeysetPath cfg"
    and "\<And>i. at_temp A i \<noteq> Inr (mcpKeyFile cfg)" and "\<And>i. at_temp A i \<noteq> Inr (mcpKeysetPath cfg)"
    and "\<And>i. distinct (e_order E i) \<and> dom (recs (fst (store w))) \<subseteq> set (e_order E i)"
  shows "\<exists>active text. set active = {r \<in> ran (recs (fst (store w))). IsActive r (e_now E (step w))} \<and> distinct (map KeyID active) \<and>
    tree (snd (store w')) (mcpKeysetPath cfg) = Some (keySetPerm, text) \<and> publishes text active \<and>
    out = \<lparr>DenyAllPending = (active = [])\<rparr> \<and> recs (fst (store w')) = recs (fst (store w)) \<and> log w' = log w"
proof -
  note d = record_store.render_done [OF assms(1-3,5-7)]
  then obtain i active where a: "active = filter (\<lambda>r. IsActive r (e_now E (step w))) (List.map_filter (recs (fst (store w))) (e_order E i))"
    "out = \<lparr>DenyAllPending = (active = [])\<rparr>"
    "tree (snd (store w')) (mcpKeysetPath cfg) = Some (keySetPerm, MarshalIndent (keySetDoc active) @ [newline_byte])"
    using assms(4) by blast
  have "set active = {r \<in> ran (recs (fst (store w))). IsActive r (e_now E (step w))}"
    using record_store.listed_all [OF assms(1) conjunct2 [OF assms(8) [of i]]] by (auto simp: a(1))
  moreover have "distinct (map KeyID active)"
    unfolding a(1) using assms(8) [of i] record_store.stored_key [OF assms(1,2)]
    by (intro distinct_map_filter distinct_listed) blast+
  ultimately show ?thesis using a(2,3) keyset_publishes d by blast
qed

text \<open>
  C10: a revoked key leaves the published set. When a revoke answers success, over any store that keeps
  the contract, its audit record has been accepted, the record is revoked in the store and no other
  record has changed. The published file is complete and is read as JSON of version 1. It has exactly
  one object for each other record that is active at that time, with the id, the hash and the salt in
  hex, the tenant, the deployment, the status active, the expiry where there is one, and the instant
  of creation. It says deny-all, and the answer reports it, exactly when there are none.
\<close>

theorem revoke_published:
  assumes "record_store R good recs keep storable" and "good s" and "store w = (s, fs)"
    and "buildMCPKeyEngine R A cfg rnd c sf = (Inr K, sf')"
    and "mcpKeysetPath cfg \<noteq> ''''" and "mcpKeyFile cfg \<noteq> mcpKeysetPath cfg"
    and "\<And>i. at_temp A i \<noteq> Inr (mcpKeyFile cfg)" and "\<And>i. at_temp A i \<noteq> Inr (mcpKeysetPath cfg)"
    and "\<And>i. distinct (e_order E i) \<and> dom (recs s) \<subseteq> set (e_order E i)"
    and "KeyEngine_Revoke K E scope k why w = (Inr out, w')"
  shows "\<exists>s' fs' active text. store w' = (s', fs') \<and>
    log w' = log w @ [EvEmit (operator_record ActionMCPKeyRevoke scope k why) None] \<and>
    recs s' = (recs s)(k := map_option Revoked (recs s k)) \<and>
    set active = {r. \<exists>j. j \<noteq> k \<and> recs s j = Some r \<and> IsActive r (e_now E (step w + 2))} \<and> distinct (map KeyID active) \<and>
    tree fs' (mcpKeysetPath cfg) = Some (keySetPerm, text) \<and> publishes text active \<and>
    (DenyAllPending out \<longleftrightarrow> active = [])"
proof -
  have K: "K = daemon_engine R A cfg rnd" using build_engine [OF assms(4)] .
  have i: "good (fst (store w))" using assms(2,3) by simp
  obtain w2 where w2: "renderMCPKeyArtifacts R A cfg E w2 = (Inr out, w')" "step w2 = step w + 2" "good (fst (store w2))"
    "recs (fst (store w2)) = (recs s)(k := map_option Revoked (recs s k))"
    "log w2 = log w @ [EvEmit (operator_record ActionMCPKeyRevoke scope k why) None]"
    using record_store.revoke_done [OF assms(1) i assms(10) [unfolded K]] assms(3) by (metis fst_conv)
  have "distinct (e_order E i) \<and> dom (recs (fst (store w2))) \<subseteq> set (e_order E i)" for i
    using assms(9) [of i] w2(4) by auto
  from published_active [OF assms(1) w2(3,1) assms(5-8) this] obtain active doc where
    a: "set active = {r \<in> ran (recs (fst (store w2))). IsActive r (e_now E (step w + 2))}" "distinct (map KeyID active)"
      "tree (snd (store w')) (mcpKeysetPath cfg) = Some (keySetPerm, doc)" "publishes doc active"
      "out = \<lparr>DenyAllPending = (active = [])\<rparr>" "recs (fst (store w')) = recs (fst (store w2))" "log w' = log w2"
    unfolding w2(2) by blast
  have rv: "\<not> IsActive (Revoked r) t" for r t by (simp add: IsActive_def Revoked_def)
  have "set active = {r. \<exists>j. j \<noteq> k \<and> recs s j = Some r \<and> IsActive r (e_now E (step w + 2))}"
    unfolding a(1) w2(4) using rv by (auto simp: ran_def split: if_splits)
  then show ?thesis
    using w2(4,5) a(2-7)
    by (intro exI [of _ "fst (store w')"] exI [of _ "snd (store w')"] exI [of _ active] exI [of _ doc]) (simp del: fun_upd_apply)
qed

subsection \<open>Restarts\<close>

lemma load_entries:
  assumes "tree fs path = Some (entriesPerm, MarshalIndent (entriesDoc js) @ [newline_byte])" and "entries_json rs = Some js"
    and "list_all readable rs" and "\<And>i. at_stat A i = None" and "\<And>i. at_read A i = None"
  shows "LoadEntriesFile A path fs = (Inr rs, af_tick (af_tick fs))"
proof -
  obtain js' where "entries_json rs = Some js'" "json_parse (MarshalIndent (entriesDoc js') @ [newline_byte]) = Some (entriesDoc js')"
      "decode_value entries_field (0, []) (entriesDoc js') = Some (1, rs)"
    using entries_doc_read [OF assms(3)] by blast
  then show ?thesis using assms by (simp add: LoadEntriesFile_def entriesPerm_def)
qed

lemma seed_mem: "seed inMemStore False rs s = (None, s\<lparr>records := put_all (\<lambda>r. r) (records s) rs\<rparr>)"
  by (induction rs arbitrary: s) (simp_all add: inMemStore_def inMem_Put_def del: fun_upd_apply)

lemma readable_listed:
  assumes "\<And>k r. f k = Some r \<Longrightarrow> readable r"
  shows "list_all readable (List.map_filter f ks)"
  using assms by (auto simp: list_all_iff map_filter_in)

text \<open>
  C11: a restart reads back every record. After a successful rendering with an entries file, which is how
  every successful create and revoke ends, a daemon started on the files with an empty in-memory store
  comes up with exactly the records of the store that was rendered: no key is lost, and no revoked key
  is active again. Names in valid UTF-8 and instants in the years 1 to 9999 are assumed.
\<close>

theorem restart_reads_back:
  assumes "record_store R good recs keep storable" and "good (fst (store w))"
    and "renderMCPKeyArtifacts R A cfg E w = (Inr out, w')"
    and "mcpKeyFile cfg \<noteq> ''''" and "mcpKeyFile cfg \<noteq> mcpKeysetPath cfg"
    and "\<And>i. at_temp A i \<noteq> Inr (mcpKeyFile cfg)" and "\<And>i. at_temp A i \<noteq> Inr (mcpKeysetPath cfg)"
    and "dom (recs (fst (store w))) \<subseteq> set (e_order E (step w))"
    and "\<And>k r. recs (fst (store w)) k = Some r \<Longrightarrow> readable r"
    and "\<And>i. at_stat A' i = None" and "\<And>i. at_read A' i = None"
  shows "\<exists>K s fs. buildMCPKeyEngine inMemStore A' cfg rnd False (NewInMemRecordStore, snd (store w')) = (Inr K, s, fs) \<and>
    records s = recs (fst (store w')) \<and> tree fs = tree (snd (store w'))"
proof -
  let ?f = "recs (fst (store w))"
  let ?rs = "List.map_filter ?f (e_order E (step w))"
  from record_store.render_done [OF assms(1-3,5-7)] assms(4) obtain js where
    js: "recs (fst (store w')) = ?f" "entries_json ?rs = Some js"
      "tree (snd (store w')) (mcpKeyFile cfg) = Some (entriesPerm, MarshalIndent (entriesDoc js) @ [newline_byte])" by blast
  have "LoadEntriesFile A' (mcpKeyFile cfg) (snd (store w')) = (Inr ?rs, af_tick (af_tick (snd (store w'))))"
    using readable_listed [of ?f, OF assms(9)] by (intro load_entries [OF js(3,2)] assms(10,11)) simp_all
  then have load: "LoadEntriesFile A' (mcpKeyFile cfg) (snd (store w')) = (Inr ?rs, af_tick (af_tick (snd (store w'))))" .
  have key: "KeyID r = k" if "?f k = Some r" for k r using record_store.stored_key [OF assms(1,2) that] .
  have "?f k = None" if "k \<notin> set (e_order E (step w))" for k using assms(8) that by (metis domIff subsetD)
  moreover have "put_all (\<lambda>r. r) (\<lambda>_. None) ?rs = (\<lambda>k. if k \<in> set (e_order E (step w)) \<and> ?f k \<noteq> None then map_option (\<lambda>r. r) (?f k) else None)"
    by (rule put_all_listed) (rule key)
  ultimately have "put_all (\<lambda>r. r) (\<lambda>_. None) ?rs = ?f" by (auto simp: fun_eq_iff option.map_ident)
  then show ?thesis
    using load assms(4) js(1) seed_mem [of ?rs NewInMemRecordStore]
    by (simp add: buildMCPKeyEngine_def Let_def NewInMemRecordStore_def)
qed

text \<open>A boot of a durable store takes over the entries file, whatever the store held.\<close>

lemma pg_seed:
  assumes "\<And>n. fl n = PgOk" and "pg_ok t" and "list_all pg_storable rs"
  shows "\<exists>t'. seed (pgStore fl) False rs t = (None, t') \<and> pg_ok t' \<and> pg_recs t' = put_all pg_keep (pg_recs t) rs"
  using assms(2,3)
proof (induction rs arbitrary: t)
  case (Cons r rs)
  obtain t1 where p: "RsPut (pgStore fl) False r t = (None, t1)"
    using assms(1) by (simp add: pgStore_def pg_Put_def pg_exec_def Let_def)
  then have "pg_ok t1" "pg_recs t1 = (pg_recs t)(KeyID r \<mapsto> pg_keep r)"
    using pg.put_ok [OF Cons.prems(1), of r fl False t1] Cons.prems(2) by simp_all
  then show ?case using Cons.IH [of t1] Cons.prems(2) p by (simp del: fun_upd_apply)
qed simp

lemma pg_stored:
  assumes "pg_ok t" and "pg_recs t k = Some r"
  shows "pg_storable r"
  using assms by (auto simp: pg_ok_def row_ok_def pg_recs_def pg_storable_def pg_dated_def buildRecord_def split: option.splits)

lemma pg_revoke_step:
  assumes "\<And>n. fl n = PgOk" and "pg_ok t"
  shows "\<exists>t'. RsRevoke (pgStore fl) False k t = (None, t') \<and> pg_ok t' \<and> pg_recs t' = (pg_recs t)(k := map_option Revoked (pg_recs t k))"
proof -
  obtain t' where p: "RsRevoke (pgStore fl) False k t = (None, t')"
    using assms(1) by (simp add: pgStore_def pg_Revoke_def pg_exec_def Let_def)
  from pg.revoke_ok [OF assms(2) p] p show ?thesis by blast
qed

lemma pg_list_step:
  assumes "\<And>n. fl n = PgOk" and "pg_ok t"
  shows "\<exists>t'. RsList (pgStore fl) ord False t = (Inr (List.map_filter (pg_recs t) ord), t') \<and> pg_ok t' \<and> pg_recs t' = pg_recs t"
proof -
  obtain rs t' where p: "RsList (pgStore fl) ord False t = (Inr rs, t')"
    using assms(1) by (simp add: pgStore_def pg_List_def pg_query_def Let_def collect_all)
  from pg.list_result [OF assms(2) p] p show ?thesis by blast
qed

lemma entries_written: "list_all readable rs \<Longrightarrow> \<exists>js. entries_json rs = Some js"
  using entries_read [of rs] by blast

lemma readable_Revoked: "readable r \<Longrightarrow> readable (Revoked r)"
  by (simp add: readable_def Revoked_def StatusRevoked_def valid_ascii)

text \<open>A revoke whose entries file cannot be written.\<close>

lemma revoke_unwritten:
  assumes "\<And>n. fl n = PgOk" and "pg_ok t" and "\<And>j r. pg_recs t j = Some r \<Longrightarrow> readable r"
    and "store w = (t, fs)" and "mcpKeyFile cfg \<noteq> ''''" and "\<And>i. at_temp A i = Inl e"
    and "OperatorScope_Valid scope" and "e_emit E (step w) = None" and "\<And>i. \<not> e_ctx E i"
  shows "\<exists>w' t'. KeyEngine_Revoke (daemon_engine (pgStore fl) A cfg rnd) E scope k why w = (Inl e, w') \<and>
    store w' = (t', af_tick fs) \<and> pg_ok t' \<and> pg_recs t' = (pg_recs t)(k := map_option Revoked (pg_recs t k))"
proof -
  let ?g = "(pg_recs t)(k := map_option Revoked (pg_recs t k))" and ?ord = "e_order E (Suc (Suc (step w)))"
  obtain t1 where t1: "RsRevoke (pgStore fl) False k t = (None, t1)" "pg_ok t1" "pg_recs t1 = ?g"
    using pg_revoke_step [where fl = fl, OF assms(1,2)] by blast
  obtain t2 where t2: "RsList (pgStore fl) ?ord False t1 = (Inr (List.map_filter ?g ?ord), t2)" "pg_ok t2" "pg_recs t2 = ?g"
    using pg_list_step [where fl = fl, OF assms(1) t1(2)] t1(3) by metis
  have "readable r" if "?g j = Some r" for j r
    using that assms(3) readable_Revoked by (cases "j = k") auto
  then obtain js where js: "entries_json (List.map_filter ?g ?ord) = Some js"
    using entries_written readable_listed by metis
  have "WriteEntriesFile A (mcpKeyFile cfg) (List.map_filter ?g ?ord) fs = (Some e, af_tick fs)"
    by (simp add: WriteEntriesFile_def js writeAtomicWithPerm_def assms(6))
  then show ?thesis
    using assms(4,5,7-9) t1(1) t2
    by (simp add: KeyEngine_Revoke_def daemon_engine_def emit_def ext_call_def st_call_def renderMCPKeyArtifacts_def
        render_entries_def on_files_def Let_def del: fun_upd_apply)
qed

text \<open>
  C40: a failed write of the entries file can bring a revoked key back. Take the Postgres store, an entries
  file written from it before, and a revoke during which that file cannot be replaced. The revoke
  answers an error although the row is revoked. The next boot takes the records of the file over into
  the database, and the row is active again, with the hash of the revoked key.
\<close>

theorem failed_entries_resurrect:
  assumes "\<And>n. fl n = PgOk" and "pg_ok t" and "pg_recs t k = Some r" and "Status r = StatusActive"
    and "\<And>j r. pg_recs t j = Some r \<Longrightarrow> readable r" and "k \<in> set ord"
    and "entries_json (List.map_filter (pg_recs t) ord) = Some js"
    and "tree fs (mcpKeyFile cfg) = Some (entriesPerm, MarshalIndent (entriesDoc js) @ [newline_byte])"
    and "store w = (t, fs)" and "mcpKeyFile cfg \<noteq> ''''" and "\<And>i. at_temp A i = Inl e"
    and "OperatorScope_Valid scope" and "e_emit E (step w) = None" and "\<And>i. \<not> e_ctx E i"
    and "buildMCPKeyEngine (pgStore fl) A cfg rnd c sf = (Inr K, sf')"
    and "\<And>i. at_stat A' i = None" and "\<And>i. at_read A' i = None"
  shows "\<exists>w' K' t' fs' r'. KeyEngine_Revoke K E scope k why w = (Inl e, w') \<and>
    pg_recs (fst (store w')) k = Some (Revoked r) \<and>
    buildMCPKeyEngine (pgStore fl) A' cfg rnd False (store w') = (Inr K', t', fs') \<and>
    pg_recs t' k = Some r' \<and> Status r' = StatusActive \<and> KeyHash r' = KeyHash r \<and> Salt r' = Salt r"
proof -
  let ?rs = "List.map_filter (pg_recs t) ord"
  have "\<exists>w' t'. KeyEngine_Revoke K E scope k why w = (Inl e, w') \<and> store w' = (t', af_tick fs) \<and> pg_ok t' \<and>
      pg_recs t' = (pg_recs t)(k := map_option Revoked (pg_recs t k))"
    unfolding build_engine [OF assms(15)] by (rule revoke_unwritten) (use assms in simp_all)
  then obtain w' t1 where w': "KeyEngine_Revoke K E scope k why w = (Inl e, w')" "store w' = (t1, af_tick fs)" "pg_ok t1"
      "pg_recs t1 = (pg_recs t)(k := map_option Revoked (pg_recs t k))"
    by blast
  have load: "LoadEntriesFile A' (mcpKeyFile cfg) (af_tick fs) = (Inr ?rs, af_tick (af_tick (af_tick fs)))"
    using assms(8) readable_listed [of "pg_recs t", OF assms(5)] by (intro load_entries [OF _ assms(7)] assms(16,17)) simp_all
  have "list_all pg_storable ?rs" using pg_stored [OF assms(2)] by (auto simp: list_all_iff map_filter_in)
  then obtain t2 where t2: "seed (pgStore fl) False ?rs t1 = (None, t2)" "pg_recs t2 = put_all pg_keep (pg_recs t1) ?rs"
    using pg_seed [where fl = fl, OF assms(1) w'(3)] by blast
  have key: "KeyID r = j" if "pg_recs t j = Some r" for j r using pg.stored_key [OF assms(2) that] .
  have "put_all pg_keep (pg_recs t1) ?rs = (\<lambda>j. if j \<in> set ord \<and> pg_recs t j \<noteq> None then map_option pg_keep (pg_recs t j) else pg_recs t1 j)"
    by (rule put_all_listed) (rule key)
  then have "pg_recs t2 k = Some (pg_keep r)" using assms(3,6) by (simp add: t2(2))
  moreover have "Status (pg_keep r) = StatusActive \<and> KeyHash (pg_keep r) = KeyHash r \<and> Salt (pg_keep r) = Salt r"
    using pg_keep_same [OF pg_stored [OF assms(2,3)]] assms(4) by simp
  moreover have "\<exists>K' fs'. buildMCPKeyEngine (pgStore fl) A' cfg rnd False (store w') = (Inr K', t2, fs')"
    using load t2(1) w'(2) assms(10) by (simp add: buildMCPKeyEngine_def Let_def)
  moreover have "pg_recs (fst (store w')) k = Some (Revoked r)" using w'(2,4) assms(3) by simp
  ultimately show ?thesis using w'(1) by blast
qed

subsection \<open>Concrete runs\<close>

definition healthy_files :: "nat \<Rightarrow> afs_answers" where
  "healthy_files n = \<lparr>at_temp = (\<lambda>_. Inr ''.tmp''), at_chmod = (\<lambda>_. None), at_write = (\<lambda>_. (n, None)), at_sync = (\<lambda>_. None),
     at_close = (\<lambda>_. None), at_rename = (\<lambda>_. None), at_remove = (\<lambda>_. None), at_stat = (\<lambda>_. None), at_read = (\<lambda>_. None)\<rparr>"

lemma healthy_write:
  assumes "length data \<le> n" and "tree s ''.tmp'' = None"
  shows "\<exists>s'. writeAtomicWithPerm (healthy_files n) path data perm s = (None, s')"
  using assms by (simp add: writeAtomicWithPerm_def fill_temp_def rename_temp_def healthy_files_def)

definition two_keys :: inMemRecordStore where
  "two_keys = \<lparr>records = [''k1'' \<mapsto> demo_record, ''k2'' \<mapsto> demo_record\<lparr>KeyID := ''k2''\<rparr>]\<rparr>"

definition empty_files :: afs where "empty_files = \<lparr>tree = (\<lambda>_. None), af_calls = 0, af_past = []\<rparr>"

definition key_env :: env where "key_env = demo_env\<lparr>e_order := (\<lambda>_. [''k1'', ''k2'']), e_now := (\<lambda>_. 0)\<rparr>"

definition key_world :: "(inMemRecordStore \<times> afs) cworld" where
  "key_world = \<lparr>store = (two_keys, empty_files), step = 0, log = []\<rparr>"

definition no_rand :: rand_source where
  "no_rand = \<lparr>r_body = (\<lambda>_ _. Inl []), r_salt = (\<lambda>_. Inl []), r_id = (\<lambda>_. Inl [])\<rparr>"

definition key_scope :: OperatorScope where
  "key_scope = OperatorSeam_Mint NewOperatorSeam \<lparr>Tenant = ''acme'', Caller = ''root''\<rparr>"

lemma key_setup:
  "keyed two_keys" "dom (records two_keys) = {''k1'', ''k2''}" "e_emit key_env i = None" "\<not> e_ctx key_env i" "OperatorScope_Valid key_scope"
  by (auto simp: keyed_def two_keys_def demo_record_def key_env_def demo_env_def key_scope_def OperatorSeam_Mint_def NewOperatorSeam_def
      OperatorScope_Valid_def split: if_splits)

lemma demo_readable: "readable demo_record" "readable (demo_record\<lparr>KeyID := ''k2''\<rparr>)"
  by (simp_all add: readable_def demo_record_def year10000_def StatusActive_def valid_ascii)

lemma singleton_list: "set xs = {x} \<Longrightarrow> distinct xs \<Longrightarrow> xs = [x]"
  by (cases xs) (auto simp: subset_singleton_iff)

lemma two_keys_revoked:
  "RsRevoke inMemStore False ''k1'' two_keys = (None, two_keys\<lparr>records := (records two_keys)(''k1'' \<mapsto> Revoked demo_record)\<rparr>)"
  by (simp add: inMemStore_def inMem_Revoke_def two_keys_def Revoked_def)

theorem revoke_published_witness:
  "\<exists>n K out w' text. buildMCPKeyEngine inMemStore (healthy_files n) \<lparr>mcpKeyFile = '''', mcpKeysetPath = ''keys''\<rparr> no_rand False (two_keys, empty_files)
      = (Inr K, two_keys, empty_files) \<and>
    KeyEngine_Revoke K key_env key_scope ''k1'' ''leaked'' key_world = (Inr out, w') \<and> \<not> DenyAllPending out \<and>
    tree (snd (store w')) ''keys'' = Some (keySetPerm, text) \<and>
    publishes text [demo_record\<lparr>KeyID := ''k2''\<rparr>]"
proof -
  let ?cfg = "\<lparr>mcpKeyFile = '''', mcpKeysetPath = ''keys''\<rparr>" and ?r2 = "demo_record\<lparr>KeyID := ''k2''\<rparr>"
  let ?data = "MarshalIndent (keySetDoc [?r2]) @ [newline_byte]"
  define n where "n = length ?data"
  let ?A = "healthy_files n"
  let ?s1 = "two_keys\<lparr>records := (records two_keys)(''k1'' \<mapsto> Revoked demo_record)\<rparr>"
  have K: "buildMCPKeyEngine inMemStore ?A ?cfg no_rand False (two_keys, empty_files) = (Inr (daemon_engine inMemStore ?A ?cfg no_rand), two_keys, empty_files)"
    by (simp add: buildMCPKeyEngine_def daemon_engine_def)
  have act: "RsActiveRecords inMemStore [''k1'', ''k2''] False 0 ?s1 = (Inr [?r2], ?s1)"
    by (simp add: inMemStore_def inMem_ActiveRecords_def List.map_filter_def two_keys_def demo_record_def IsActive_def IsExpired_def Revoked_def)
  obtain fs where fs: "WriteKeySet ?A ''keys'' [?r2] 0 empty_files = (None, fs)"
    using healthy_write [of ?data n empty_files "''keys''" keySetPerm]
    by (auto simp: n_def WriteKeySet_def demo_record_def IsActive_def IsExpired_def empty_files_def)
  have ord: "e_order key_env i = [''k1'', ''k2'']" "e_now key_env i = 0" for i by (simp_all add: key_env_def)
  obtain out w' where r: "KeyEngine_Revoke (daemon_engine inMemStore ?A ?cfg no_rand) key_env key_scope ''k1'' ''leaked'' key_world = (Inr out, w')"
    by (simp add: KeyEngine_Revoke_def key_setup emit_def ext_call_def st_call_def daemon_engine_def key_world_def two_keys_revoked
        renderMCPKeyArtifacts_def render_entries_def render_keyset_def on_files_def Let_def ord act fs)
  have "\<exists>s' fs' active text. store w' = (s', fs') \<and>
      log w' = log key_world @ [EvEmit (operator_record ActionMCPKeyRevoke key_scope ''k1'' ''leaked'') None] \<and>
      records s' = (records two_keys)(''k1'' := map_option Revoked (records two_keys ''k1'')) \<and>
      set active = {r. \<exists>j. j \<noteq> ''k1'' \<and> records two_keys j = Some r \<and> IsActive r (e_now key_env (step key_world + 2))} \<and>
      distinct (map KeyID active) \<and> tree fs' (mcpKeysetPath ?cfg) = Some (keySetPerm, text) \<and> publishes text active \<and>
      (DenyAllPending out \<longleftrightarrow> active = [])"
    by (rule revoke_published [where good = keyed and recs = records, OF mem.record_store_axioms key_setup(1) _ K _ _ _ _ _ r])
      (simp_all add: key_world_def healthy_files_def ord key_setup)
  then obtain s' fs' active doc where a: "store w' = (s', fs')"
      "set active = {r. \<exists>j. j \<noteq> ''k1'' \<and> records two_keys j = Some r \<and> IsActive r (e_now key_env (step key_world + 2))}"
      "tree fs' (mcpKeysetPath ?cfg) = Some (keySetPerm, doc)" "publishes doc active" "DenyAllPending out \<longleftrightarrow> active = []"
      "distinct (map KeyID active)"
    by blast
  have recs: "records two_keys = (\<lambda>j. if j = ''k2'' then Some ?r2 else if j = ''k1'' then Some demo_record else None)"
    by (simp add: two_keys_def fun_eq_iff)
  have "IsActive ?r2 0" by (simp add: demo_record_def IsActive_def IsExpired_def)
  then have act2: "j \<noteq> ''k1'' \<and> records two_keys j = Some r \<and> IsActive r 0 \<longleftrightarrow> j = ''k2'' \<and> r = ?r2" for j r
    by (cases "j = ''k2''"; cases "j = ''k1''"; simp add: recs) metis
  have "set active = {?r2}" unfolding a(2) ord act2 by simp
  then have "active = [?r2]" using a(6) singleton_list [of active ?r2] by (auto simp: distinct_map)
  then show ?thesis
    by (intro exI [of _ n] exI [of _ "daemon_engine inMemStore ?A ?cfg no_rand"] exI [of _ out] exI [of _ w'] exI [of _ doc] conjI K r)
      (use a in auto)
qed

lemma key_recs: "records two_keys = (\<lambda>j. if j = ''k2'' then Some (demo_record\<lparr>KeyID := ''k2''\<rparr>) else if j = ''k1'' then Some demo_record else None)"
  by (simp add: two_keys_def fun_eq_iff)

lemma key_readable: "records two_keys k = Some r \<Longrightarrow> readable r"
  using demo_readable by (auto simp: key_recs split: if_splits)

theorem restart_reads_back_witness:
  "\<exists>n out w' K s fs. renderMCPKeyArtifacts inMemStore (healthy_files n) \<lparr>mcpKeyFile = ''entries'', mcpKeysetPath = ''''\<rparr> key_env key_world = (Inr out, w') \<and>
     buildMCPKeyEngine inMemStore (healthy_files n) \<lparr>mcpKeyFile = ''entries'', mcpKeysetPath = ''''\<rparr> no_rand False (NewInMemRecordStore, snd (store w'))
       = (Inr K, s, fs) \<and>
     records s ''k1'' = Some demo_record \<and> records s ''k2'' = Some (demo_record\<lparr>KeyID := ''k2''\<rparr>)"
proof -
  let ?cfg = "\<lparr>mcpKeyFile = ''entries'', mcpKeysetPath = ''''\<rparr>" and ?rs = "[demo_record, demo_record\<lparr>KeyID := ''k2''\<rparr>]"
  have "list_all readable ?rs" using demo_readable by simp
  then obtain js where js: "entries_json ?rs = Some js" using entries_written by blast
  let ?data = "MarshalIndent (entriesDoc js) @ [newline_byte]"
  define n where "n = length ?data"
  let ?A = "healthy_files n"
  have ord: "e_order key_env i = [''k1'', ''k2'']" for i by (simp add: key_env_def)
  obtain fs where fs: "WriteEntriesFile ?A ''entries'' ?rs empty_files = (None, fs)"
    using healthy_write [of ?data n empty_files "''entries''" entriesPerm] by (auto simp: n_def WriteEntriesFile_def js empty_files_def simp del: entries_json.simps)
  have list: "RsList inMemStore [''k1'', ''k2''] False two_keys = (Inr ?rs, two_keys)"
    by (simp add: inMemStore_def inMem_List_def key_recs List.map_filter_def)
  let ?w = "key_world\<lparr>store := (two_keys, fs), step := 1\<rparr>"
  have r: "renderMCPKeyArtifacts inMemStore ?A ?cfg key_env key_world = (Inr \<lparr>DenyAllPending = False\<rparr>, ?w)"
    by (simp add: renderMCPKeyArtifacts_def render_entries_def render_keyset_def Let_def st_call_def key_setup key_world_def ord list on_files_def fs)
  have "\<exists>K s fs'. buildMCPKeyEngine inMemStore ?A ?cfg no_rand False (NewInMemRecordStore, snd (store ?w)) = (Inr K, s, fs') \<and>
      records s = records (fst (store ?w)) \<and> tree fs' = tree (snd (store ?w))"
    by (rule restart_reads_back [where good = keyed and recs = records, OF mem.record_store_axioms _ r])
      (use key_readable in \<open>simp_all add: key_world_def healthy_files_def ord key_setup\<close>)
  then obtain K s fs' where "buildMCPKeyEngine inMemStore ?A ?cfg no_rand False (NewInMemRecordStore, snd (store ?w)) = (Inr K, s, fs')"
    "records s = records two_keys" by auto
  then show ?thesis using r by (intro exI conjI) (auto simp: key_recs)
qed

definition row_table :: mcp_keys where "row_table = \<lparr>table = [''k1'' \<mapsto> row_of demo_record], statements = 0\<rparr>"

definition full_disk :: afs_answers where
  "full_disk = (healthy_files 0)\<lparr>at_temp := (\<lambda>_. Inl [Dynamic ''no space left on device''])\<rparr>"

lemma row_table_recs: "pg_recs row_table = [''k1'' \<mapsto> demo_record]"
  by (simp add: row_table_def pg_recs_def fun_eq_iff row_of_def buildRecord_def demo_record_def timestamptz_def statusFromRecord_def)

lemma row_table_ok: "pg_ok row_table"
  by (simp add: pg_ok_def row_ok_def row_table_def row_of_def demo_record_def timestamptz_def statusFromRecord_def)

theorem failed_entries_resurrect_witness:
  "\<exists>js K sf w' K' t' fs' r'. entries_json [demo_record] = Some js \<and>
    (let fs = empty_files\<lparr>tree := [''entries'' \<mapsto> (entriesPerm, MarshalIndent (entriesDoc js) @ [newline_byte])]\<rparr>;
         cfg = \<lparr>mcpKeyFile = ''entries'', mcpKeysetPath = ''keys''\<rparr> in
     buildMCPKeyEngine (pgStore (\<lambda>_. PgOk)) full_disk cfg no_rand False (row_table, fs) = (Inr K, sf) \<and>
     KeyEngine_Revoke K key_env key_scope ''k1'' ''leaked'' \<lparr>store = (row_table, fs), step = 0, log = []\<rparr> = (Inl [Dynamic ''no space left on device''], w') \<and>
     pg_recs (fst (store w')) ''k1'' = Some (Revoked demo_record) \<and>
     buildMCPKeyEngine (pgStore (\<lambda>_. PgOk)) (healthy_files 0) cfg no_rand False (store w') = (Inr K', t', fs') \<and>
     pg_recs t' ''k1'' = Some r' \<and> Status r' = StatusActive \<and> KeyHash r' = KeyHash demo_record)"
proof -
  let ?R = "pgStore (\<lambda>_. PgOk)"
  let ?cfg = "\<lparr>mcpKeyFile = ''entries'', mcpKeysetPath = ''keys''\<rparr>"
  have rd: "list_all readable [demo_record]" using demo_readable by simp
  then obtain js where js: "entries_json [demo_record] = Some js" using entries_written by blast
  let ?fs = "empty_files\<lparr>tree := [''entries'' \<mapsto> (entriesPerm, MarshalIndent (entriesDoc js) @ [newline_byte])]\<rparr>"
  let ?w = "\<lparr>store = (row_table, ?fs), step = 0, log = []\<rparr>"
  have load: "LoadEntriesFile full_disk ''entries'' ?fs = (Inr [demo_record], af_tick (af_tick ?fs))"
    by (rule load_entries [OF _ js rd]) (simp_all add: full_disk_def healthy_files_def)
  have "list_all pg_storable [demo_record]" by (simp add: pg_storable_def pg_dated_def demo_record_def timestamptz_def)
  then obtain t1 where "seed ?R False [demo_record] row_table = (None, t1)"
    using pg_seed [of "\<lambda>_. PgOk"] row_table_ok by blast
  with load obtain K sf where K: "buildMCPKeyEngine ?R full_disk ?cfg no_rand False (row_table, ?fs) = (Inr K, sf)"
    by (auto simp: buildMCPKeyEngine_def Let_def simp del: seed.simps)
  have map: "List.map_filter (pg_recs row_table) [''k1''] = [demo_record]" by (simp add: row_table_recs List.map_filter_def)
  have "\<exists>w' K' t' fs' r'. KeyEngine_Revoke K key_env key_scope ''k1'' ''leaked'' ?w = (Inl [Dynamic ''no space left on device''], w') \<and>
    pg_recs (fst (store w')) ''k1'' = Some (Revoked demo_record) \<and>
    buildMCPKeyEngine ?R (healthy_files 0) ?cfg no_rand False (store w') = (Inr K', t', fs') \<and>
    pg_recs t' ''k1'' = Some r' \<and> Status r' = StatusActive \<and> KeyHash r' = KeyHash demo_record \<and> Salt r' = Salt demo_record"
    by (rule failed_entries_resurrect [where t = row_table and ord = "[''k1'']" and js = js and fs = ?fs, OF _ row_table_ok _ _ _ _ _ _ _ _ _ _ _ _ K])
      (use demo_readable js map in \<open>simp_all add: row_table_recs key_setup full_disk_def healthy_files_def demo_record_def split: if_splits\<close>)
  with js K show ?thesis unfolding Let_def by blast
qed

subsection \<open>Creating a key\<close>

lemma create_steps:
  assumes "KeyEngine_Create (daemon_engine R A cfg rnd) E scope tenant deployment exp w = Some (Inr (sk, rec), w')" and "store w = (s, fs)"
  shows "create_refused scope tenant deployment = None \<and> Minter_Mint (r_body rnd (step w)) = Some (Inr sk) \<and>
    NewRecord sk (r_salt rnd (step w)) (r_id rnd (step w)) tenant deployment (case exp of None \<Rightarrow> 0 | Some t \<Rightarrow> t) (e_now E (step w)) = Inr rec \<and>
    (\<exists>s1 out. RsPut R (e_ctx E (Suc (step w))) rec s = (None, s1) \<and>
      renderMCPKeyArtifacts R A cfg E
        (w\<lparr>log := log w @ [EvEmit (operator_record ActionMCPKeyCreate scope (KeyID rec) '''') None], store := (s1, fs), step := step w + 2\<rparr>) = (Inr out, w'))"
  using assms
  by (auto simp: KeyEngine_Create_def create_commit_def daemon_engine_def emit_def ext_call_def st_call_def
      split: option.splits sum.splits prod.splits)

text \<open>
  C13: what a created key is. When a create answers a secret, over any store that keeps the contract, the
  scope was valid and its names were present and not too long; the audit record with the key id has been
  accepted; the secret is the prefix followed by 43 characters of the alphabet. The record has as its id
  the hex text of 12 bytes, holds the SHA-256 of a salt of 32 bytes, not all zero, followed by the
  secret, is active, expires when the request says and was created at the clock reading of the call; it
  is in the store under its id with no other record changed. The published file is read as JSON and has
  exactly one object, with the members listed for a revoke, for each record that is active, so the new
  key is in it unless it was created already expired.
\<close>

theorem create_published:
  assumes "record_store R good recs keep storable" and "good s" and "store w = (s, fs)" and "storable rec"
    and "buildMCPKeyEngine R A cfg rnd c sf = (Inr K, sf')"
    and "mcpKeysetPath cfg \<noteq> ''''" and "mcpKeyFile cfg \<noteq> mcpKeysetPath cfg"
    and "\<And>i. at_temp A i \<noteq> Inr (mcpKeyFile cfg)" and "\<And>i. at_temp A i \<noteq> Inr (mcpKeysetPath cfg)"
    and "\<And>i. distinct (e_order E i) \<and> insert (KeyID rec) (dom (recs s)) \<subseteq> set (e_order E i)"
    and "KeyEngine_Create K E scope tenant deployment exp w = Some (Inr (sk, rec), w')"
  shows "OperatorScope_Valid scope \<and> tenant \<noteq> '''' \<and> deployment \<noteq> '''' \<and> runes tenant \<le> maxScopeLen \<and> runes deployment \<le> maxScopeLen \<and>
    (\<exists>body. SecretKey_Reveal sk = skPrefix @ body \<and> key_body body) \<and>
    KeyHash rec = sha256 (Salt rec @ SecretKey_Reveal sk) \<and> length (Salt rec) = saltLen \<and> validateSalt (Salt rec) = None \<and>
    KrTenant rec = tenant \<and> KrDeployment rec = deployment \<and> Status rec = StatusActive \<and>
    ExpiresAt rec = (case exp of None \<Rightarrow> 0 | Some t \<Rightarrow> t) \<and> CreatedAt rec = e_now E (step w) \<and>
    (\<exists>bs. length bs = keyIDLen \<and> KeyID rec = hex_encode bs) \<and>
    log w' = log w @ [EvEmit (operator_record ActionMCPKeyCreate scope (KeyID rec) '''') None] \<and>
    recs (fst (store w')) = (recs s)(KeyID rec \<mapsto> keep rec) \<and>
    (\<exists>active text. set active = {r \<in> ran (recs (fst (store w'))). IsActive r (e_now E (step w + 2))} \<and>
       tree (snd (store w')) (mcpKeysetPath cfg) = Some (keySetPerm, text) \<and> distinct (map KeyID active) \<and> publishes text active)"
proof -
  have K: "K = daemon_engine R A cfg rnd" using build_engine [OF assms(5)] .
  let ?w = "\<lambda>s1. w\<lparr>log := log w @ [EvEmit (operator_record ActionMCPKeyCreate scope (KeyID rec) '''') None], store := (s1, fs), step := step w + 2\<rparr>"
  from create_steps [OF assms(11) [unfolded K] assms(3)] obtain s1 out where
    c: "create_refused scope tenant deployment = None" "Minter_Mint (r_body rnd (step w)) = Some (Inr sk)"
      "NewRecord sk (r_salt rnd (step w)) (r_id rnd (step w)) tenant deployment (case exp of None \<Rightarrow> 0 | Some t \<Rightarrow> t) (e_now E (step w)) = Inr rec"
      "RsPut R (e_ctx E (Suc (step w))) rec s = (None, s1)" "renderMCPKeyArtifacts R A cfg E (?w s1) = (Inr out, w')" by blast
  have s1: "good s1" "recs s1 = (recs s)(KeyID rec \<mapsto> keep rec)" using record_store.put_ok [OF assms(1,2,4) c(4)] by blast+
  have "\<exists>active text. set active = {r \<in> ran (recs (fst (store (?w s1)))). IsActive r (e_now E (step (?w s1)))} \<and> distinct (map KeyID active) \<and>
    tree (snd (store w')) (mcpKeysetPath cfg) = Some (keySetPerm, text) \<and> publishes text active \<and>
    out = \<lparr>DenyAllPending = (active = [])\<rparr> \<and> recs (fst (store w')) = recs (fst (store (?w s1))) \<and> log w' = log (?w s1)"
    by (rule published_active [OF assms(1) _ c(5) assms(6,7)]) (use assms(8-10) s1 in simp_all)
  then obtain active doc where p: "set active = {r \<in> ran (recs s1). IsActive r (e_now E (step w + 2))}"
    "tree (snd (store w')) (mcpKeysetPath cfg) = Some (keySetPerm, doc)" "distinct (map KeyID active)" "publishes doc active"
    "recs (fst (store w')) = recs s1" "log w' = log w @ [EvEmit (operator_record ActionMCPKeyCreate scope (KeyID rec) '''') None]"
    by auto
  then have "\<exists>active text. set active = {r \<in> ran (recs (fst (store w'))). IsActive r (e_now E (step w + 2))} \<and>
       tree (snd (store w')) (mcpKeysetPath cfg) = Some (keySetPerm, text) \<and> distinct (map KeyID active) \<and> publishes text active"
    by metis
  moreover have "OperatorScope_Valid scope \<and> tenant \<noteq> '''' \<and> deployment \<noteq> '''' \<and> runes tenant \<le> maxScopeLen \<and> runes deployment \<le> maxScopeLen"
    using c(1) by (auto simp: create_refused_def split: if_splits)
  ultimately show ?thesis using p(5,6) s1(2) mint_form [OF c(2)] new_record [OF c(3)] by simp
qed

definition fixed_rand :: rand_source where
  "fixed_rand = \<lparr>r_body = (\<lambda>_ _. Inr (replicate 64 (CHR ''A''))), r_salt = (\<lambda>_. Inr (replicate 32 (CHR ''s''))), r_id = (\<lambda>_. Inr (replicate 12 (CHR ''0'')))\<rparr>"

definition fixed_key :: SecretKey where "fixed_key = \<lparr>sk_raw = skPrefix @ replicate 43 (CHR ''G'')\<rparr>"

definition fixed_id :: string where "fixed_id = hex_encode (replicate 12 (CHR ''0''))"

definition fixed_record :: KeyRecord where
  "fixed_record = \<lparr>KeyID = fixed_id, KeyHash = sha256 (replicate 32 (CHR ''s'') @ sk_raw fixed_key), Salt = replicate 32 (CHR ''s''),
     KrTenant = ''acme'', KrDeployment = ''prod'', ExpiresAt = 0, Status = StatusActive, CreatedAt = 0\<rparr>"

lemma fixed_mint: "Minter_Mint (r_body fixed_rand i) = Some (Inr fixed_key)"
proof -
  let ?bs = "\<lambda>_::nat. replicate 64 (CHR ''A'')"
  have a: "accepted (CHR ''A'')" "base62_char (CHR ''A'') = CHR ''G''"
    by (simp_all add: accepted_def rejectThreshold_def base62_char_def base62Alphabet_def)
  have d: "drawn ?bs 0 1 = replicate 64 (CHR ''A'')" by (simp add: drawn_def)
  have f: "filter accepted (replicate 64 (CHR ''A'')) = replicate 64 (CHR ''A'')" using a(1) by (simp add: filter_replicate)
  have "encodeBase62 (\<lambda>_. Inr (replicate 64 (CHR ''A''))) 0 '''' = Some (Inr (replicate 43 (CHR ''G'')))"
    using encode_draws [of 0 1 "\<lambda>_. Inr (replicate 64 (CHR ''A''))" ?bs "[]"] unfolding d f
    by (simp add: randScratchSize_def base62Width_def map_replicate take_replicate a(2))
  then show ?thesis by (simp add: Minter_Mint_def fixed_rand_def fixed_key_def newSecretKey_def)
qed

lemma fixed_new: "NewRecord fixed_key (r_salt fixed_rand i) (r_id fixed_rand i) ''acme'' ''prod'' 0 0 = Inr fixed_record"
  by (simp add: NewRecord_def ReadFull_def fixed_rand_def NewRecordWithSalt_def validateSalt_def saltLen_def keyIDLen_def Let_def
      fixed_record_def fixed_id_def SecretKey_Reveal_def char_of_def numeral_eq_Suc)

theorem create_published_witness:
  "\<exists>n K w' doc. buildMCPKeyEngine inMemStore (healthy_files n) \<lparr>mcpKeyFile = '''', mcpKeysetPath = ''keys''\<rparr> fixed_rand False (NewInMemRecordStore, empty_files)
      = (Inr K, NewInMemRecordStore, empty_files) \<and>
    KeyEngine_Create K (key_env\<lparr>e_order := \<lambda>_. [fixed_id]\<rparr>) key_scope ''acme'' ''prod'' None (key_world\<lparr>store := (NewInMemRecordStore, empty_files)\<rparr>)
      = Some (Inr (fixed_key, fixed_record), w') \<and>
    records (fst (store w')) = [fixed_id \<mapsto> fixed_record] \<and> tree (snd (store w')) ''keys'' = Some (keySetPerm, doc) \<and>
    publishes doc [fixed_record]"
proof -
  let ?cfg = "\<lparr>mcpKeyFile = '''', mcpKeysetPath = ''keys''\<rparr>" and ?E = "key_env\<lparr>e_order := \<lambda>_. [fixed_id]\<rparr>"
  let ?w = "key_world\<lparr>store := (NewInMemRecordStore, empty_files)\<rparr>" and ?s1 = "\<lparr>records = [fixed_id \<mapsto> fixed_record]\<rparr>"
  let ?data = "MarshalIndent (keySetDoc [fixed_record]) @ [newline_byte]"
  define n where "n = length ?data"
  let ?A = "healthy_files n" and ?K = "daemon_engine inMemStore (healthy_files n) ?cfg fixed_rand"
  have K: "buildMCPKeyEngine inMemStore ?A ?cfg fixed_rand False (NewInMemRecordStore, empty_files) = (Inr ?K, NewInMemRecordStore, empty_files)"
    by (simp add: buildMCPKeyEngine_def daemon_engine_def)
  have on: "IsActive fixed_record 0" "KeyID fixed_record = fixed_id" by (simp_all add: fixed_record_def IsActive_def IsExpired_def)
  have put: "RsPut inMemStore False fixed_record NewInMemRecordStore = (None, ?s1)"
    by (simp add: inMemStore_def inMem_Put_def NewInMemRecordStore_def on)
  have act: "RsActiveRecords inMemStore [fixed_id] False 0 ?s1 = (Inr [fixed_record], ?s1)"
    by (simp add: inMemStore_def inMem_ActiveRecords_def List.map_filter_def on)
  obtain fs where fs: "WriteKeySet ?A ''keys'' [fixed_record] 0 empty_files = (None, fs)"
    using healthy_write [of ?data n empty_files "''keys''" keySetPerm] by (auto simp: n_def WriteKeySet_def on empty_files_def)
  have E: "e_order ?E i = [fixed_id]" "e_now ?E i = 0" "e_emit ?E i = None" "\<not> e_ctx ?E i" for i by (simp_all add: key_setup key_env_def) (simp add: demo_env_def)+
  have ok: "create_refused key_scope ''acme'' ''prod'' = None"
    by (simp add: create_refused_def key_setup maxScopeLen_def) (code_simp)
  obtain w' where r: "KeyEngine_Create ?K ?E key_scope ''acme'' ''prod'' None ?w = Some (Inr (fixed_key, fixed_record), w')"
    using ok fixed_mint fixed_new put act fs E
    by (simp add: KeyEngine_Create_def create_commit_def emit_def ext_call_def st_call_def daemon_engine_def key_world_def
        renderMCPKeyArtifacts_def render_entries_def render_keyset_def on_files_def Let_def)
  have "OperatorScope_Valid key_scope \<and> ''acme'' \<noteq> '''' \<and> ''prod'' \<noteq> '''' \<and> runes ''acme'' \<le> maxScopeLen \<and> runes ''prod'' \<le> maxScopeLen \<and>
    (\<exists>body. SecretKey_Reveal fixed_key = skPrefix @ body \<and> key_body body) \<and>
    KeyHash fixed_record = sha256 (Salt fixed_record @ SecretKey_Reveal fixed_key) \<and> length (Salt fixed_record) = saltLen \<and>
    validateSalt (Salt fixed_record) = None \<and>
    KrTenant fixed_record = ''acme'' \<and> KrDeployment fixed_record = ''prod'' \<and> Status fixed_record = StatusActive \<and>
    ExpiresAt fixed_record = (case None of None \<Rightarrow> 0 | Some t \<Rightarrow> t) \<and> CreatedAt fixed_record = e_now ?E (step ?w) \<and>
    (\<exists>bs. length bs = keyIDLen \<and> KeyID fixed_record = hex_encode bs) \<and>
    log w' = log ?w @ [EvEmit (operator_record ActionMCPKeyCreate key_scope (KeyID fixed_record) '''') None] \<and>
    records (fst (store w')) = (records NewInMemRecordStore)(KeyID fixed_record \<mapsto> fixed_record) \<and>
    (\<exists>active text. set active = {r \<in> ran (records (fst (store w'))). IsActive r (e_now ?E (step ?w + 2))} \<and>
       tree (snd (store w')) (mcpKeysetPath ?cfg) = Some (keySetPerm, text) \<and> distinct (map KeyID active) \<and> publishes text active)"
    by (rule create_published [where good = keyed and recs = records and keep = "\<lambda>r. r", OF mem.record_store_axioms _ _ _ K _ _ _ _ _ r])
      (simp_all add: keyed_def NewInMemRecordStore_def healthy_files_def E on)
  then obtain active doc where a: "set active = {r \<in> ran (records (fst (store w'))). IsActive r (e_now ?E (step ?w + 2))}"
    "tree (snd (store w')) ''keys'' = Some (keySetPerm, doc)" "distinct (map KeyID active)" "publishes doc active"
    "records (fst (store w')) = [fixed_id \<mapsto> fixed_record]" by (auto simp: on NewInMemRecordStore_def)
  have "set active = {fixed_record}" unfolding a(1,5) E using on by auto
  then have "active = [fixed_record]" using a(3) singleton_list by (auto simp: distinct_map)
  then show ?thesis using K r a(2,4,5) by blast
qed

subsection \<open>No change without its audit record\<close>

lemma on_files_log [simp]: "log (snd (on_files f w)) = log w"
  by (simp add: on_files_def split: prod.splits)

lemma render_entries_log: "log (snd (render_entries R A cfg E w)) = log w"
proof -
  obtain y w1 where p: "st_call (e_ctx E) (RsList (with_files R) (e_order E (step w))) w = (y, w1)" by fastforce
  then have "log w1 = log w" using st_call_log [of "e_ctx E" "RsList (with_files R) (e_order E (step w))" w] by simp
  then show ?thesis using p by (cases y) (simp_all add: render_entries_def)
qed

lemma render_keyset_log: "log (snd (render_keyset R A cfg E now w)) = log w"
proof -
  obtain y w1 where p: "st_call (e_ctx E) (\<lambda>c. RsActiveRecords (with_files R) (e_order E (step w)) c now) w = (y, w1)" by fastforce
  then have 1: "log w1 = log w" using st_call_log [of "e_ctx E" "\<lambda>c. RsActiveRecords (with_files R) (e_order E (step w)) c now" w] by simp
  obtain x w2 where q: "on_files (WriteKeySet A (mcpKeysetPath cfg) (projr y) now) w1 = (x, w2)" by fastforce
  then have "log w2 = log w1" using on_files_log [of "WriteKeySet A (mcpKeysetPath cfg) (projr y) now" w1] by simp
  then show ?thesis using p q 1 by (cases y; cases x) (simp_all add: render_keyset_def)
qed

lemma render_log: "log (snd (renderMCPKeyArtifacts R A cfg E w)) = log w"
proof -
  obtain x w1 where e: "render_entries R A cfg E w = (x, w1)" by fastforce
  then have "log w1 = log w" using render_entries_log [of R A cfg E w] by simp
  then show ?thesis using e by (cases x) (simp_all add: renderMCPKeyArtifacts_def Let_def render_keyset_log)
qed

lemma emit_step:
  "emit E r w = (Some e, w1) \<Longrightarrow> store w1 = store w"
  "emit E r w = (None, w1) \<Longrightarrow> log w1 = log w @ [EvEmit r None]"
  by (auto simp: emit_def ext_call_def)

lemma commit_audited:
  assumes "create_commit (daemon_engine R A cfg rnd) E scope sk rec w = (a, w')" and "store w' \<noteq> store w"
  shows "log w' = log w @ [EvEmit (operator_record ActionMCPKeyCreate scope (KeyID rec) '''') None]"
proof -
  let ?r = "operator_record ActionMCPKeyCreate scope (KeyID rec) ''''"
  obtain x w1 where e: "emit E ?r w = (x, w1)" by fastforce
  have x: "x = None"
  proof (cases x)
    case (Some err)
    then have "w' = w1" using assms(1) e by (simp add: create_commit_def)
    then show ?thesis using emit_step(1) e Some assms(2) by metis
  qed simp
  obtain y w2 where p: "st_call (e_ctx E) (\<lambda>c. RsPut (with_files R) c rec) w1 = (y, w2)" by fastforce
  obtain z w3 where q: "renderMCPKeyArtifacts R A cfg E w2 = (z, w3)" by fastforce
  have "w' = w2 \<or> w' = w3"
    using assms(1) e x p q by (cases y; cases z) (simp_all add: create_commit_def daemon_engine_def)
  moreover have "log w2 = log w1" using st_call_log [of "e_ctx E" "\<lambda>c. RsPut (with_files R) c rec" w1] p by simp
  moreover have "log w3 = log w2" using render_log [of R A cfg E w2] q by simp
  ultimately show ?thesis using emit_step(2) e x by metis
qed

lemma revoke_audited:
  assumes "KeyEngine_Revoke (daemon_engine R A cfg rnd) E scope k why w = (b, w')" and "store w' \<noteq> store w"
  shows "log w' = log w @ [EvEmit (operator_record ActionMCPKeyRevoke scope k why) None]"
proof -
  let ?r = "operator_record ActionMCPKeyRevoke scope k why"
  have v: "OperatorScope_Valid scope" using assms by (auto simp: KeyEngine_Revoke_def split: if_splits)
  obtain x w1 where e: "emit E ?r w = (x, w1)" by fastforce
  have x: "x = None"
  proof (cases x)
    case (Some err)
    then have "w' = w1" using assms(1) e v by (simp add: KeyEngine_Revoke_def)
    then show ?thesis using emit_step(1) e Some assms(2) by metis
  qed simp
  obtain y w2 where p: "st_call (e_ctx E) (\<lambda>c. RsRevoke (with_files R) c k) w1 = (y, w2)" by fastforce
  obtain z w3 where q: "renderMCPKeyArtifacts R A cfg E w2 = (z, w3)" by fastforce
  have "w' = w2 \<or> w' = w3"
    using assms(1) e v x p q by (cases y) (simp_all add: KeyEngine_Revoke_def daemon_engine_def)
  moreover have "log w2 = log w1" using st_call_log [of "e_ctx E" "\<lambda>c. RsRevoke (with_files R) c k" w1] p by simp
  moreover have "log w3 = log w2" using render_log [of R A cfg E w2] q by simp
  ultimately show ?thesis using emit_step(2) e x by metis
qed

text \<open>
  C19: no key changes without its audit record. Whatever a create or a revoke answers, if the records or
  the files are not what they were, the sink had accepted the record of the action before; a refused
  record leaves both as they were.
\<close>

theorem key_change_audited:
  assumes "buildMCPKeyEngine R A cfg rnd c sf = (Inr K, sf')"
  shows "(KeyEngine_Create K E scope tenant deployment exp w = Some (a, w') \<longrightarrow> store w' \<noteq> store w \<longrightarrow>
      (\<exists>kid. log w' = log w @ [EvEmit (operator_record ActionMCPKeyCreate scope kid '''') None])) \<and>
    (KeyEngine_Revoke K E scope k why w = (b, w') \<longrightarrow> store w' \<noteq> store w \<longrightarrow>
      log w' = log w @ [EvEmit (operator_record ActionMCPKeyRevoke scope k why) None])"
proof -
  have K: "K = daemon_engine R A cfg rnd" using build_engine [OF assms] .
  have "\<exists>kid. log w' = log w @ [EvEmit (operator_record ActionMCPKeyCreate scope kid '''') None]"
    if c: "KeyEngine_Create K E scope tenant deployment exp w = Some (a, w')" and d: "store w' \<noteq> store w"
  proof -
    have "\<exists>sk rec. create_commit K E scope sk rec w = (a, w')"
      using c d by (auto simp: KeyEngine_Create_def split: option.splits sum.splits)
    then show ?thesis using commit_audited d unfolding K by metis
  qed
  then show ?thesis using revoke_audited unfolding K by metis
qed

theorem key_change_audited_witness:
  "\<exists>K w'. buildMCPKeyEngine inMemStore (healthy_files 0) \<lparr>mcpKeyFile = '''', mcpKeysetPath = ''''\<rparr> no_rand False (two_keys, empty_files)
      = (Inr K, two_keys, empty_files) \<and>
    KeyEngine_Revoke K key_env key_scope ''k1'' ''leaked'' key_world = (Inr \<lparr>DenyAllPending = False\<rparr>, w') \<and>
    store w' \<noteq> store key_world \<and> log w' = [EvEmit (operator_record ActionMCPKeyRevoke key_scope ''k1'' ''leaked'') None]"
proof -
  let ?cfg = "\<lparr>mcpKeyFile = '''', mcpKeysetPath = ''''\<rparr>" and ?A = "healthy_files 0"
  let ?s1 = "two_keys\<lparr>records := (records two_keys)(''k1'' \<mapsto> Revoked demo_record)\<rparr>"
  let ?K = "daemon_engine inMemStore ?A ?cfg no_rand"
  have K: "buildMCPKeyEngine inMemStore ?A ?cfg no_rand False (two_keys, empty_files) = (Inr ?K, two_keys, empty_files)"
    by (simp add: buildMCPKeyEngine_def daemon_engine_def)
  obtain w' where r: "KeyEngine_Revoke ?K key_env key_scope ''k1'' ''leaked'' key_world = (Inr \<lparr>DenyAllPending = False\<rparr>, w')"
      "store w' = (?s1, empty_files)"
    by (simp add: KeyEngine_Revoke_def key_setup emit_def ext_call_def st_call_def daemon_engine_def key_world_def two_keys_revoked
        renderMCPKeyArtifacts_def render_entries_def render_keyset_def Let_def)
  have "records ?s1 ''k1'' \<noteq> records two_keys ''k1''" by (simp add: key_recs Revoked_def demo_record_def)
  then have "?s1 \<noteq> two_keys" by (rule contrapos_nn) (rule arg_cong [where f = "\<lambda>s. records s ''k1''"])
  then have d: "store w' \<noteq> store key_world" using r(2) by (simp add: key_world_def)
  then have "log w' = log key_world @ [EvEmit (operator_record ActionMCPKeyRevoke key_scope ''k1'' ''leaked'') None]"
    by (rule conjunct2 [OF key_change_audited [OF K], rule_format, OF r(1)])
  then have l: "log w' = [EvEmit (operator_record ActionMCPKeyRevoke key_scope ''k1'' ''leaked'') None]" by (simp add: key_world_def)
  show ?thesis by (intro exI [of _ ?K] exI [of _ w'] conjI K r(1) d l)
qed

end
