(* ===== verification/Spec2Isabelle.thy ===== *)
theory Spec2Isabelle
  imports Audit_Merkle Audit_Rotate Sha256_Test MemStore Admission Admit_Gate Quota Registry Killswitch Lifecycle_Ops Create_Kill Soar Mcpkey_Set
begin

text \<open>
  A verification development of ocu-control, the control daemon of a sandbox service. The daemon admits
  session requests, reserves and charges them, has a runtime start a container for each, kills them on
  an operator's order, hands out the API keys of the gateway, and writes everything it does to a
  hash-chained audit trail. The program is the Go source under \<open>src/\<close>; file and function names below are
  relative to it.

  \<^bold>\<open>The parts and how they interact.\<close> The state store (\<open>internal/state\<close>) holds one row per session, the
  deny posture and the quota counters. The quota gate (\<open>internal/quota\<close>) and the registry
  (\<open>internal/registry\<close>) are written against the store interface: the first charges and refunds counters,
  the second derives the key of a session from its owner and hint, and moves its row. The lifecycle
  manager (\<open>internal/lifecycle\<close>) runs a create as a list of stages over the gate, the registry, the
  admission matrix (\<open>internal/admission\<close>) and the runtime, unwinds it on failure, and has the destroy, the
  boot reconciler and the idle reaper. The kill-switch engine (\<open>internal/killswitch\<close>) denies and kills
  through the same store and runtime. Both write an audit record before they act; the records go through
  the event mapping and the chain sink of \<open>internal/audit/ocsf\<close> to a file, which a boot may seal into a
  cold segment, and a Merkle head over the sealed trail is signed. In front of the handlers stand the
  admission gate and the per-caller limiter (\<open>internal/admit\<close>), and for signed revokes the verifier
  (\<open>internal/soarverify\<close>) with the replay guard (\<open>internal/ingress/operator\<close>). The key engine
  (\<open>internal/mcpkey\<close>) mints, stores and revokes API keys, and after each change renders the published key
  set and the entries file (\<open>internal/mcpkeyset\<close>), from which the next boot reads them back.

  \<^bold>\<open>Theories.\<close>
  \<^item> \<open>Ctl_Prelude\<close>: errors as the list of sentinels \<open>errors.Is\<close> finds, results, decimal and hexadecimal
    text, length-prefixed fields, 64-bit wrapping, and the named collections the proofs use.
  \<^item> \<open>Store\<close>: the types of \<open>state/store.go\<close>, the \<open>Store\<close> interface as a record of operations, and its
    contract as the locales \<open>store_contract\<close> and \<open>responsive_store\<close>. \<open>MemStore\<close>: every method of
    \<open>state/inmem.go\<close>, its invariant, the step relation of a running store, and the interpretation of
    the contract. \<open>Reserve\<close> is also split where the code releases \<open>denyMu\<close> between check and insert.
  \<^item> \<open>Admission\<close>: \<open>admission.go\<close>. \<open>Admit_Gate\<close>: \<open>admit.go\<close> and \<open>rate.go\<close>; the two channels of the gate are
    counters with every outcome of a select.
  \<^item> \<open>Sha256\<close> and \<open>Sha256_Test\<close>: the hash, defined so that keys and chains are computed and not assumed.
    \<open>Registry\<close>: \<open>registry.go\<close>. \<open>Quota\<close>: \<open>quota.go\<close> with its calendar windows.
  \<^item> \<open>Ctl_World\<close> and \<open>Control_Types\<close>: a run of the layers above the store. The world is the store, the
    number of the step and the log of outside calls; the environment answers every outside call by its
    step number and is otherwise arbitrary.
  \<^item> \<open>Killswitch\<close>: every operator call of \<open>killswitch.go\<close>. \<open>Lifecycle\<close>: the manager and the stages of a
    create (\<open>manager.go\<close>, \<open>stages.go\<close>, \<open>intent.go\<close>), compensators and unwind. \<open>Lifecycle_Create\<close>: what a create
    guarantees. \<open>Lifecycle_Ops\<close>: destroy, status, exec, the reconciler and the reaper. \<open>Create_Kill\<close>: a
    revoke between two stages of a running create.
  \<^item> \<open>Json\<close> and \<open>Json_Indent\<close>: what is used of \<open>encoding/json\<close>, \<open>unicode/utf8\<close> and \<open>encoding/base64\<close>, as
    printers, a parser and their round trips. \<open>Instants\<close>: the RFC 3339 texts of \<open>time\<close>, both ways.
  \<^item> \<open>Audit_Event\<close>, \<open>Audit_Chain\<close>, \<open>Audit_File\<close>, \<open>Audit_Merkle\<close>, \<open>Audit_Rotate\<close>: the files of \<open>audit/ocsf\<close> and
    \<open>audit/retention\<close> and the audit part of the boot in \<open>cmd/ocu-controld\<close>.
  \<^item> \<open>Soar\<close>: \<open>soarverify\<close>, \<open>replay.go\<close> and \<open>soar.go\<close>.
  \<^item> \<open>Atomic_File\<close>: the temp-and-rename write shared by \<open>mcpkeyset/artifact.go\<close> and \<open>jwks/artifact.go\<close>.
    \<open>Mcpkey\<close>: minting, secrets, records, both record stores behind the locale \<open>record_store\<close>, and the
    engine. \<open>Mcpkey_Set\<close>: the two files, and the engine as the daemon builds it.

  \<^bold>\<open>How state and operations correspond.\<close> A struct is a record with the source's field names (with a
  prefix where Isabelle has one name space), an enum a datatype or its byte, a Go map a HOL map, a method
  a definition named after type and method that takes the receiver's state and returns it with the result.
  Every early return is a branch; an error is a value. A store method runs under its locks and is one
  step. The iteration order of a Go map is an argument (\<open>e_order\<close>). \<open>int64\<close> counters are integers with the
  wrap-around written out, masks and hashes are words. Instants are integers of nanoseconds since year
  one, durations saturate or wrap as in Go. Files are states of a disk that record every intermediate
  state, so that a crash at any point is one of them.

  \<^bold>\<open>What is shown.\<close>
  \<^item> Store: reachable states keep the invariant (unique names, tombstones, transitions along
    reserve, commit, bind, release), the complete outcome of a reserve, bounds of the counters. The
    contract is proved for the in-memory store, and the clients are proved against the contract.
  \<^item> Create: a failure leaves nothing behind and is recorded once, a success delivers and charges once;
    create and destroy is a round trip; the reaper and the reconciler do exactly their part.
  \<^item> Kill-switch: a successful revoke leaves nothing of its target alive and keeps it out; nothing
    happens before its audit record is accepted.
  \<^item> Keys of sessions separate owners short of a SHA-256 collision; the admission table equals its rule;
    the gate keeps room for the kill-switch; the limiter admits its exact allowance.
  \<^item> Audit: while events stay below the reader's line limit, the file reads back as the acknowledged
    events and validates as one chain; a head determines
    its spine short of a collision; the tree is that of RFC 6962; rotation loses nothing at any crash
    point; retention deletes nothing early.
  \<^item> Signed revokes: the payload is injective, and no signature is admitted twice, replayed or re-dated,
    unless the keys accept one signature over two payloads.
  \<^item> API keys: minting is unbiased, a created key is published with its salted hash, a revoked one
    leaves the published file, whose members are stated apart from the code that writes them, a restart
    reads back what was rendered, Postgres and memory agree up to whole microseconds, and a replaced
    file is never seen in part.
  \<^item> Where the code does not do what its comments say, the behaviour is a theorem too: the lost
    update between reserve and revoke-all, double refunds, the boot after a rotation, a refused line that
    breaks the chain, an event too long to be read back, the wrap of the replay window, and the key that
    comes back after a failed write.

  \<^bold>\<open>Bounds, fuel and hypotheses.\<close> There is no fuel: recursions terminate structurally or by a proved
  measure, except the minting loop, which may run for ever with a bad entropy source; it is a partial
  function, and returning is proved from the draws that suffice. Ed25519, the entropy source, the database
  and the system calls are parameters. Statements about hashes give a collision explicitly instead of
  assuming that there is none. Hypotheses on counters are the absence of \<open>int64\<close> overflow and of negative
  values; on file names that a temporary name is not the target; on listings that they contain the stored
  keys, each once; on the audit file that an event's text is under 1 MiB less 512 bytes, the rest being
  room for the envelope below the scanner's 1 MiB; on the time to live that it is below the largest
  duration. Every property with hypotheses has a concrete run that meets them.

  \<^bold>\<open>Sequential runs.\<close> A run of the manager or of an engine is one sequence of calls; other requests
  enter only where a statement says so (the store between any two steps of the step relation of \<open>MemStore\<close>,
  the split reserve, and the revoke between two stages of a create in \<open>Create_Kill\<close>). Full interleavings
  of two creates are not modelled.

  \<^bold>\<open>Not modelled.\<close> The container runtimes (docker, Kubernetes, the firecracker stub), the warm pool's
  threads, staging, provisioning pushes and guest exec are outside calls with arbitrary answers. The
  Postgres session store is covered only through the contract; its SQL is not. The HTTP and gRPC
  transports, flag parsing, metrics, the command line client, generated protobuf code and tests have no
  state of the control plane. Token signing, JWKS rendering and certificate handling are calls of the
  crypto library around small structures. Reading the wall clock, contexts and goroutine scheduling appear
  only through the environment. Instants carry no time zone and are written in UTC. The route that decodes
  a signed revoke is not in the source; its payload is taken to be the canonical bytes of its own fields.
\<close>

end
